(* ===== verification/Go_Prelude.thy ===== *)
theory Go_Prelude
  imports Main "HOL-Library.AList" "HOL-Library.Monad_Syntax" "HOL-Library.Multiset"
begin

text \<open>
  What every component shares: the theorem collections of the development, Go's errors,
  Go's built-in maps as association lists with the laws the code relies on (locale
  \<open>go_map\<close>), Go's buffered channels with their three outcomes of a send
  (locale \<open>bounded_fifo\<close>), decimal printing, and lemmas on lists used as stores.
  A Go panic is \<open>None\<close> of the option monad throughout the development.
\<close>

named_theorems go_defs \<comment> \<open>definitions of the small helpers, unfolded by the component proofs\<close>
named_theorems frame \<comment> \<open>what an operation leaves unchanged\<close>

section \<open>Errors\<close>

text \<open>
  A Go \<open>error\<close> is its text: the code only ever prints it or compares \<open>err.Error()\<close>.
  A function that returns only an error returns \<open>go_error option\<close> (\<open>None\<close> is nil), one that
  returns a value or an error returns \<open>go_error + 'a\<close>.
\<close>

type_synonym go_error = string

section \<open>Maps\<close>

text \<open>
  A Go map is an association list with distinct keys. The order of the list stands for
  the order of one \<open>range\<close> loop, which Go leaves open: no theorem depends on it.
\<close>

type_synonym ('k, 'v) gomap = "('k \<times> 'v) list"

definition gm_get :: "('k, 'v) gomap \<Rightarrow> 'k \<Rightarrow> 'v option" where
  "gm_get m k = map_of m k"

definition gm_put :: "'k \<Rightarrow> 'v \<Rightarrow> ('k, 'v) gomap \<Rightarrow> ('k, 'v) gomap" where
  "gm_put k v m = AList.update k v m"

definition gm_del :: "'k \<Rightarrow> ('k, 'v) gomap \<Rightarrow> ('k, 'v) gomap" where
  "gm_del k m = AList.delete k m"

definition gm_keys :: "('k, 'v) gomap \<Rightarrow> 'k list" where
  "gm_keys m = map fst m"

definition gm_vals :: "('k, 'v) gomap \<Rightarrow> 'v list" where
  "gm_vals m = map snd m"

definition gm_ok :: "('k, 'v) gomap \<Rightarrow> bool" where
  "gm_ok m \<longleftrightarrow> distinct (map fst m)"

lemmas gm_defs = gm_get_def gm_put_def gm_del_def gm_keys_def gm_vals_def gm_ok_def

text \<open>The contract of a map, as every component that holds one uses it.\<close>

locale go_map =
  fixes empty :: "'m"
    and get :: "'m \<Rightarrow> 'k \<Rightarrow> 'v option"
    and put :: "'k \<Rightarrow> 'v \<Rightarrow> 'm \<Rightarrow> 'm"
    and del :: "'k \<Rightarrow> 'm \<Rightarrow> 'm"
    and keys :: "'m \<Rightarrow> 'k list"
    and len :: "'m \<Rightarrow> nat"
    and ok :: "'m \<Rightarrow> bool"
  assumes ok_empty: "ok empty"
    and ok_put: "ok m \<Longrightarrow> ok (put k v m)"
    and ok_del: "ok m \<Longrightarrow> ok (del k m)"
    and get_empty: "get empty k = None"
    and get_put: "get (put k v m) k' = (if k' = k then Some v else get m k')"
    and get_del: "ok m \<Longrightarrow> get (del k m) k' = (if k' = k then None else get m k')"
    and keys_get: "k \<in> set (keys m) \<longleftrightarrow> get m k \<noteq> None"
    and keys_distinct: "ok m \<Longrightarrow> distinct (keys m)"
    and len_keys: "len m = length (keys m)"
begin

lemma set_keys_put: "set (keys (put k v m)) = insert k (set (keys m))"
  by (auto simp: keys_get get_put split: if_splits)

lemma set_keys_del: "ok m \<Longrightarrow> set (keys (del k m)) = set (keys m) - {k}"
  by (auto simp: keys_get get_del split: if_splits)

lemma len_card: "ok m \<Longrightarrow> len m = card (set (keys m))"
  by (simp add: len_keys keys_distinct distinct_card)

lemma len_put: "ok m \<Longrightarrow> len (put k v m) = (if get m k = None then Suc (len m) else len m)"
  using keys_get [of k m] by (auto simp: len_card ok_put set_keys_put insert_absorb)

lemma len_del: "ok m \<Longrightarrow> len (del k m) = (if get m k = None then len m else len m - 1)"
  using keys_get [of k m] by (auto simp: len_card ok_del set_keys_del)

lemma len_empty: "len empty = 0"
proof -
  have "k \<notin> set (keys empty)" for k by (simp add: keys_get get_empty)
  then have "keys empty = []" by (cases "keys empty") auto
  then show ?thesis by (simp add: len_keys)
qed

end

interpretation gm: go_map "[]" gm_get gm_put gm_del gm_keys length gm_ok
proof
  fix m :: "('a, 'b) gomap" and k k' :: 'a and v :: 'b
  show "gm_get (gm_put k v m) k' = (if k' = k then Some v else gm_get m k')"
    by (simp add: gm_defs update_conv')
  show "gm_get (gm_del k m) k' = (if k' = k then None else gm_get m k')"
    by (simp add: gm_defs delete_conv')
  show "k \<in> set (gm_keys m) \<longleftrightarrow> gm_get m k \<noteq> None"
    by (simp add: gm_defs map_of_eq_None_iff)
qed (auto simp: gm_defs distinct_update distinct_delete)

lemmas gm_simps = gm.get_put gm.get_del gm.get_empty gm.set_keys_put gm.set_keys_del

declare gm.ok_empty [simp] gm.ok_put [simp] gm.ok_del [simp] gm.get_empty [simp] gm.get_put [simp]

lemma gm_get_SomeD: "gm_get m k = Some v \<Longrightarrow> (k, v) \<in> set m"
  by (simp add: gm_get_def map_of_SomeD)

lemma gm_get_iff: "gm_ok m \<Longrightarrow> gm_get m k = Some v \<longleftrightarrow> (k, v) \<in> set m"
  by (simp add: gm_defs)
lemma gm_put_set:
  assumes "gm_ok m"
  shows "set (gm_put k v m) = {(k', v'). (k', v') \<in> set m \<and> k' \<noteq> k} \<union> {(k, v)}" (is "?L = ?R")
proof -
  have "(a, b) \<in> ?L \<longleftrightarrow> (a, b) \<in> ?R" for a b
    using assms by (auto simp: gm_get_iff [symmetric] split: if_splits)
  then show ?thesis by (auto simp only: subset_iff set_eq_iff split_paired_All)
qed

lemma gm_del_set: "set (gm_del k m) = {(k', v'). (k', v') \<in> set m \<and> k' \<noteq> k}"
  by (auto simp: gm_del_def AList.delete_eq)

section \<open>Buffered channels\<close>

text \<open>
  A channel made by \<open>make(chan T, n)\<close>: its buffer (oldest first), its capacity and whether
  it is closed. A \<open>select\<close> with one send case and a default has three outcomes: the value
  is buffered, the default is taken, or the send panics because the channel is closed.
  Closing a closed channel panics as well. \<open>for x := range ch\<close> receives until the channel
  is closed and drained. (With a capacity above 0, a waiting receiver implies an empty
  buffer, so a send to it is a buffered send followed by a receive.)
\<close>

record 'a chan =
  chan_buf :: "'a list"
  chan_cap :: nat
  chan_closed :: bool

datatype 'q select_send = Sent 'q | Default | SendPanic

datatype ('a, 'q) range_recv = Received 'a 'q | Drained | Blocked

definition make_chan :: "nat \<Rightarrow> 'a chan" where
  "make_chan n = \<lparr>chan_buf = [], chan_cap = n, chan_closed = False\<rparr>"

definition chan_try_send :: "'a chan \<Rightarrow> 'a \<Rightarrow> 'a chan select_send" where
  "chan_try_send c x =
     (if chan_closed c then SendPanic
      else if length (chan_buf c) < chan_cap c then Sent (c\<lparr>chan_buf := chan_buf c @ [x]\<rparr>)
      else Default)"

definition chan_recv :: "'a chan \<Rightarrow> ('a, 'a chan) range_recv" where
  "chan_recv c =
     (case chan_buf c of
        x # xs \<Rightarrow> Received x (c\<lparr>chan_buf := xs\<rparr>)
      | [] \<Rightarrow> if chan_closed c then Drained else Blocked)"

definition chan_close :: "'a chan \<Rightarrow> 'a chan option" where
  "chan_close c = (if chan_closed c then None else Some (c\<lparr>chan_closed := True\<rparr>))"

text \<open>The contract of a bounded queue that can be closed, as the subscriber uses it.\<close>

locale bounded_fifo =
  fixes new :: "nat \<Rightarrow> 'q"
    and send :: "'q \<Rightarrow> 'a \<Rightarrow> 'q select_send"
    and recv :: "'q \<Rightarrow> ('a, 'q) range_recv"
    and close :: "'q \<Rightarrow> 'q option"
    and contents :: "'q \<Rightarrow> 'a list"
    and cap :: "'q \<Rightarrow> nat"
    and closed :: "'q \<Rightarrow> bool"
  assumes new: "contents (new n) = [] \<and> cap (new n) = n \<and> \<not> closed (new n)"
    and send_room: "\<not> closed q \<Longrightarrow> length (contents q) < cap q \<Longrightarrow>
      \<exists>q'. send q x = Sent q' \<and> contents q' = contents q @ [x] \<and> cap q' = cap q \<and> \<not> closed q'"
    and send_full: "\<not> closed q \<Longrightarrow> cap q \<le> length (contents q) \<Longrightarrow> send q x = Default"
    and send_closed: "closed q \<Longrightarrow> send q x = SendPanic"
    and recv_item: "contents q = y # ys \<Longrightarrow>
      \<exists>q'. recv q = Received y q' \<and> contents q' = ys \<and> cap q' = cap q \<and> closed q' = closed q"
    and recv_none: "contents q = [] \<Longrightarrow> recv q = (if closed q then Drained else Blocked)"
    and close_open: "\<not> closed q \<Longrightarrow>
      \<exists>q'. close q = Some q' \<and> contents q' = contents q \<and> cap q' = cap q \<and> closed q'"
    and close_closed: "closed q \<Longrightarrow> close q = None"
begin

lemma send_Sent_iff:
  "(\<exists>q'. send q x = Sent q') \<longleftrightarrow> \<not> closed q \<and> length (contents q) < cap q"
proof (cases "closed q")
  case True
  then show ?thesis by (simp add: send_closed)
next
  case False
  then show ?thesis using send_room [of q x] send_full [of q x] by (cases "length (contents q) < cap q") auto
qed

lemma send_SentD:
  assumes "send q x = Sent q'"
  shows "contents q' = contents q @ [x] \<and> cap q' = cap q \<and> \<not> closed q'"
  using assms send_Sent_iff [of q x] send_room [of q x] by auto

lemma send_DefaultD: "send q x = Default \<Longrightarrow> \<not> closed q \<and> cap q \<le> length (contents q)"
  using send_Sent_iff [of q x] send_closed [of q x] by (cases "closed q") auto

lemma send_panic_iff: "send q x = SendPanic \<longleftrightarrow> closed q"
  using send_Sent_iff [of q x] send_closed [of q x] send_full [of q x] send_room [of q x]
  by (cases "closed q"; cases "length (contents q) < cap q") auto

lemma send_bound:
  assumes "send q x = Sent q'"
  shows "length (contents q') \<le> cap q'"
proof -
  have "length (contents q) < cap q" using assms send_Sent_iff [of q x] by blast
  then show ?thesis using send_SentD [OF assms] by simp
qed

lemma recv_ReceivedD:
  assumes "recv q = Received y q'"
  shows "contents q = y # contents q' \<and> cap q' = cap q \<and> closed q' = closed q"
proof (cases "contents q")
  case Nil
  then show ?thesis using assms recv_none [of q] by (simp split: if_splits)
next
  case (Cons a as)
  then show ?thesis using assms recv_item [of q a as] by auto
qed

lemma recv_DrainedD: "recv q = Drained \<Longrightarrow> contents q = [] \<and> closed q"
  using recv_none [of q] recv_item [of q "hd (contents q)" "tl (contents q)"]
  by (cases "contents q") (auto split: if_splits)

lemma close_SomeD:
  assumes "close q = Some q'"
  shows "\<not> closed q \<and> contents q' = contents q \<and> cap q' = cap q \<and> closed q'"
  using assms close_open [of q] close_closed [of q] by (cases "closed q") auto

lemma close_None_iff: "close q = None \<longleftrightarrow> closed q"
  using close_open [of q] close_closed [of q] by (cases "closed q") auto

text \<open>First in, first out: what was sent is what was received followed by what waits.\<close>

lemma fifo_send: "sent = received @ contents q \<Longrightarrow> send q x = Sent q' \<Longrightarrow>
    sent @ [x] = received @ contents q'"
  using send_SentD by fastforce

lemma fifo_recv: "sent = received @ contents q \<Longrightarrow> recv q = Received y q' \<Longrightarrow>
    sent = (received @ [y]) @ contents q'"
  using recv_ReceivedD by fastforce

end

interpretation ch: bounded_fifo make_chan chan_try_send chan_recv chan_close chan_buf chan_cap chan_closed
  by unfold_locales (auto simp: make_chan_def chan_try_send_def chan_recv_def chan_close_def)

section \<open>Decimal printing\<close>

text \<open>\<open>strconv.Itoa\<close> and the verb \<open>%d\<close>.\<close>

fun utoa :: "nat \<Rightarrow> string" where
  "utoa n = (if n < 10 then [char_of (48 + n)] else utoa (n div 10) @ [char_of (48 + n mod 10)])"

declare utoa.simps [simp del]

definition itoa :: "int \<Rightarrow> string" where
  "itoa i = (if i < 0 then CHR ''-'' # utoa (nat (- i)) else utoa (nat i))"

section \<open>Lists as stores\<close>

text \<open>
  A pointer is an index into a list of objects; allocating appends, so a pointer stays
  valid and names the same object for ever.
\<close>

definition alloc :: "'a \<Rightarrow> 'a list \<Rightarrow> nat \<times> 'a list" where
  [go_defs]: "alloc x xs = (length xs, xs @ [x])"

text \<open>
  A \<open>range\<close> loop over pointers whose body works on the object pointed to and may count
  something. \<open>upd_at\<close> says what such a loop does when the pointers are distinct.
\<close>

fun store_loop :: "('o \<Rightarrow> (nat \<times> 'o) option) \<Rightarrow> nat list \<Rightarrow> 'o list \<Rightarrow> (nat \<times> 'o list) option" where
  "store_loop f [] xs = Some (0, xs)"
| "store_loop f (r # rs) xs = do {
     (n, x) \<leftarrow> f (xs ! r);
     (n', xs') \<leftarrow> store_loop f rs (xs[r := x]);
     Some (n + n', xs')
   }"

definition upd_at :: "nat set \<Rightarrow> ('o \<Rightarrow> 'o) \<Rightarrow> 'o list \<Rightarrow> 'o list" where
  "upd_at R f xs = map (\<lambda>i. if i \<in> R then f (xs ! i) else xs ! i) [0..<length xs]"

lemma length_upd_at [simp]: "length (upd_at R f xs) = length xs"
  by (simp add: upd_at_def)

lemma nth_upd_at: "i < length xs \<Longrightarrow> upd_at R f xs ! i = (if i \<in> R then f (xs ! i) else xs ! i)"
  by (simp add: upd_at_def)

lemma upd_at_empty [simp]: "upd_at {} f xs = xs"
  by (simp add: upd_at_def map_nth)

lemma upd_at_insert: "r < length xs \<Longrightarrow> r \<notin> R \<Longrightarrow> upd_at R f (xs[r := f (xs ! r)]) = upd_at (insert r R) f xs"
  by (rule nth_equalityI) (auto simp: nth_upd_at nth_list_update)

lemma upd_at_single: "r < length xs \<Longrightarrow> upd_at {r} f xs = xs[r := f (xs ! r)]"
  using upd_at_insert [of r xs "{}" f] by simp

lemma sum_if_card:
  assumes "finite A"
  shows "(\<Sum>x \<in> A. if P x then 0 else 1) = card {x \<in> A. \<not> P x}"
proof -
  have "A \<inter> - {x. P x} = {x \<in> A. \<not> P x}" by auto
  then show ?thesis using assms by (simp add: sum.If_cases)
qed

text \<open>The contract of a loop body: on a well-formed object it returns, and keeps it well-formed.\<close>

locale store_body =
  fixes step :: "'o \<Rightarrow> (nat \<times> 'o) option"
    and ok :: "'o \<Rightarrow> bool"
    and res :: "'o \<Rightarrow> nat"
    and upd :: "'o \<Rightarrow> 'o"
  assumes step_eq: "ok x \<Longrightarrow> step x = Some (res x, upd x)"
    and upd_ok: "ok x \<Longrightarrow> ok (upd x)"
begin

lemma loop_eq:
  assumes "distinct rs" "\<And>r. r \<in> set rs \<Longrightarrow> r < length xs \<and> ok (xs ! r)"
  shows "store_loop step rs xs = Some (\<Sum>r \<in> set rs. res (xs ! r), upd_at (set rs) upd xs)"
  using assms
proof (induction rs arbitrary: xs)
  case (Cons r rs)
  let ?xs = "xs[r := upd (xs ! r)]"
  have r: "r < length xs" "ok (xs ! r)" "r \<notin> set rs" using Cons.prems by auto
  have "q < length ?xs \<and> ok (?xs ! q)" if "q \<in> set rs" for q
    using that Cons.prems r by (auto simp: nth_list_update upd_ok)
  from Cons.IH [OF _ this] have "store_loop step rs ?xs =
      Some (\<Sum>q \<in> set rs. res (?xs ! q), upd_at (set rs) upd ?xs)"
    using Cons.prems by simp
  moreover have "(\<Sum>q \<in> set rs. res (?xs ! q)) = (\<Sum>q \<in> set rs. res (xs ! q))"
    using r(3) by (intro sum.cong refl arg_cong [where f = res]) (metis nth_list_update_neq)
  ultimately show ?case
    using r by (simp add: step_eq upd_at_insert)
qed simp

text \<open>The order in which Go ranges over the pointers does not matter.\<close>

lemma loop_order:
  assumes "distinct rs" "distinct rs'" "set rs' = set rs" "\<And>r. r \<in> set rs \<Longrightarrow> r < length xs \<and> ok (xs ! r)"
  shows "store_loop step rs' xs = store_loop step rs xs"
proof -
  have "\<And>r. r \<in> set rs' \<Longrightarrow> r < length xs \<and> ok (xs ! r)" using assms(3,4) by auto
  from loop_eq [OF assms(2) this] loop_eq [OF assms(1,4)] show ?thesis
    using assms(3) by simp
qed

end

end
