(* ===== verification/Go_Time.thy ===== *)
theory Go_Time
  imports Go_Prelude
begin

text \<open>
  What the source uses of Go's package time: an instant (\<open>time.Time\<close>) is its number of
  nanoseconds since the Unix epoch, a \<open>time.Duration\<close> a number of nanoseconds, and the
  JSON form of an instant is its RFC 3339 text with nanoseconds, in UTC (the zone of the
  server's container). Reading such a text back gives the instant: \<open>parse_time_fmt\<close>.
  This theory models the standard library, so nothing of it is in the map.
\<close>

type_synonym time = int

abbreviation second :: time where "second \<equiv> 1000000000"
abbreviation minute :: time where "minute \<equiv> 60 * second"
abbreviation hour :: time where "hour \<equiv> 60 * minute"

section \<open>The calendar\<close>

text \<open>Years start in March here, so that a leap day is the last day of its year.\<close>

definition year_day :: "int \<Rightarrow> int \<times> int" where
  "year_day doe =
     (let n100 = min (doe div 36524) 3; doc = doe - 36524 * n100;
          n4 = doc div 1461; doq = doc mod 1461;
          n1 = min (doq div 365) 3
      in (100 * n100 + 4 * n4 + n1, doq - 365 * n1))"

lemma year_day_range:
  assumes "0 \<le> doe" "doe < 146097" "year_day doe = (yoe, doy)"
  shows "0 \<le> yoe \<and> yoe < 400 \<and> 0 \<le> doy \<and> doy \<le> 365 \<and> 365 * yoe + yoe div 4 - yoe div 100 + doy = doe"
proof -
  define n100 where "n100 = min (doe div 36524) 3"
  define doc where "doc = doe - 36524 * n100"
  define n4 where "n4 = doc div 1461"
  define doq where "doq = doc mod 1461"
  define n1 where "n1 = min (doq div 365) 3"
  have y: "yoe = 100 * n100 + 4 * n4 + n1" "doy = doq - 365 * n1"
    using assms(3) unfolding year_day_def Let_def n100_def doc_def n4_def doq_def n1_def by simp_all
  have 1: "0 \<le> n100" "n100 \<le> 3" "0 \<le> doc" "doc \<le> 36524"
    using assms(1,2) unfolding n100_def doc_def by linarith+
  have 2: "0 \<le> n4" "n4 \<le> 24" "0 \<le> doq" "doq \<le> 1460" "doc = 1461 * n4 + doq"
    using 1 unfolding n4_def doq_def by (linarith|simp)+
  have 3: "0 \<le> n1" "n1 \<le> 3" "0 \<le> doy" "doy \<le> 365"
    using 2 unfolding n1_def y(2) by linarith+
  have 4: "yoe div 4 = 25 * n100 + n4" "yoe div 100 = n100"
    using 1 2 3 unfolding y by linarith+
  show ?thesis using 1 2 3 4 y by (simp add: doc_def)
qed

definition civil_from_days :: "int \<Rightarrow> int \<times> int \<times> int" where
  "civil_from_days z =
     (let era = (z + 719468) div 146097;
          (yoe, doy) = year_day ((z + 719468) mod 146097);
          mp = (5 * doy + 2) div 153;
          d = doy - (153 * mp + 2) div 5 + 1;
          m = (if mp < 10 then mp + 3 else mp - 9)
      in (yoe + era * 400 + (if m \<le> 2 then 1 else 0), m, d))"

definition days_from_civil :: "int \<Rightarrow> int \<Rightarrow> int \<Rightarrow> int" where
  "days_from_civil y m d =
     (let y' = (if m \<le> 2 then y - 1 else y); yoe = y' mod 400;
          doy = (153 * (if m > 2 then m - 3 else m + 9) + 2) div 5 + d - 1
      in y' div 400 * 146097 + (yoe * 365 + yoe div 4 - yoe div 100 + doy) - 719468)"

lemma days_civil:
  assumes "civil_from_days z = (y, m, d)"
  shows "days_from_civil y m d = z \<and> 1 \<le> m \<and> m \<le> 12 \<and> 1 \<le> d \<and> d \<le> 31"
proof -
  define era where "era = (z + 719468) div 146097"
  define doe where "doe = (z + 719468) mod 146097"
  obtain yoe doy where yd: "year_day doe = (yoe, doy)" by (cases "year_day doe")
  have r: "0 \<le> yoe" "yoe < 400" "0 \<le> doy" "doy \<le> 365" "365 * yoe + yoe div 4 - yoe div 100 + doy = doe"
    using year_day_range [OF _ _ yd] by (auto simp: doe_def)
  define mp where "mp = (5 * doy + 2) div 153"
  have mp: "0 \<le> mp" "mp \<le> 11" using r unfolding mp_def by linarith+
  have ymd: "m = (if mp < 10 then mp + 3 else mp - 9)" "y = yoe + era * 400 + (if m \<le> 2 then 1 else 0)"
     "d = doy - (153 * mp + 2) div 5 + 1"
    using assms yd unfolding civil_from_days_def Let_def era_def doe_def mp_def by (auto split: prod.splits)
  have y': "(if m \<le> 2 then y - 1 else y) = yoe + era * 400" by (simp add: ymd(2))
  have m': "(if m > 2 then m - 3 else m + 9) = mp" using mp by (simp add: ymd(1))
  have e: "(yoe + era * 400) div 400 = era" "(yoe + era * 400) mod 400 = yoe" using r by simp_all
  have z: "z = era * 146097 + doe - 719468" unfolding era_def doe_def by (simp)
  have d: "1 \<le> d" "d \<le> 31" unfolding ymd(3) mp_def using r by linarith+
  have "days_from_civil y m d = z"
    unfolding days_from_civil_def Let_def y' m' e z using r(5) by (simp add: ymd(3))
  then show ?thesis using d mp ymd(1) by auto
qed

text \<open>A date is valid if it is the date of a day: the check of \<open>time.Parse\<close>.\<close>

definition valid_date :: "int \<Rightarrow> int \<Rightarrow> int \<Rightarrow> bool" where
  "valid_date y m d \<longleftrightarrow> civil_from_days (days_from_civil y m d) = (y, m, d)"

lemma valid_date_civil: "civil_from_days z = (y, m, d) \<Longrightarrow> valid_date y m d"
  by (simp add: valid_date_def days_civil)

section \<open>Digits\<close>

definition digit :: "nat \<Rightarrow> char" where
  "digit n = char_of (48 + n)"

definition digit_val :: "char \<Rightarrow> nat" where
  "digit_val c = of_char c - 48"

definition is_digit :: "char \<Rightarrow> bool" where
  "is_digit c \<longleftrightarrow> 48 \<le> (of_char c :: nat) \<and> (of_char c :: nat) \<le> 57"

fun pad :: "nat \<Rightarrow> nat \<Rightarrow> string" where
  "pad 0 n = []"
| "pad (Suc k) n = pad k (n div 10) @ [digit (n mod 10)]"

definition digits_val :: "nat \<Rightarrow> string \<Rightarrow> nat" where
  "digits_val acc ds = foldl (\<lambda>a c. a * 10 + digit_val c) acc ds"

definition read_num :: "nat \<Rightarrow> string \<Rightarrow> (nat \<times> string) option" where
  "read_num k s =
     (if k \<le> length s \<and> list_all is_digit (take k s)
      then Some (digits_val 0 (take k s), drop k s) else None)"

fun read_char :: "char \<Rightarrow> string \<Rightarrow> string option" where
  "read_char c [] = None"
| "read_char c (x # s) = (if x = c then Some s else None)"

lemma digit_props: "n < 10 \<Longrightarrow> is_digit (digit n) \<and> digit_val (digit n) = n"
  by (simp add: is_digit_def digit_val_def digit_def)

lemma length_pad [simp]: "length (pad k n) = k"
  by (induction k n rule: pad.induct) auto

lemma pad_digits: "list_all is_digit (pad k n)"
  by (induction k n rule: pad.induct) (auto simp: digit_props)

lemma digits_val_pad: "digits_val acc (pad k n) = acc * 10 ^ k + n mod 10 ^ k"
proof (induction k n arbitrary: acc rule: pad.induct)
  case (1 n)
  show ?case by (simp add: digits_val_def)
next
  case (2 k n)
  have "n mod (10 * 10 ^ k) = 10 * (n div 10 mod 10 ^ k) + n mod 10"
    by (rule mod_mult2_eq)
  with "2.IH" show ?case by (simp add: digits_val_def digit_props)
qed

lemma read_num_pad: "n < 10 ^ k \<Longrightarrow> read_num k (pad k n @ s) = Some (n, s)"
  by (simp add: read_num_def pad_digits digits_val_pad)

section \<open>RFC 3339\<close>

definition strip_zeros :: "string \<Rightarrow> string" where
  "strip_zeros ds = rev (dropWhile (\<lambda>c. c = CHR ''0'') (rev ds))"

definition fmt_frac :: "nat \<Rightarrow> string" where
  "fmt_frac ns = (if ns = 0 then [] else CHR ''.'' # strip_zeros (pad 9 ns))"

definition fmt_time :: "time \<Rightarrow> string" where
  "fmt_time t =
     (let secs = t div second; ns = nat (t mod second);
          sod = nat (secs mod 86400); (y, m, d) = civil_from_days (secs div 86400)
      in pad 4 (nat y) @ ''-'' @ pad 2 (nat m) @ ''-'' @ pad 2 (nat d) @ ''T'' @
         pad 2 (sod div 3600) @ '':'' @ pad 2 (sod div 60 mod 60) @ '':'' @ pad 2 (sod mod 60) @
         fmt_frac ns @ ''Z'')"

definition time_year :: "time \<Rightarrow> int" where
  "time_year t = fst (civil_from_days (t div second div 86400))"

definition read_frac :: "string \<Rightarrow> (nat \<times> string) option" where
  "read_frac s =
     (case s of [] \<Rightarrow> Some (0, s)
      | c # r \<Rightarrow>
          if c \<noteq> CHR ''.'' then Some (0, s)
          else (let ds = takeWhile is_digit r
                in if ds = [] then None
                   else Some (digits_val 0 (take 9 (ds @ replicate 9 (CHR ''0''))),
                              dropWhile is_digit r)))"

definition read_zone :: "string \<Rightarrow> int option" where
  "read_zone s =
     (if s = ''Z'' then Some 0
      else case s of [] \<Rightarrow> None
      | c # r \<Rightarrow>
          if c \<noteq> CHR ''+'' \<and> c \<noteq> CHR ''-'' then None
          else do {
            (h, r) \<leftarrow> read_num 2 r; r \<leftarrow> read_char (CHR '':'') r; (m, r) \<leftarrow> read_num 2 r;
            if r = [] \<and> h < 24 \<and> m < 60
            then Some ((if c = CHR ''-'' then -1 else 1) * (int h * 3600 + int m * 60)) else None
          })"

definition parse_time :: "string \<Rightarrow> time option" where
  "parse_time s = do {
     (y, s) \<leftarrow> read_num 4 s; s \<leftarrow> read_char (CHR ''-'') s;
     (m, s) \<leftarrow> read_num 2 s; s \<leftarrow> read_char (CHR ''-'') s;
     (d, s) \<leftarrow> read_num 2 s; s \<leftarrow> read_char (CHR ''T'') s;
     (h, s) \<leftarrow> read_num 2 s; s \<leftarrow> read_char (CHR '':'') s;
     (mi, s) \<leftarrow> read_num 2 s; s \<leftarrow> read_char (CHR '':'') s;
     (sec, s) \<leftarrow> read_num 2 s; (ns, s) \<leftarrow> read_frac s; off \<leftarrow> read_zone s;
     if valid_date (int y) (int m) (int d) \<and> h < 24 \<and> mi < 60 \<and> sec < 60
     then Some ((days_from_civil (int y) (int m) (int d) * 86400 +
                 int (h * 3600 + mi * 60 + sec) - off) * second + int ns)
     else None
   }"

lemma strip_zeros_split: "\<exists>k. ds = strip_zeros ds @ replicate k (CHR ''0'')"
proof -
  have "rev ds = takeWhile (\<lambda>c. c = CHR ''0'') (rev ds) @ dropWhile (\<lambda>c. c = CHR ''0'') (rev ds)"
    by simp
  moreover have "takeWhile (\<lambda>c. c = CHR ''0'') xs = replicate (length (takeWhile (\<lambda>c. c = CHR ''0'') xs)) (CHR ''0'')"
    for xs :: string by (induction xs) auto
  ultimately show ?thesis
    by (metis rev_append rev_replicate rev_rev_ident strip_zeros_def)
qed

lemma take_strip_zeros: "length ds = n \<Longrightarrow> take n (strip_zeros ds @ replicate n (CHR ''0'')) = ds"
proof -
  assume n: "length ds = n"
  obtain k where k: "ds = strip_zeros ds @ replicate k (CHR ''0'')"
    using strip_zeros_split by blast
  then have "n = length (strip_zeros ds) + k" using n by (metis length_append length_replicate)
  then show ?thesis using k by (simp add: min_def)
qed

lemma strip_zeros_digits: "list_all is_digit ds \<Longrightarrow> list_all is_digit (strip_zeros ds)"
  by (auto simp: strip_zeros_def list_all_iff dest: set_dropWhileD)

lemma read_frac_fmt:
  assumes "ns < 1000000000"
  shows "read_frac (fmt_frac ns @ ''Z'') = Some (ns, ''Z'')"
proof (cases "ns = 0")
  case True
  then show ?thesis by (simp add: fmt_frac_def read_frac_def)
next
  case False
  let ?ds = "strip_zeros (pad 9 ns)"
  have d: "list_all is_digit ?ds" by (simp add: strip_zeros_digits pad_digits)
  have v: "digits_val 0 (take 9 (?ds @ replicate 9 (CHR ''0''))) = ns"
    using assms by (subst take_strip_zeros) (simp_all add: digits_val_pad)
  have ne: "?ds \<noteq> []"
  proof
    assume "?ds = []"
    then have "digits_val 0 (replicate 9 (CHR ''0'')) = ns" using v by simp
    with False show False by (simp add: digits_val_def digit_val_def eval_nat_numeral)
  qed
  have z: "\<not> is_digit (CHR ''Z'')" by (simp add: is_digit_def)
  have "takeWhile is_digit (?ds @ ''Z'') = ?ds" "dropWhile is_digit (?ds @ ''Z'') = ''Z''"
    using d z by (auto simp: takeWhile_append dropWhile_append list_all_iff)
  with False ne v show ?thesis by (simp add: fmt_frac_def read_frac_def)
qed

lemma sod_parts:
  assumes "sod < (86400 :: nat)"
  obtains h mi sec where "h = sod div 3600" "mi = sod div 60 mod 60" "sec = sod mod 60"
    "h < 24" "mi < 60" "sec < 60" "h * 3600 + mi * 60 + sec = sod"
proof
  show "sod div 3600 < 24" using assms by linarith
  have "sod div 60 = sod div 60 div 60 * 60 + sod div 60 mod 60" by simp
  moreover have "sod div 60 div 60 = sod div 3600" by (simp add: div_mult2_eq [symmetric])
  moreover have "sod = sod div 60 * 60 + sod mod 60" by simp
  ultimately show "sod div 3600 * 3600 + sod div 60 mod 60 * 60 + sod mod 60 = sod" by linarith
qed auto

lemma parse_time_fmt:
  assumes "0 \<le> time_year t" "time_year t \<le> 9999"
  shows "parse_time (fmt_time t) = Some t"
proof -
  define secs where "secs = t div second"
  define sod where "sod = nat (secs mod 86400)"
  define ns where "ns = nat (t mod second)"
  obtain y m d where ymd: "civil_from_days (secs div 86400) = (y, m, d)"
    by (cases "civil_from_days (secs div 86400)")
  have c: "days_from_civil y m d = secs div 86400" "1 \<le> m" "m \<le> 12" "1 \<le> d" "d \<le> 31"
    using days_civil [OF ymd] by auto
  have y: "0 \<le> y" "y \<le> 9999" using assms ymd by (simp_all add: time_year_def secs_def)
  have sod: "sod < 86400" by (simp add: sod_def nat_less_iff)
  have ns: "ns < 1000000000" by (simp add: ns_def nat_less_iff)
  have t: "(secs div 86400 * 86400 + int sod) * second + int ns = t"
    by (simp add: sod_def ns_def secs_def)
  obtain h mi sec where hms: "h = sod div 3600" "mi = sod div 60 mod 60" "sec = sod mod 60"
    "h < 24" "mi < 60" "sec < 60" "h * 3600 + mi * 60 + sec = sod"
    by (rule sod_parts [OF sod])
  have f: "fmt_time t =
     pad 4 (nat y) @ CHR ''-'' # pad 2 (nat m) @ CHR ''-'' # pad 2 (nat d) @ CHR ''T'' #
     pad 2 h @ CHR '':'' # pad 2 mi @ CHR '':'' # pad 2 sec @ (fmt_frac ns @ ''Z'')"
    using ymd by (simp add: fmt_time_def Let_def secs_def sod_def ns_def hms(1-3))
  have n: "read_num 4 (pad 4 (nat y) @ r) = Some (nat y, r)" "read_num 2 (pad 2 (nat m) @ r) = Some (nat m, r)"
    "read_num 2 (pad 2 (nat d) @ r) = Some (nat d, r)" "read_num 2 (pad 2 h @ r) = Some (h, r)"
    "read_num 2 (pad 2 mi @ r) = Some (mi, r)" "read_num 2 (pad 2 sec @ r) = Some (sec, r)" for r
    using y c hms(4-6) by (simp_all add: read_num_pad)
  have "read_zone ''Z'' = Some 0" by (simp add: read_zone_def)
  then have "parse_time (fmt_time t) = Some ((secs div 86400 * 86400 + int sod) * second + int ns)"
    unfolding parse_time_def f
    using hms(4-6) valid_date_civil [OF ymd] y c(2-5)
    by (simp add: n read_frac_fmt [OF ns] c(1) hms(7) del: pad.simps)
  then show ?thesis by (simp only: t)
qed

section \<open>Durations\<close>

text \<open>
  \<open>time.Duration.String\<close>: the largest unit that keeps the number above zero below a second,
  hours, minutes and seconds from there on, without trailing zeros. The micro sign is two
  bytes of UTF-8.
\<close>

definition duration_frac :: "nat \<Rightarrow> nat \<Rightarrow> string" where
  "duration_frac k v = (if v = 0 then [] else CHR ''.'' # strip_zeros (pad k v))"

definition duration_string :: "time \<Rightarrow> string" where
  "duration_string d =
     (let u = nat \<bar>d\<bar>; s = u div 1000000000; sign = (if d < 0 then ''-'' else []) in
      if u = 0 then ''0s''
      else if u < 1000 then sign @ utoa u @ ''ns''
      else if u < 1000000 then sign @ utoa (u div 1000) @ duration_frac 3 (u mod 1000) @ [CHR 0xC2, CHR 0xB5, CHR ''s'']
      else if u < 1000000000 then sign @ utoa (u div 1000000) @ duration_frac 6 (u mod 1000000) @ ''ms''
      else sign @
        (if s < 60 then [] else (if s < 3600 then [] else utoa (s div 3600) @ ''h'') @ utoa (s div 60 mod 60) @ ''m'') @
        utoa (s mod 60) @ duration_frac 9 (u mod 1000000000) @ ''s'')"

lemma pad_numeral: "pad (numeral k) n = pad (pred_numeral k) (n div 10) @ [digit (n mod 10)]"
  unfolding numeral_eq_Suc [of k] by (rule pad.simps(2))

lemma duration_examples:
  "duration_string 0 = ''0s''" "duration_string 1500000 = ''1.5ms''" "duration_string (- 5) = ''-5ns''"
  "duration_string (90 * second) = ''1m30s''" "duration_string 259380500000000 = ''72h3m0.5s''"
  by (simp_all add: duration_string_def duration_frac_def utoa.simps Let_def strip_zeros_def digit_def
      pad_numeral char_of_def bit_Suc_0_iff)

end
