(* ===== verification/Go_Json.thy ===== *)
theory Go_Json
  imports Go_Time "HOL-Library.List_Lexorder" "HOL-Library.Char_ord"
begin

text \<open>
  What the source uses of Go's encoding/json. A JSON document is its value tree; the text
  is not modelled. A number is an integer that a float64 holds exactly: the code's own
  fields are integers, and other numbers of a payload are outside the model. A Go value of
  type \<open>interface{}\<close> is a tree whose objects are sorted by key without duplicates
  (\<open>norm_any\<close>): decoding fills a map, in which the last of several equal keys wins, and
  encoding writes a map by sorted keys. Decoding into a struct goes through the members in
  order, matches their names without regard to case and ignores unknown ones.
  This theory models the standard library, so nothing of it is in the map.
\<close>

datatype json = JNull | JBool bool | JNum int | JStr string | JArr "json list"
  | JObj "(string \<times> json) list"

section \<open>Values of type any\<close>

definition dedup_keys :: "(string \<times> 'v) list \<Rightarrow> (string \<times> 'v) list" where
  "dedup_keys kvs = foldl (\<lambda>m (k, v). gm_put k v m) [] kvs"

definition canon_obj :: "(string \<times> 'v) list \<Rightarrow> (string \<times> 'v) list" where
  "canon_obj kvs = sort_key fst (dedup_keys kvs)"

fun norm_any :: "json \<Rightarrow> json" where
  "norm_any (JArr vs) = JArr (map norm_any vs)"
| "norm_any (JObj kvs) = JObj (canon_obj (map (\<lambda>(k, v). (k, norm_any v)) kvs))"
| "norm_any v = v"

lemma gm_put_fresh: "k \<notin> fst ` set m \<Longrightarrow> gm_put k v m = m @ [(k, v)]"
  by (induction m) (auto simp: gm_put_def)

lemma dedup_distinct_acc:
  "distinct (map fst (m @ kvs)) \<Longrightarrow> foldl (\<lambda>m (k, v). gm_put k v m) m kvs = m @ kvs"
  by (induction kvs arbitrary: m) (auto simp: gm_put_fresh)

lemma dedup_distinct: "distinct (map fst kvs) \<Longrightarrow> dedup_keys kvs = kvs"
  using dedup_distinct_acc [of "[]" kvs] by (simp add: dedup_keys_def)

lemma dedup_ok_acc: "gm_ok m \<Longrightarrow> gm_ok (foldl (\<lambda>m (k, v). gm_put k v m) m kvs)"
  by (induction kvs arbitrary: m) auto

lemma dedup_ok: "distinct (map fst (dedup_keys kvs))"
  using dedup_ok_acc [of "[]" kvs] by (simp add: dedup_keys_def gm_ok_def)

lemma map_fst_sort_key: "map fst (sort_key fst kvs) = sort (map fst kvs)"
  by (rule properties_for_sort [symmetric]) simp_all

lemma canon_distinct: "distinct (map fst (canon_obj kvs))"
  by (simp add: canon_obj_def map_fst_sort_key dedup_ok)

lemma canon_sorted: "sorted (map fst (canon_obj kvs))"
  by (simp add: canon_obj_def)

lemma canon_id: "distinct (map fst kvs) \<Longrightarrow> sorted (map fst kvs) \<Longrightarrow> canon_obj kvs = kvs"
  by (simp add: canon_obj_def dedup_distinct sort_key_id_if_sorted)

lemma gm_put_subset: "set (gm_put k v m) \<subseteq> insert (k, v) (set m)"
  by (induction m) (auto simp: gm_put_def)

lemma dedup_subset_acc: "set (foldl (\<lambda>m (k, v). gm_put k v m) m kvs) \<subseteq> set m \<union> set kvs"
proof (induction kvs arbitrary: m)
  case (Cons kv kvs)
  obtain k v where kv: "kv = (k, v)" by (cases kv)
  show ?case using Cons.IH [of "gm_put k v m"] gm_put_subset [of k v m] by (auto simp: kv)
qed simp

lemma canon_obj_set: "set (canon_obj kvs) \<subseteq> set kvs"
  using dedup_subset_acc [of "[]" kvs] by (simp add: canon_obj_def dedup_keys_def)

lemma norm_any_idem: "norm_any (norm_any v) = norm_any v"
proof (induction v rule: norm_any.induct)
  case (2 kvs)
  let ?n = "map (\<lambda>(k, v). (k, norm_any v)) kvs"
  have "map (\<lambda>(k, v). (k, norm_any v)) (canon_obj ?n) = canon_obj ?n"
    using "2.IH" canon_obj_set [of ?n] by (intro map_idI) fastforce
  then show ?case by (simp add: canon_id canon_distinct canon_sorted)
qed auto

section \<open>Decoding\<close>

definition lower :: "char \<Rightarrow> char" where
  "lower c = (if 65 \<le> (of_char c :: nat) \<and> (of_char c :: nat) \<le> 90 then char_of (of_char c + 32 :: nat) else c)"

definition key_is :: "string \<Rightarrow> string \<Rightarrow> bool" where
  "key_is k name \<longleftrightarrow> map lower k = map lower name"

text \<open>Each decoder takes the present value: \<open>null\<close> leaves it, a wrong type is an error.\<close>

fun decode_string :: "json \<Rightarrow> string \<Rightarrow> string option" where
  "decode_string (JStr s) old = Some s"
| "decode_string JNull old = Some old"
| "decode_string _ old = None"

fun decode_int :: "json \<Rightarrow> int \<Rightarrow> int option" where
  "decode_int (JNum n) old = (if - (2 ^ 63) \<le> n \<and> n < 2 ^ 63 then Some n else None)"
| "decode_int JNull old = Some old"
| "decode_int _ old = None"

fun decode_time :: "json \<Rightarrow> time \<Rightarrow> time option" where
  "decode_time (JStr s) old = parse_time s"
| "decode_time JNull old = Some old"
| "decode_time _ old = None"

definition decode_any :: "json \<Rightarrow> json option" where
  "decode_any v = Some (norm_any v)"

fun decode_fields :: "(string \<Rightarrow> json \<Rightarrow> 's \<Rightarrow> 's option) \<Rightarrow> (string \<times> json) list \<Rightarrow> 's \<Rightarrow> 's option" where
  "decode_fields f [] s = Some s"
| "decode_fields f ((k, v) # kvs) s = do { s \<leftarrow> f k v s; decode_fields f kvs s }"

fun decode_struct :: "(string \<Rightarrow> json \<Rightarrow> 's \<Rightarrow> 's option) \<Rightarrow> json \<Rightarrow> 's \<Rightarrow> 's option" where
  "decode_struct f (JObj kvs) s = decode_fields f kvs s"
| "decode_struct f JNull s = Some s"
| "decode_struct f _ s = None"

text \<open>Encoding a struct: the members in order, less those that \<open>omitempty\<close> drops.\<close>

definition omit_empty :: "bool \<Rightarrow> string \<Rightarrow> json \<Rightarrow> (string \<times> json) list" where
  "omit_empty e k v = (if e then [] else [(k, v)])"

definition json_get :: "(string \<times> json) list \<Rightarrow> string \<Rightarrow> json option" where
  "json_get kvs k = map_of kvs k"

end
