(* ===== verification/Model.thy ===== *)
theory Model
  imports Go_Json "HOL-Library.Word"
begin

text \<open>
  The data of \<^verbatim>\<open>internal/model\<close>: messages, the client and server protocol messages, the
  REST bodies and the error codes, with the JSON form that the struct tags give them.
  A \<open>ServerMessage\<close> holds a pointer to its \<open>Message\<close>; the type parameter \<open>'p\<close> is the
  pointer (an index into the store of messages) while the server message waits in a queue,
  and the message itself once it has been read for writing (\<open>deref\<close>).
\<close>

section \<open>message.go\<close>

record message =
  m_id :: string
  m_payload :: json
  m_ts :: time

record error_info =
  e_code :: string
  e_message :: string

record topic_info =
  ti_name :: string
  ti_subscribers :: nat
  ti_message_count :: "64 word"

record stats =
  st_total_topics :: nat
  st_total_subscribers :: nat
  st_topics :: "topic_info list"

record health =
  h_status :: string
  h_uptime_sec :: int
  h_topics :: nat
  h_subscribers :: nat

section \<open>protocol.go\<close>

record client_message =
  c_type :: string
  c_topic :: string
  c_client_id :: string
  c_last_n :: int
  c_request_id :: string
  c_message :: "message option"

record 'p server_message =
  s_type :: string
  s_topic :: string
  s_request_id :: string
  s_message :: "'p option"
  s_error :: "error_info option"
  s_ts :: time
  s_info :: string

record create_topic_request =
  cr_name :: string

record create_topic_response =
  cs_success :: bool
  cs_name :: string
  cs_error :: string

record list_topics_response =
  lt_topics :: "topic_info list"

definition ErrorCodeTopicNotFound :: string where
  "ErrorCodeTopicNotFound = ''TOPIC_NOT_FOUND''"
definition ErrorCodeTopicAlreadyExists :: string where
  "ErrorCodeTopicAlreadyExists = ''TOPIC_ALREADY_EXISTS''"
definition ErrorCodeSlowConsumer :: string where
  "ErrorCodeSlowConsumer = ''SLOW_CONSUMER''"
definition ErrorCodeInvalidMessage :: string where
  "ErrorCodeInvalidMessage = ''INVALID_MESSAGE''"
definition ErrorCodeMaxTopicsReached :: string where
  "ErrorCodeMaxTopicsReached = ''MAX_TOPICS_REACHED''"
definition ErrorCodeMaxSubscribers :: string where
  "ErrorCodeMaxSubscribers = ''MAX_SUBSCRIBERS_REACHED''"
definition ErrorCodeInternalError :: string where
  "ErrorCodeInternalError = ''INTERNAL_ERROR''"

lemmas error_code_defs = ErrorCodeTopicNotFound_def ErrorCodeTopicAlreadyExists_def
  ErrorCodeSlowConsumer_def ErrorCodeInvalidMessage_def ErrorCodeMaxTopicsReached_def
  ErrorCodeMaxSubscribers_def ErrorCodeInternalError_def

section \<open>Zero values\<close>

text \<open>\<open>time.Time{}\<close> is January 1 of year 1.\<close>

definition zero_time :: time where
  "zero_time = days_from_civil 1 1 1 * 86400 * second"

definition zero_message :: message where
  "zero_message = \<lparr>m_id = [], m_payload = JNull, m_ts = zero_time\<rparr>"

definition zero_client_message :: client_message where
  "zero_client_message =
     \<lparr>c_type = [], c_topic = [], c_client_id = [], c_last_n = 0, c_request_id = [], c_message = None\<rparr>"

definition zero_server_message :: "'p server_message" where
  "zero_server_message =
     \<lparr>s_type = [], s_topic = [], s_request_id = [], s_message = None, s_error = None,
      s_ts = zero_time, s_info = []\<rparr>"

text \<open>Reading a queued server message: its pointer is followed at this moment.\<close>

definition deref :: "message list \<Rightarrow> nat server_message \<Rightarrow> message server_message" where
  "deref cells m =
     \<lparr>s_type = s_type m, s_topic = s_topic m, s_request_id = s_request_id m,
      s_message = map_option (\<lambda>p. cells ! p) (s_message m), s_error = s_error m,
      s_ts = s_ts m, s_info = s_info m\<rparr>"

section \<open>JSON\<close>

text \<open>\<open>time.Time.MarshalJSON\<close> refuses a year of more than four digits.\<close>

definition marshal_time :: "time \<Rightarrow> go_error + json" where
  "marshal_time t =
     (if 0 \<le> time_year t \<and> time_year t \<le> 9999 then Inr (JStr (fmt_time t))
      else Inl ''json: error calling MarshalJSON for type time.Time: Time.MarshalJSON: year outside of range [0,9999]'')"

definition marshal_message :: "message \<Rightarrow> go_error + json" where
  "marshal_message m =
     (case marshal_time (m_ts m) of Inl e \<Rightarrow> Inl e
      | Inr ts \<Rightarrow> Inr (JObj [(''id'', JStr (m_id m)), (''payload'', norm_any (m_payload m)), (''ts'', ts)]))"

definition message_field :: "string \<Rightarrow> json \<Rightarrow> message \<Rightarrow> message option" where
  "message_field k v m =
     (if key_is k ''id'' then map_option (\<lambda>x. m\<lparr>m_id := x\<rparr>) (decode_string v (m_id m))
      else if key_is k ''payload'' then map_option (\<lambda>x. m\<lparr>m_payload := x\<rparr>) (decode_any v)
      else if key_is k ''ts'' then map_option (\<lambda>x. m\<lparr>m_ts := x\<rparr>) (decode_time v (m_ts m))
      else Some m)"

definition unmarshal_message :: "json \<Rightarrow> message option" where
  "unmarshal_message v = decode_struct message_field v zero_message"

text \<open>A pointer field: \<open>null\<close> makes it nil, a value goes into the object it names or a new one.\<close>

definition decode_message_ptr :: "json \<Rightarrow> message option \<Rightarrow> message option option" where
  "decode_message_ptr v old =
     (if v = JNull then Some None
      else map_option Some
        (decode_struct message_field v (case old of None \<Rightarrow> zero_message | Some m \<Rightarrow> m)))"

definition client_field :: "string \<Rightarrow> json \<Rightarrow> client_message \<Rightarrow> client_message option" where
  "client_field k v m =
     (if key_is k ''type'' then map_option (\<lambda>x. m\<lparr>c_type := x\<rparr>) (decode_string v (c_type m))
      else if key_is k ''topic'' then map_option (\<lambda>x. m\<lparr>c_topic := x\<rparr>) (decode_string v (c_topic m))
      else if key_is k ''client_id'' then map_option (\<lambda>x. m\<lparr>c_client_id := x\<rparr>) (decode_string v (c_client_id m))
      else if key_is k ''last_n'' then map_option (\<lambda>x. m\<lparr>c_last_n := x\<rparr>) (decode_int v (c_last_n m))
      else if key_is k ''request_id'' then map_option (\<lambda>x. m\<lparr>c_request_id := x\<rparr>) (decode_string v (c_request_id m))
      else if key_is k ''message'' then map_option (\<lambda>x. m\<lparr>c_message := x\<rparr>) (decode_message_ptr v (c_message m))
      else Some m)"

definition unmarshal_client_message :: "json \<Rightarrow> client_message option" where
  "unmarshal_client_message v = decode_struct client_field v zero_client_message"

definition create_request_field :: "string \<Rightarrow> json \<Rightarrow> create_topic_request \<Rightarrow> create_topic_request option" where
  "create_request_field k v m =
     (if key_is k ''name'' then map_option (\<lambda>x. m\<lparr>cr_name := x\<rparr>) (decode_string v (cr_name m))
      else Some m)"

definition unmarshal_create_request :: "json \<Rightarrow> create_topic_request option" where
  "unmarshal_create_request v = decode_struct create_request_field v \<lparr>cr_name = []\<rparr>"

definition marshal_error_info :: "error_info \<Rightarrow> json" where
  "marshal_error_info e = JObj [(''code'', JStr (e_code e)), (''message'', JStr (e_message e))]"

text \<open>What \<open>WriteJSON\<close> sends for a server message.\<close>

definition marshal_server_message :: "message server_message \<Rightarrow> go_error + json" where
  "marshal_server_message m =
     (case (case s_message m of None \<Rightarrow> Inr [] | Some x \<Rightarrow>
              (case marshal_message x of Inl e \<Rightarrow> Inl e | Inr j \<Rightarrow> Inr [(''message'', j)])) of
        Inl e \<Rightarrow> Inl e
      | Inr msg \<Rightarrow>
        (case marshal_time (s_ts m) of Inl e \<Rightarrow> Inl e
         | Inr ts \<Rightarrow> Inr (JObj (
             [(''type'', JStr (s_type m))] @
             omit_empty (s_topic m = []) ''topic'' (JStr (s_topic m)) @
             omit_empty (s_request_id m = []) ''request_id'' (JStr (s_request_id m)) @
             msg @
             (case s_error m of None \<Rightarrow> [] | Some e \<Rightarrow> [(''error'', marshal_error_info e)]) @
             [(''ts'', ts)] @
             omit_empty (s_info m = []) ''info'' (JStr (s_info m))))))"

definition marshal_topic_info :: "topic_info \<Rightarrow> json" where
  "marshal_topic_info i = JObj (
     [(''name'', JStr (ti_name i)), (''subscribers'', JNum (int (ti_subscribers i)))] @
     omit_empty (ti_message_count i = 0) ''message_count'' (JNum (sint (ti_message_count i))))"

definition marshal_stats :: "stats \<Rightarrow> json" where
  "marshal_stats s = JObj [(''total_topics'', JNum (int (st_total_topics s))),
     (''total_subscribers'', JNum (int (st_total_subscribers s))),
     (''topics'', JArr (map marshal_topic_info (st_topics s)))]"

definition marshal_health :: "health \<Rightarrow> json" where
  "marshal_health h = JObj [(''status'', JStr (h_status h)), (''uptime_sec'', JNum (h_uptime_sec h)),
     (''topics'', JNum (int (h_topics h))), (''subscribers'', JNum (int (h_subscribers h)))]"

definition marshal_create_response :: "create_topic_response \<Rightarrow> json" where
  "marshal_create_response r = JObj (
     [(''success'', JBool (cs_success r))] @
     omit_empty (cs_name r = []) ''name'' (JStr (cs_name r)) @
     omit_empty (cs_error r = []) ''error'' (JStr (cs_error r)))"

definition marshal_list_response :: "list_topics_response \<Rightarrow> json" where
  "marshal_list_response r = JObj [(''topics'', JArr (map marshal_topic_info (lt_topics r)))]"

section \<open>A stored message reads back\<close>

lemma key_is_consts [simp]:
  "key_is ''id'' ''id''" "key_is ''payload'' ''payload''" "key_is ''ts'' ''ts''"
  "\<not> key_is ''payload'' ''id''" "\<not> key_is ''ts'' ''id''" "\<not> key_is ''ts'' ''payload''"
  by (simp_all add: key_is_def lower_def)

lemma unmarshal_marshal_message:
  assumes "marshal_message m = Inr j"
  shows "unmarshal_message j = Some (m\<lparr>m_payload := norm_any (m_payload m)\<rparr>)"
proof -
  have y: "0 \<le> time_year (m_ts m)" "time_year (m_ts m) \<le> 9999"
    using assms by (auto simp: marshal_message_def marshal_time_def split: if_splits)
  then have "j = JObj [(''id'', JStr (m_id m)), (''payload'', norm_any (m_payload m)), (''ts'', JStr (fmt_time (m_ts m)))]"
    using assms by (simp add: marshal_message_def marshal_time_def)
  then show ?thesis
    by (simp add: unmarshal_message_def message_field_def decode_any_def norm_any_idem parse_time_fmt y zero_message_def)
qed

text \<open>
  C9: a message that \<open>json.Marshal\<close> writes is read back by \<open>json.Unmarshal\<close> with the same
  id and the same instant; its payload is the same up to the form in which Go decodes any
  object (members sorted, the last of equal keys), and a second round trip changes nothing.
\<close>

theorem message_roundtrip:
  assumes "marshal_message m = Inr j"
  shows "\<exists>m'. unmarshal_message j = Some m' \<and> m_id m' = m_id m \<and> m_ts m' = m_ts m \<and>
    m_payload m' = norm_any (m_payload m) \<and> marshal_message m' = Inr j"
  using unmarshal_marshal_message [OF assms] assms by (auto simp: marshal_message_def norm_any_idem split: sum.splits)

theorem message_roundtrip_witness:
  "\<exists>j m'. marshal_message (zero_message\<lparr>m_id := ''a'', m_ts := 0\<rparr>) = Inr j \<and> unmarshal_message j = Some m' \<and> m_id m' = ''a''"
proof -
  have "marshal_message (zero_message\<lparr>m_id := ''a'', m_ts := 0\<rparr>) = Inr (JObj [(''id'', JStr ''a''), (''payload'', JNull), (''ts'', JStr (fmt_time 0))])"
    by (simp add: marshal_message_def marshal_time_def zero_message_def time_year_def civil_from_days_def year_day_def Let_def)
  from this message_roundtrip [OF this] show ?thesis by auto
qed

end
