(* ===== verification/Subscriber.thy ===== *)
theory Subscriber
  imports Model
begin

text \<open>
  \<^verbatim>\<open>internal/broker/subscriber.go\<close>: one connected client, its bounded message queue and the
  goroutine that writes the queue to the WebSocket. The connection is gorilla's
  \<open>*websocket.Conn\<close>, which is not in the repository: the model keeps the calls made on it,
  oldest first, and takes what \<open>WriteJSON\<close> returns from a parameter, a function of the
  client, of the calls so far and of the message, so every behaviour of the library is
  covered. A panic (a send to, or the closing of, a closed channel) is \<open>None\<close>.
  The mutexes are left out here: each method is taken as a whole.
\<close>

datatype conn_call = SetReadDeadline time | SetWriteDeadline time
  | WriteJSON "message server_message" | CloseConn

type_synonym ws_write = "string \<Rightarrow> conn_call list \<Rightarrow> message server_message \<Rightarrow> go_error option"

record subscriber =
  clientID :: string
  WebsocketConnection :: "conn_call list"
  messageQueue :: "nat server_message chan"
  isClosedFlag :: bool
  subscribedTopics :: "(string, bool) gomap"

definition NewSubscriber :: "string \<Rightarrow> conn_call list \<Rightarrow> nat \<Rightarrow> subscriber" where
  "NewSubscriber cid websocketConn queueSize =
     \<lparr>clientID = cid, WebsocketConnection = websocketConn, messageQueue = make_chan queueSize,
      isClosedFlag = False, subscribedTopics = []\<rparr>"

definition conn_do :: "conn_call list \<Rightarrow> subscriber \<Rightarrow> subscriber" where
  [go_defs]: "conn_do cs s = s\<lparr>WebsocketConnection := WebsocketConnection s @ cs\<rparr>"

section \<open>Closing\<close>

definition Subscriber_Close :: "subscriber \<Rightarrow> subscriber option" where
  "Subscriber_Close s =
     (if isClosedFlag s then Some s
      else do {
        let s = conn_do [CloseConn] s;
        q \<leftarrow> chan_close (messageQueue s);
        Some (s\<lparr>messageQueue := q, isClosedFlag := True\<rparr>)
      })"

text \<open>The error a slow consumer is sent, with no pointer in it.\<close>

definition slow_consumer_message :: "time \<Rightarrow> 'p server_message" where
  "slow_consumer_message t = zero_server_message\<lparr>s_type := ''error'',
     s_error := Some \<lparr>e_code = ErrorCodeSlowConsumer,
                      e_message = ''Client consuming messages too slowly, disconnecting''\<rparr>,
     s_ts := t\<rparr>"

definition Subscriber_HandleSlowConsumer :: "time \<Rightarrow> subscriber \<Rightarrow> subscriber option" where
  "Subscriber_HandleSlowConsumer t s =
     (if isClosedFlag s then Some s
      else do {
        let s = conn_do [SetWriteDeadline (t + 1 * second), WriteJSON (slow_consumer_message t),
                         CloseConn] s;
        q \<leftarrow> chan_close (messageQueue s);
        Some (s\<lparr>messageQueue := q, isClosedFlag := True\<rparr>)
      })"

section \<open>Sending and writing\<close>

definition Subscriber_SendMessage :: "time \<Rightarrow> nat server_message \<Rightarrow> subscriber \<Rightarrow> (bool \<times> subscriber) option" where
  "Subscriber_SendMessage t m s =
     (if isClosedFlag s then Some (False, s)
      else case chan_try_send (messageQueue s) m of
             Sent q \<Rightarrow> Some (True, s\<lparr>messageQueue := q\<rparr>)
           | Default \<Rightarrow> do { s \<leftarrow> Subscriber_HandleSlowConsumer t s; Some (False, s) }
           | SendPanic \<Rightarrow> None)"

text \<open>One turn of the loop of \<open>writeLoop\<close>, and the loop run until it waits or ends.\<close>

datatype loop_status = Running | Waiting | Terminated

definition writeLoop_turn :: "ws_write \<Rightarrow> time \<Rightarrow> message list \<Rightarrow> subscriber \<Rightarrow> (loop_status \<times> subscriber) option" where
  "writeLoop_turn W t cells s =
     (case chan_recv (messageQueue s) of
        Blocked \<Rightarrow> Some (Waiting, s)
      | Drained \<Rightarrow> Some (Terminated, conn_do [CloseConn] s)
      | Received m q \<Rightarrow>
          (let s1 = conn_do [SetWriteDeadline (t + 10 * second)] (s\<lparr>messageQueue := q\<rparr>);
               frame = deref cells m;
               err = W (clientID s1) (WebsocketConnection s1) frame;
               s2 = conn_do [WriteJSON frame] s1
           in case err of
                None \<Rightarrow> Some (Running, s2)
              | Some _ \<Rightarrow> do { s3 \<leftarrow> Subscriber_Close s2; Some (Terminated, conn_do [CloseConn] s3) }))"

function writeLoop :: "ws_write \<Rightarrow> time \<Rightarrow> message list \<Rightarrow> subscriber \<Rightarrow> (loop_status \<times> subscriber) option" where
  "writeLoop W t cells s =
     (case writeLoop_turn W t cells s of
        Some (Running, s') \<Rightarrow> writeLoop W t cells s'
      | r \<Rightarrow> r)"
  by pat_completeness auto
termination
  by (relation "measure (\<lambda>(W, t, cells, s). length (chan_buf (messageQueue s)))")
    (auto simp: writeLoop_turn_def Let_def conn_do_def dest!: ch.recv_ReceivedD
      split: range_recv.splits option.splits bind_splits)

declare writeLoop.simps [simp del]

section \<open>The other methods\<close>

definition Subscriber_IsClosed :: "subscriber \<Rightarrow> bool" where
  "Subscriber_IsClosed s = isClosedFlag s"

definition Subscriber_GetClientID :: "subscriber \<Rightarrow> string" where
  [simp]: "Subscriber_GetClientID s = clientID s"

definition Subscriber_AddTopic :: "string \<Rightarrow> subscriber \<Rightarrow> subscriber" where
  "Subscriber_AddTopic n s = s\<lparr>subscribedTopics := gm_put n True (subscribedTopics s)\<rparr>"

definition Subscriber_RemoveTopic :: "string \<Rightarrow> subscriber \<Rightarrow> subscriber" where
  "Subscriber_RemoveTopic n s = s\<lparr>subscribedTopics := gm_del n (subscribedTopics s)\<rparr>"

definition Subscriber_GetSubscribedTopicCount :: "subscriber \<Rightarrow> nat" where
  "Subscriber_GetSubscribedTopicCount s = length (subscribedTopics s)"

definition Subscriber_GetSubscribedTopics :: "subscriber \<Rightarrow> string list" where
  "Subscriber_GetSubscribedTopics s = gm_keys (subscribedTopics s)"

section \<open>The invariant\<close>

text \<open>
  Between method calls the flag says whether the channel is closed, the queue is within
  its capacity, and the connection of a closed subscriber has been closed.
\<close>

definition sub_ok :: "subscriber \<Rightarrow> bool" where
  "sub_ok s \<longleftrightarrow> isClosedFlag s = chan_closed (messageQueue s) \<and>
     length (chan_buf (messageQueue s)) \<le> chan_cap (messageQueue s) \<and>
     (isClosedFlag s \<longrightarrow> CloseConn \<in> set (WebsocketConnection s)) \<and>
     gm_ok (subscribedTopics s)"

definition queue_of :: "subscriber \<Rightarrow> nat server_message list" where
  [simp]: "queue_of s = chan_buf (messageQueue s)"

text \<open>What no method changes: who the subscriber is and how long its queue may grow.\<close>

definition same_client :: "subscriber \<Rightarrow> subscriber \<Rightarrow> bool" where
  "same_client s s' \<longleftrightarrow> clientID s' = clientID s \<and> chan_cap (messageQueue s') = chan_cap (messageQueue s)"

lemma same_client_refl [simp]: "same_client s s"
  by (simp add: same_client_def)

lemma same_client_trans: "same_client s s' \<Longrightarrow> same_client s' s'' \<Longrightarrow> same_client s s''"
  by (simp add: same_client_def)

lemma sub_ok_new [simp]: "sub_ok (NewSubscriber c conn n)"
  by (simp add: sub_ok_def NewSubscriber_def make_chan_def)

lemma chan_close_open: "\<not> chan_closed q \<Longrightarrow> chan_close q = Some (q\<lparr>chan_closed := True\<rparr>)"
  by (simp add: chan_close_def)

lemma Close_eq:
  "sub_ok s \<Longrightarrow> Subscriber_Close s = Some (if isClosedFlag s then s
     else s\<lparr>WebsocketConnection := WebsocketConnection s @ [CloseConn],
            messageQueue := (messageQueue s)\<lparr>chan_closed := True\<rparr>, isClosedFlag := True\<rparr>)"
  by (simp add: Subscriber_Close_def conn_do_def sub_ok_def chan_close_open)

lemma HandleSlowConsumer_eq:
  "sub_ok s \<Longrightarrow> Subscriber_HandleSlowConsumer t s = Some (if isClosedFlag s then s
     else s\<lparr>WebsocketConnection := WebsocketConnection s @
              [SetWriteDeadline (t + 1 * second), WriteJSON (slow_consumer_message t), CloseConn],
            messageQueue := (messageQueue s)\<lparr>chan_closed := True\<rparr>, isClosedFlag := True\<rparr>)"
  by (simp add: Subscriber_HandleSlowConsumer_def conn_do_def sub_ok_def chan_close_open)

text \<open>The outcome of a send, as a function of the subscriber.\<close>

definition has_room :: "subscriber \<Rightarrow> bool" where
  "has_room s \<longleftrightarrow> \<not> isClosedFlag s \<and> length (queue_of s) < chan_cap (messageQueue s)"

definition after_send :: "time \<Rightarrow> nat server_message \<Rightarrow> subscriber \<Rightarrow> subscriber" where
  "after_send t m s =
     (if isClosedFlag s then s
      else if has_room s then s\<lparr>messageQueue := (messageQueue s)\<lparr>chan_buf := queue_of s @ [m]\<rparr>\<rparr>
      else s\<lparr>WebsocketConnection := WebsocketConnection s @
              [SetWriteDeadline (t + 1 * second), WriteJSON (slow_consumer_message t), CloseConn],
            messageQueue := (messageQueue s)\<lparr>chan_closed := True\<rparr>, isClosedFlag := True\<rparr>)"

lemma SendMessage_eq: "sub_ok s \<Longrightarrow> Subscriber_SendMessage t m s = Some (has_room s, after_send t m s)"
  by (auto simp: Subscriber_SendMessage_def after_send_def has_room_def HandleSlowConsumer_eq
      chan_try_send_def sub_ok_def)

lemma after_send_ok [simp]: "sub_ok s \<Longrightarrow> sub_ok (after_send t m s)"
  by (auto simp: after_send_def sub_ok_def has_room_def)

lemma after_send_frame [frame]:
  "clientID (after_send t m s) = clientID s"
  "subscribedTopics (after_send t m s) = subscribedTopics s"
  "chan_cap (messageQueue (after_send t m s)) = chan_cap (messageQueue s)"
  by (simp_all add: after_send_def)

lemma AddTopic_frame [frame]:
  "clientID (Subscriber_AddTopic n s) = clientID s"
  "messageQueue (Subscriber_AddTopic n s) = messageQueue s"
  "isClosedFlag (Subscriber_AddTopic n s) = isClosedFlag s"
  "WebsocketConnection (Subscriber_AddTopic n s) = WebsocketConnection s"
  "subscribedTopics (Subscriber_AddTopic n s) = gm_put n True (subscribedTopics s)"
  by (simp_all add: Subscriber_AddTopic_def)

lemma RemoveTopic_frame [frame]:
  "clientID (Subscriber_RemoveTopic n s) = clientID s"
  "messageQueue (Subscriber_RemoveTopic n s) = messageQueue s"
  "isClosedFlag (Subscriber_RemoveTopic n s) = isClosedFlag s"
  "WebsocketConnection (Subscriber_RemoveTopic n s) = WebsocketConnection s"
  "subscribedTopics (Subscriber_RemoveTopic n s) = gm_del n (subscribedTopics s)"
  by (simp_all add: Subscriber_RemoveTopic_def)

lemma sub_ok_topics [simp]:
  "sub_ok s \<Longrightarrow> sub_ok (Subscriber_AddTopic n s)" "sub_ok s \<Longrightarrow> sub_ok (Subscriber_RemoveTopic n s)"
  by (simp_all add: sub_ok_def frame)

section \<open>The write loop\<close>

lemma chan_recv_cases:
  "chan_recv q = (case chan_buf q of x # xs \<Rightarrow> Received x (q\<lparr>chan_buf := xs\<rparr>)
     | [] \<Rightarrow> if chan_closed q then Drained else Blocked)"
  by (simp add: chan_recv_def)

definition written :: "time \<Rightarrow> message list \<Rightarrow> nat server_message \<Rightarrow> conn_call list" where
  "written t cells m = [SetWriteDeadline (t + 10 * second), WriteJSON (deref cells m)]"

text \<open>The subscriber after a message has been taken from the queue and handed to the connection.\<close>

definition turn_write :: "time \<Rightarrow> message list \<Rightarrow> nat server_message \<Rightarrow> nat server_message list \<Rightarrow> subscriber \<Rightarrow> subscriber" where
  "turn_write t cells m ms s = s\<lparr>messageQueue := (messageQueue s)\<lparr>chan_buf := ms\<rparr>,
     WebsocketConnection := WebsocketConnection s @ written t cells m\<rparr>"

lemma turn_cons:
  assumes "chan_buf (messageQueue s) = m # ms"
  shows "writeLoop_turn W t cells s =
    (case W (clientID s) (WebsocketConnection s @ [SetWriteDeadline (t + 10 * second)]) (deref cells m) of
       None \<Rightarrow> Some (Running, turn_write t cells m ms s)
     | Some _ \<Rightarrow> do { s3 \<leftarrow> Subscriber_Close (turn_write t cells m ms s); Some (Terminated, conn_do [CloseConn] s3) })"
  using assms by (simp add: writeLoop_turn_def chan_recv_cases Let_def conn_do_def turn_write_def written_def
      split: option.split)

lemma turn_write_ok:
  assumes "sub_ok s" "chan_buf (messageQueue s) = m # ms"
  shows "sub_ok (turn_write t cells m ms s) \<and> same_client s (turn_write t cells m ms s) \<and>
    subscribedTopics (turn_write t cells m ms s) = subscribedTopics s"
  using assms by (auto simp: turn_write_def sub_ok_def same_client_def)

lemma turn_ok:
  assumes "sub_ok s"
  shows "\<exists>st s'. writeLoop_turn W t cells s = Some (st, s') \<and> sub_ok s' \<and> same_client s s' \<and>
     subscribedTopics s' = subscribedTopics s \<and>
     (st = Waiting \<longrightarrow> \<not> isClosedFlag s' \<and> queue_of s' = []) \<and> (st = Terminated \<longrightarrow> isClosedFlag s')"
proof (cases "chan_buf (messageQueue s)")
  case Nil
  then show ?thesis using assms
    by (auto simp: writeLoop_turn_def chan_recv_cases sub_ok_def conn_do_def same_client_def)
next
  case (Cons m ms)
  let ?e = "W (clientID s) (WebsocketConnection s @ [SetWriteDeadline (t + 10 * second)]) (deref cells m)"
  obtain s3 where s3: "Subscriber_Close (turn_write t cells m ms s) = Some s3" "sub_ok s3" "isClosedFlag s3"
    "same_client s s3" "subscribedTopics s3 = subscribedTopics s"
    using turn_write_ok [OF assms Cons, of t cells] by (auto simp: Close_eq sub_ok_def same_client_def)
  then have 3: "sub_ok (conn_do [CloseConn] s3)" "same_client s (conn_do [CloseConn] s3)"
    by (auto simp: sub_ok_def same_client_def conn_do_def)
  show ?thesis
  proof (cases ?e)
    case None
    then show ?thesis using turn_write_ok [OF assms Cons, of t cells] by (simp add: turn_cons [OF Cons])
  next
    case (Some e)
    then show ?thesis using s3 3 by (auto simp: turn_cons [OF Cons] conn_do_def)
  qed
qed

lemma turn_refs:
  assumes "sub_ok s" "writeLoop_turn W t cs s = Some (st, s')"
  shows "set (queue_of s') \<subseteq> set (queue_of s) \<and> (isClosedFlag s \<longrightarrow> isClosedFlag s')"
proof (cases "chan_buf (messageQueue s)")
  case Nil
  then show ?thesis using assms by (auto simp: writeLoop_turn_def chan_recv_cases conn_do_def split: if_splits)
next
  case (Cons m ms)
  then have "sub_ok (turn_write t cs m ms s)" using turn_write_ok [OF assms(1) Cons] by blast
  from Close_eq [OF this] show ?thesis
    using assms(2) Cons by (auto simp: turn_cons [OF Cons] turn_write_def conn_do_def split: option.splits if_splits)
qed

lemma turn_shrinks:
  "writeLoop_turn W t cells s = Some (Running, s') \<Longrightarrow> length (queue_of s') < length (queue_of s)"
  by (auto simp: writeLoop_turn_def Let_def conn_do_def dest!: ch.recv_ReceivedD
      split: range_recv.splits option.splits bind_splits)

text \<open>
  C8: the write loop never panics and ends its run for every behaviour of the connection:
  it either waits with the queue empty and the subscriber open, or it has ended and the
  subscriber is closed; the subscriber's invariant and its topics are kept.
\<close>

theorem writeLoop_total:
  assumes "sub_ok s"
  shows "\<exists>st s'. writeLoop W t cells s = Some (st, s') \<and> sub_ok s' \<and> same_client s s' \<and>
     subscribedTopics s' = subscribedTopics s \<and>
     (st = Waiting \<and> \<not> isClosedFlag s' \<and> queue_of s' = [] \<or> st = Terminated \<and> isClosedFlag s')"
  using assms
proof (induction "length (queue_of s)" arbitrary: s rule: less_induct)
  case less
  obtain st s1 where turn: "writeLoop_turn W t cells s = Some (st, s1)" and s1: "sub_ok s1" "same_client s s1"
    "subscribedTopics s1 = subscribedTopics s"
    "st = Waiting \<longrightarrow> \<not> isClosedFlag s1 \<and> queue_of s1 = []" "st = Terminated \<longrightarrow> isClosedFlag s1"
    using turn_ok [OF less.prems] by blast
  show ?case
  proof (cases st)
    case Running
    with turn have "length (queue_of s1) < length (queue_of s)" by (blast intro: turn_shrinks)
    from less.hyps [OF this s1(1)] show ?thesis
      using turn Running s1(2,3) by (subst writeLoop.simps) (fastforce intro: same_client_trans)
  qed (use turn s1 in \<open>subst writeLoop.simps, simp\<close>)+
qed

theorem writeLoop_total_witness:
  "\<exists>st s'. writeLoop (\<lambda>c h f. Some ''broken pipe'') 0 [] (NewSubscriber ''a'' [] 100) = Some (st, s') \<and>
     sub_ok s' \<and> same_client (NewSubscriber ''a'' [] 100) s' \<and>
     subscribedTopics s' = subscribedTopics (NewSubscriber ''a'' [] 100) \<and>
     (st = Waiting \<and> \<not> isClosedFlag s' \<and> queue_of s' = [] \<or> st = Terminated \<and> isClosedFlag s')"
  by (rule writeLoop_total [OF sub_ok_new])

lemma chan_buf_upd_same: "chan_buf q = [] \<Longrightarrow> q\<lparr>chan_buf := []\<rparr> = q"
  by (cases q) simp

lemma writeLoop_all:
  assumes "\<And>h f. W (clientID s) h f = None"
  shows "writeLoop W t cells s = Some
     (if chan_closed (messageQueue s) then Terminated else Waiting,
      s\<lparr>messageQueue := (messageQueue s)\<lparr>chan_buf := []\<rparr>,
        WebsocketConnection := WebsocketConnection s @ concat (map (written t cells) (queue_of s)) @
          (if chan_closed (messageQueue s) then [CloseConn] else [])\<rparr>)"
  using assms
proof (induction "queue_of s" arbitrary: s)
  case Nil
  then show ?case
    by (subst writeLoop.simps)
      (simp add: writeLoop_turn_def chan_recv_cases conn_do_def chan_buf_upd_same)
next
  case (Cons m ms)
  let ?s1 = "s\<lparr>messageQueue := (messageQueue s)\<lparr>chan_buf := ms\<rparr>,
      WebsocketConnection := WebsocketConnection s @ written t cells m\<rparr>"
  have buf: "chan_buf (messageQueue s) = m # ms" using Cons.hyps(2) by simp
  have "writeLoop_turn W t cells s = Some (Running, ?s1)"
    by (simp add: turn_cons [OF buf] turn_write_def Cons.prems)
  moreover have "ms = queue_of ?s1" "W (clientID ?s1) h f = None" for h f using Cons.prems by simp_all
  note Cons.hyps(1) [OF this]
  ultimately show ?case
    by (subst writeLoop.simps) (simp add: buf)
qed

text \<open>
  C7: while no write fails, the write loop writes every queued message once, in the order
  of the queue, with the content its pointer has at that moment and ten seconds to do it;
  it then waits, or, if the queue has been closed, closes the connection and ends.
\<close>

theorem writeLoop_drains:
  assumes "\<And>c h f. W c h f = None"
  shows "writeLoop W t cells s = Some
     (if chan_closed (messageQueue s) then Terminated else Waiting,
      s\<lparr>messageQueue := (messageQueue s)\<lparr>chan_buf := []\<rparr>,
        WebsocketConnection := WebsocketConnection s @ concat (map (written t cells) (queue_of s)) @
          (if chan_closed (messageQueue s) then [CloseConn] else [])\<rparr>)"
  by (rule writeLoop_all) (rule assms)

theorem writeLoop_drains_witness:
  "fst (the (writeLoop (\<lambda>c h f. None) 0 [] (NewSubscriber ''a'' [] 1))) = Waiting"
  by (simp add: writeLoop_drains [where W = "\<lambda>c h f. None"] NewSubscriber_def make_chan_def)

end
