(* ===== verification/Topic.thy ===== *)
theory Topic
  imports Subscriber
begin

text \<open>
  \<^verbatim>\<open>internal/broker/topic.go\<close>: a topic with its subscribers and its message count, and the
  store of the objects that components share by pointer: messages and subscribers. A
  \<open>*Subscriber\<close> and a \<open>*Message\<close> are indices into the store. Methods of a topic take the
  topic and the store and return both. Clock readings within one method agree. Log lines
  are left out.
\<close>

record store =
  clock :: time
  cells :: "message list"
  subs :: "subscriber list"

record topic =
  topicName :: string
  subscribers :: "(string, nat) gomap"
  totalMessageCount :: "64 word"
  maxSubscribers :: int

definition NewTopic :: "string \<Rightarrow> int \<Rightarrow> int \<Rightarrow> topic" where
  "NewTopic n replayBufferSize maxSubscribersPerTopic =
     \<lparr>topicName = n, subscribers = [], totalMessageCount = 0, maxSubscribers = maxSubscribersPerTopic\<rparr>"

definition Topic_GetTopicName :: "topic \<Rightarrow> string" where
  "Topic_GetTopicName t = topicName t"

definition sub_update :: "nat \<Rightarrow> (subscriber \<Rightarrow> subscriber) \<Rightarrow> 'a store_scheme \<Rightarrow> 'a store_scheme" where
  [go_defs]: "sub_update r f w = w\<lparr>subs := (subs w)[r := f (subs w ! r)]\<rparr>"

section \<open>Subscribing\<close>

definition Topic_AddSubscriber :: "nat \<Rightarrow> topic \<Rightarrow> 'a store_scheme \<Rightarrow> go_error option \<times> topic \<times> 'a store_scheme" where
  "Topic_AddSubscriber r t w =
     (let cid = Subscriber_GetClientID (subs w ! r) in
      if gm_get (subscribers t) cid \<noteq> None then (None, t, w)
      else if int (length (subscribers t)) \<ge> maxSubscribers t then (Some ErrorCodeMaxSubscribers, t, w)
      else (None, t\<lparr>subscribers := gm_put cid r (subscribers t)\<rparr>,
            sub_update r (Subscriber_AddTopic (topicName t)) w))"

definition Topic_RemoveSubscriber :: "string \<Rightarrow> topic \<Rightarrow> 'a store_scheme \<Rightarrow> topic \<times> 'a store_scheme" where
  "Topic_RemoveSubscriber cid t w =
     (case gm_get (subscribers t) cid of
        Some r \<Rightarrow> (t\<lparr>subscribers := gm_del cid (subscribers t)\<rparr>,
                   sub_update r (Subscriber_RemoveTopic (topicName t)) w)
      | None \<Rightarrow> (t, w))"

definition Topic_GetSubscriberCount :: "topic \<Rightarrow> nat" where
  "Topic_GetSubscriberCount t = length (subscribers t)"

section \<open>Publishing\<close>

definition deliver :: "time \<Rightarrow> nat server_message \<Rightarrow> subscriber \<Rightarrow> (nat \<times> subscriber) option" where
  "deliver t m s = do {
     (success, s) \<leftarrow> Subscriber_SendMessage t m s;
     Some (if success then 0 else 1, s)
   }"

text \<open>The parameter \<open>message\<close> escapes into \<open>MessageData: &message\<close>: a new cell of the store.\<close>

definition Topic_PublishMessage :: "message \<Rightarrow> topic \<Rightarrow> 'a store_scheme \<Rightarrow> (nat \<times> topic \<times> 'a store_scheme) option" where
  "Topic_PublishMessage message t w =
     (let t1 = t\<lparr>totalMessageCount := totalMessageCount t + 1\<rparr>;
          (p, cells1) = alloc message (cells w);
          serverMessage = zero_server_message\<lparr>s_type := ''message'', s_topic := topicName t,
            s_message := Some p, s_ts := clock w\<rparr>;
          subscribersList = gm_vals (subscribers t)
      in do {
        (slowConsumerCount, subs1) \<leftarrow> store_loop (deliver (clock w) serverMessage) subscribersList (subs w);
        Some (slowConsumerCount, t1, w\<lparr>cells := cells1, subs := subs1\<rparr>)
      })"

definition Topic_GetTotalMessageCount :: "topic \<Rightarrow> 64 word" where
  "Topic_GetTotalMessageCount t = totalMessageCount t"

section \<open>Deletion\<close>

definition notify_deleted :: "time \<Rightarrow> nat server_message \<Rightarrow> string \<Rightarrow> subscriber \<Rightarrow> (nat \<times> subscriber) option" where
  "notify_deleted t m n s = do {
     (_, s) \<leftarrow> Subscriber_SendMessage t m s;
     Some (0, Subscriber_RemoveTopic n s)
   }"

definition deleted_message :: "string \<Rightarrow> time \<Rightarrow> nat server_message" where
  "deleted_message n t = zero_server_message\<lparr>s_type := ''info'', s_topic := n,
     s_info := ''topic_deleted'', s_ts := t\<rparr>"

definition Topic_CloseAllSubscribers :: "topic \<Rightarrow> 'a store_scheme \<Rightarrow> (topic \<times> 'a store_scheme) option" where
  "Topic_CloseAllSubscribers t w =
     (let infoMessage = deleted_message (topicName t) (clock w)
      in do {
        (_, subs1) \<leftarrow> store_loop (notify_deleted (clock w) infoMessage (topicName t))
                       (gm_vals (subscribers t)) (subs w);
        Some (t\<lparr>subscribers := []\<rparr>, w\<lparr>subs := subs1\<rparr>)
      })"

definition Topic_GetSubscribersList :: "topic \<Rightarrow> string list" where
  "Topic_GetSubscribersList t = gm_keys (subscribers t)"

definition Topic_GetTopicInfo :: "topic \<Rightarrow> topic_info" where
  "Topic_GetTopicInfo t =
     \<lparr>ti_name = topicName t, ti_subscribers = Topic_GetSubscriberCount t,
      ti_message_count = Topic_GetTotalMessageCount t\<rparr>"

definition Topic_String :: "topic \<Rightarrow> string" where
  "Topic_String t = ''Topic{name='' @ topicName t @ '', subscribers='' @
     itoa (int (Topic_GetSubscriberCount t)) @ '', messages='' @ itoa (sint (Topic_GetTotalMessageCount t)) @ ''}''"

section \<open>Invariants\<close>

text \<open>
  A subscriber in the store is well-formed, and what its queue points to exists. A topic's
  map sends a client id to the subscriber with this id.
\<close>

definition queue_refs_ok :: "message list \<Rightarrow> subscriber \<Rightarrow> bool" where
  "queue_refs_ok cs s \<longleftrightarrow> (\<forall>m \<in> set (queue_of s). \<forall>p. s_message m = Some p \<longrightarrow> p < length cs)"

definition store_ok :: "'a store_scheme \<Rightarrow> bool" where
  "store_ok w \<longleftrightarrow> (\<forall>s \<in> set (subs w). sub_ok s \<and> queue_refs_ok (cells w) s)"

definition topic_ok :: "subscriber list \<Rightarrow> topic \<Rightarrow> bool" where
  "topic_ok ss t \<longleftrightarrow> gm_ok (subscribers t) \<and>
     (\<forall>k r. gm_get (subscribers t) k = Some r \<longrightarrow> r < length ss \<and> clientID (ss ! r) = k) \<and>
     0 \<le> maxSubscribers t \<and> int (length (subscribers t)) \<le> maxSubscribers t"

definition members :: "topic \<Rightarrow> nat set" where
  "members t = set (gm_vals (subscribers t))"

lemma members_get: "gm_ok (subscribers t) \<Longrightarrow> r \<in> members t \<longleftrightarrow> (\<exists>k. gm_get (subscribers t) k = Some r)"
  by (auto simp: members_def gm_vals_def gm_get_iff image_iff Bex_def)

lemma members_iff:
  assumes "topic_ok ss t"
  shows "r \<in> members t \<longleftrightarrow> r < length ss \<and> gm_get (subscribers t) (clientID (ss ! r)) = Some r"
  using assms by (auto simp: topic_ok_def members_get)

lemma members_lt: "topic_ok ss t \<Longrightarrow> r \<in> members t \<Longrightarrow> r < length ss"
  by (simp add: members_iff)

lemma distinct_vals:
  assumes "topic_ok ss t"
  shows "distinct (gm_vals (subscribers t))"
proof -
  have "inj_on snd (set (subscribers t))"
  proof (rule inj_onI)
    fix a b assume ab: "a \<in> set (subscribers t)" "b \<in> set (subscribers t)" "snd a = snd b"
    have "fst x = clientID (ss ! snd x)" if "x \<in> set (subscribers t)" for x
      using assms that by (cases x) (auto simp: topic_ok_def gm_get_iff)
    then show "a = b" using ab by (auto simp: prod_eq_iff)
  qed
  moreover have "distinct (subscribers t)" using assms by (auto simp: topic_ok_def gm_ok_def distinct_map)
  ultimately show ?thesis by (simp add: gm_vals_def distinct_map)
qed

lemma card_members: "topic_ok ss t \<Longrightarrow> card (members t) = length (subscribers t)"
  unfolding members_def by (subst distinct_card [OF distinct_vals]) (auto simp: gm_vals_def)

lemma deliver_eq: "sub_ok s \<Longrightarrow> deliver t m s = Some (if has_room s then 0 else 1, after_send t m s)"
  by (simp add: deliver_def SendMessage_eq)

lemma notify_eq: "sub_ok s \<Longrightarrow> notify_deleted t m n s = Some (0, Subscriber_RemoveTopic n (after_send t m s))"
  by (simp add: notify_deleted_def SendMessage_eq)

interpretation fanout: store_body "deliver t m" sub_ok "\<lambda>s. if has_room s then 0 else 1" "after_send t m" for t m
  by unfold_locales (simp_all add: deliver_eq)

interpretation closing: store_body "notify_deleted t m n" sub_ok "\<lambda>s. 0"
    "\<lambda>s. Subscriber_RemoveTopic n (after_send t m s)" for t m n
  by unfold_locales (simp_all add: notify_eq)

lemma store_ok_nth: "store_ok w \<Longrightarrow> r < length (subs w) \<Longrightarrow> sub_ok (subs w ! r) \<and> queue_refs_ok (cells w) (subs w ! r)"
  by (simp add: store_ok_def)

text \<open>The message a publication puts in the queues: it names the new cell.\<close>

definition publication :: "topic \<Rightarrow> 'a store_scheme \<Rightarrow> nat server_message" where
  "publication t w = zero_server_message\<lparr>s_type := ''message'', s_topic := topicName t,
     s_message := Some (length (cells w)), s_ts := clock w\<rparr>"

definition slow_members :: "topic \<Rightarrow> 'a store_scheme \<Rightarrow> nat set" where
  "slow_members t w = {r \<in> members t. \<not> has_room (subs w ! r)}"

lemma PublishMessage_eq:
  assumes "store_ok w" "topic_ok (subs w) t"
  shows "Topic_PublishMessage m t w = Some (card (slow_members t w),
     t\<lparr>totalMessageCount := totalMessageCount t + 1\<rparr>,
     w\<lparr>cells := cells w @ [m], subs := upd_at (members t) (after_send (clock w) (publication t w)) (subs w)\<rparr>)"
proof -
  have ok: "r < length (subs w) \<and> sub_ok (subs w ! r)" if "r \<in> set (gm_vals (subscribers t))" for r
    using that assms members_lt [OF assms(2)] store_ok_nth [OF assms(1)] by (auto simp: members_def)
  have "(\<Sum>r \<in> set (gm_vals (subscribers t)). if has_room (subs w ! r) then 0 else 1) = card (slow_members t w)"
    unfolding slow_members_def members_def by (rule sum_if_card) simp
  with fanout.loop_eq [OF distinct_vals [OF assms(2)] ok] show ?thesis
    by (simp add: Topic_PublishMessage_def alloc_def publication_def [symmetric] members_def Let_def)
qed

lemma CloseAll_eq:
  assumes "store_ok w" "topic_ok (subs w) t"
  shows "Topic_CloseAllSubscribers t w = Some (t\<lparr>subscribers := []\<rparr>,
     w\<lparr>subs := upd_at (members t)
        (\<lambda>s. Subscriber_RemoveTopic (topicName t) (after_send (clock w) (deleted_message (topicName t) (clock w)) s))
        (subs w)\<rparr>)"
proof -
  have ok: "r < length (subs w) \<and> sub_ok (subs w ! r)" if "r \<in> set (gm_vals (subscribers t))" for r
    using that assms members_lt [OF assms(2)] store_ok_nth [OF assms(1)] by (auto simp: members_def)
  from closing.loop_eq [OF distinct_vals [OF assms(2)] ok] show ?thesis
    by (simp add: Topic_CloseAllSubscribers_def members_def Let_def)
qed

end
