(* ===== verification/Shard.thy ===== *)
theory Shard
  imports Topic
begin

text \<open>
  \<^verbatim>\<open>internal/broker/shard.go\<close>: a shard of the broker, a map from topic names to topics.
  A \<open>*Topic\<close> is an index into the store of topics, which extends the store of messages
  and subscribers; a deleted topic stays in the store, as a goroutine may still hold it.
  The locale \<open>shard_router\<close> is the interface between the broker and its shards: what holds
  of several maps when a fixed function sends each key to one of them.
\<close>

record tstore = store +
  topics :: "topic list"

record shard =
  shardID :: nat
  topicsMap :: "(string, nat) gomap"
  replayBufferSize :: int
  maxSubscribersPerTopic :: int

record shard_statistics =
  ss_ShardID :: nat
  ss_TopicCount :: nat
  ss_SubscriberCount :: nat
  ss_TotalMessages :: "64 word"

definition NewShard :: "nat \<Rightarrow> int \<Rightarrow> int \<Rightarrow> shard" where
  "NewShard i bufferSize maxSubs =
     \<lparr>shardID = i, topicsMap = [], replayBufferSize = bufferSize, maxSubscribersPerTopic = maxSubs\<rparr>"

definition Shard_CreateTopic :: "string \<Rightarrow> shard \<Rightarrow> 'a tstore_scheme \<Rightarrow> go_error option \<times> shard \<times> 'a tstore_scheme" where
  "Shard_CreateTopic n sh w =
     (if gm_get (topicsMap sh) n \<noteq> None then (Some ''topic_already_exists'', sh, w)
      else let newTopic = NewTopic n (replayBufferSize sh) (maxSubscribersPerTopic sh);
               (p, topics1) = alloc newTopic (topics w)
           in (None, sh\<lparr>topicsMap := gm_put n p (topicsMap sh)\<rparr>, w\<lparr>topics := topics1\<rparr>))"

definition Shard_DeleteTopic :: "string \<Rightarrow> shard \<Rightarrow> 'a tstore_scheme \<Rightarrow> (go_error option \<times> shard \<times> 'a tstore_scheme) option" where
  "Shard_DeleteTopic n sh w =
     (case gm_get (topicsMap sh) n of
        None \<Rightarrow> Some (Some ''topic_not_found'', sh, w)
      | Some p \<Rightarrow> do {
          (t, w) \<leftarrow> Topic_CloseAllSubscribers (topics w ! p) w;
          Some (None, sh\<lparr>topicsMap := gm_del n (topicsMap sh)\<rparr>, w\<lparr>topics := (topics w)[p := t]\<rparr>)
        })"

definition Shard_GetTopic :: "string \<Rightarrow> shard \<Rightarrow> nat option" where
  "Shard_GetTopic n sh = gm_get (topicsMap sh) n"

definition Shard_TopicExists :: "string \<Rightarrow> shard \<Rightarrow> bool" where
  "Shard_TopicExists n sh \<longleftrightarrow> gm_get (topicsMap sh) n \<noteq> None"

definition Shard_GetTopicCount :: "shard \<Rightarrow> nat" where
  "Shard_GetTopicCount sh = length (topicsMap sh)"

definition Shard_GetAllTopicNames :: "shard \<Rightarrow> string list" where
  "Shard_GetAllTopicNames sh = gm_keys (topicsMap sh)"

definition Shard_GetAllTopics :: "shard \<Rightarrow> nat list" where
  "Shard_GetAllTopics sh = gm_vals (topicsMap sh)"

definition Shard_GetTotalSubscriberCount :: "'a tstore_scheme \<Rightarrow> shard \<Rightarrow> nat" where
  "Shard_GetTotalSubscriberCount w sh =
     foldl (\<lambda>total p. total + Topic_GetSubscriberCount (topics w ! p)) 0 (gm_vals (topicsMap sh))"

definition Shard_GetShardStatistics :: "'a tstore_scheme \<Rightarrow> shard \<Rightarrow> shard_statistics" where
  "Shard_GetShardStatistics w sh =
     (case foldl (\<lambda>(msgs, total) p. (msgs + Topic_GetTotalMessageCount (topics w ! p),
                                      total + Topic_GetSubscriberCount (topics w ! p)))
              (0, 0) (gm_vals (topicsMap sh)) of
        (totalMessages, totalSubscribers) \<Rightarrow>
          \<lparr>ss_ShardID = shardID sh, ss_TopicCount = length (topicsMap sh),
           ss_SubscriberCount = totalSubscribers, ss_TotalMessages = totalMessages\<rparr>)"

definition Shard_String :: "'a tstore_scheme \<Rightarrow> shard \<Rightarrow> string" where
  "Shard_String w sh =
     (let st = Shard_GetShardStatistics w sh in
      ''Shard{id='' @ itoa (int (ss_ShardID st)) @ '', topics='' @ itoa (int (ss_TopicCount st)) @
      '', subscribers='' @ itoa (int (ss_SubscriberCount st)) @ '', messages='' @
      itoa (sint (ss_TotalMessages st)) @ ''}'')"

lemma foldl_add_sum_list: "foldl (\<lambda>a x. a + f x) (a :: 'b :: comm_monoid_add) xs = a + sum_list (map f xs)"
  by (induction xs arbitrary: a) (simp_all add: add.assoc)

lemma TotalSubscriberCount_sum:
  "Shard_GetTotalSubscriberCount w sh = (\<Sum>p \<leftarrow> gm_vals (topicsMap sh). length (subscribers (topics w ! p)))"
  by (simp add: Shard_GetTotalSubscriberCount_def foldl_add_sum_list Topic_GetSubscriberCount_def)

lemma foldl_pair_sum:
  "foldl (\<lambda>(a, b) x. (a + f x, b + g x)) (a :: 'b :: comm_monoid_add, b :: 'c :: comm_monoid_add) xs =
   (a + sum_list (map f xs), b + sum_list (map g xs))"
  by (induction xs arbitrary: a b) (simp_all add: add.assoc)

lemma ShardStatistics_eq:
  "Shard_GetShardStatistics w sh = \<lparr>ss_ShardID = shardID sh, ss_TopicCount = length (topicsMap sh),
     ss_SubscriberCount = Shard_GetTotalSubscriberCount w sh,
     ss_TotalMessages = (\<Sum>p \<leftarrow> gm_vals (topicsMap sh). totalMessageCount (topics w ! p))\<rparr>"
  by (simp add: Shard_GetShardStatistics_def foldl_pair_sum TotalSubscriberCount_sum
      Topic_GetSubscriberCount_def Topic_GetTotalMessageCount_def)

section \<open>Maps split by a routing function\<close>

definition flat :: "('k \<Rightarrow> nat) \<Rightarrow> ('k, 'v) gomap list \<Rightarrow> 'k \<Rightarrow> 'v option" where
  "flat sel ms k = gm_get (ms ! sel k) k"

definition placed :: "('k \<Rightarrow> nat) \<Rightarrow> nat \<Rightarrow> ('k, 'v) gomap list \<Rightarrow> bool" where
  "placed sel n ms \<longleftrightarrow> length ms = n \<and>
     (\<forall>i < n. gm_ok (ms ! i) \<and> (\<forall>k v. gm_get (ms ! i) k = Some v \<longrightarrow> sel k = i))"

lemma distinct_concat_nth:
  "(\<And>i. i < length xss \<Longrightarrow> distinct (xss ! i)) \<Longrightarrow>
   (\<And>i j. i < j \<Longrightarrow> j < length xss \<Longrightarrow> set (xss ! i) \<inter> set (xss ! j) = {}) \<Longrightarrow> distinct (concat xss)"
proof (induction xss)
  case (Cons xs xss)
  have "distinct (concat xss)" using Cons.IH Cons.prems(1) [of "Suc _"] Cons.prems(2) [of "Suc _" "Suc _"] by simp
  moreover have "distinct xs" using Cons.prems(1) [of 0] by simp
  moreover have "set xs \<inter> set ys = {}" if "ys \<in> set xss" for ys
  proof -
    obtain j where "j < length xss" "ys = xss ! j" using \<open>ys \<in> set xss\<close> by (auto simp: in_set_conv_nth)
    then show ?thesis using Cons.prems(2) [of 0 "Suc j"] by simp
  qed
  ultimately show ?case by auto
qed simp

locale shard_router =
  fixes sel :: "'k \<Rightarrow> nat" and n :: nat
  assumes sel_lt: "sel k < n"
begin

lemma placed_put:
  assumes "placed sel n ms"
  shows "placed sel n (ms[sel k := gm_put k v (ms ! sel k)])"
  using assms sel_lt [of k] by (auto simp: placed_def nth_list_update)

lemma placed_del:
  assumes "placed sel n ms"
  shows "placed sel n (ms[sel k := gm_del k (ms ! sel k)])"
  using assms sel_lt [of k] by (auto simp: placed_def nth_list_update gm.ok_del gm.get_del)

lemma flat_put:
  assumes "placed sel n ms"
  shows "flat sel (ms[sel k := gm_put k v (ms ! sel k)]) = (flat sel ms)(k \<mapsto> v)"
  using assms sel_lt [of k] by (auto simp: placed_def flat_def fun_eq_iff nth_list_update)

lemma flat_del:
  assumes "placed sel n ms"
  shows "flat sel (ms[sel k := gm_del k (ms ! sel k)]) = (flat sel ms)(k := None)"
  using assms sel_lt [of k] by (auto simp: placed_def flat_def fun_eq_iff nth_list_update gm.get_del)

lemma flat_iff:
  assumes "placed sel n ms"
  shows "flat sel ms k = Some v \<longleftrightarrow> (k, v) \<in> set (concat ms)"
proof
  assume "flat sel ms k = Some v"
  then have "(k, v) \<in> set (ms ! sel k)" by (simp add: flat_def gm_get_SomeD)
  then show "(k, v) \<in> set (concat ms)" using assms sel_lt [of k] by (auto simp: placed_def)
next
  assume "(k, v) \<in> set (concat ms)"
  then obtain m where "m \<in> set ms" "(k, v) \<in> set m" by auto
  then obtain i where i: "i < n" "(k, v) \<in> set (ms ! i)" using assms by (auto simp: placed_def in_set_conv_nth [of m])
  then have "gm_get (ms ! i) k = Some v" using assms by (simp add: placed_def gm_get_iff)
  moreover from this have "sel k = i" using assms i(1) by (auto simp: placed_def)
  ultimately show "flat sel ms k = Some v" by (simp add: flat_def)
qed

lemma placed_sel: "placed sel n ms \<Longrightarrow> i < n \<Longrightarrow> (k, v) \<in> set (ms ! i) \<Longrightarrow> sel k = i"
  unfolding placed_def by (metis gm_get_iff)

lemma distinct_flat:
  assumes "placed sel n ms"
  shows "distinct (map fst (concat ms))"
proof -
  have "distinct (concat (map (map fst) ms))"
  proof (rule distinct_concat_nth)
    fix i assume "i < length (map (map fst) ms)"
    then show "distinct (map (map fst) ms ! i)" using assms by (simp add: placed_def gm_ok_def)
  next
    fix i j assume ij: "i < j" "j < length (map (map fst) ms)"
    then have "i < n" "j < n" using assms by (auto simp: placed_def)
    from placed_sel [OF assms this(1)] placed_sel [OF assms this(2)] ij
    show "set (map (map fst) ms ! i) \<inter> set (map (map fst) ms ! j) = {}" by fastforce
  qed
  then show ?thesis by (simp add: map_concat)
qed

lemma dom_flat: "placed sel n ms \<Longrightarrow> dom (flat sel ms) = set (map fst (concat ms))"
  by (auto simp: dom_def flat_iff image_iff simp del: set_concat) force+

lemma flat_count:
  assumes "placed sel n ms"
  shows "(\<Sum>m \<leftarrow> ms. length m) = card (dom (flat sel ms))"
  using distinct_card [OF distinct_flat [OF assms]] by (simp add: dom_flat [OF assms] length_concat)

lemma finite_flat: "placed sel n ms \<Longrightarrow> finite (dom (flat sel ms))"
  by (simp add: dom_flat)

end

end
