(* ===== verification/Storage.thy ===== *)
theory Storage
  imports Model
begin

text \<open>
  \<^verbatim>\<open>internal/storage/redis.go\<close>: the replay lists and the topic metadata in Redis. The Redis
  client (go-redis, not in the repository) is a parameter: a state \<open>'r\<close> and the commands the
  code calls on it, each with the error it may return. \<open>redis_list_laws\<close> states what Redis
  documents of LPUSH, LTRIM, LRANGE and EXPIRE; only the theorems that need it assume it.
  A value in Redis is either a JSON document or bytes that are not one.
\<close>

datatype blob = Doc json | Bytes string

datatype redis_value = RNil | RErr go_error | RVal blob

datatype redis_cmd = CmdDel string | CmdSRem string string

record 'r redis_api =
  rd_LPush :: "'r \<Rightarrow> string \<Rightarrow> blob \<Rightarrow> go_error option \<times> 'r"
  rd_LTrim :: "'r \<Rightarrow> string \<Rightarrow> int \<Rightarrow> int \<Rightarrow> go_error option \<times> 'r"
  rd_LRange :: "'r \<Rightarrow> string \<Rightarrow> int \<Rightarrow> int \<Rightarrow> go_error + blob list"
  rd_Expire :: "'r \<Rightarrow> string \<Rightarrow> time \<Rightarrow> 'r"
  rd_Set :: "'r \<Rightarrow> string \<Rightarrow> blob \<Rightarrow> time \<Rightarrow> go_error option \<times> 'r"
  rd_Get :: "'r \<Rightarrow> string \<Rightarrow> redis_value"
  rd_GetInt64 :: "'r \<Rightarrow> string \<Rightarrow> (go_error + int) option" \<comment> \<open>\<open>None\<close> is \<open>redis.Nil\<close>\<close>
  rd_Incr :: "'r \<Rightarrow> string \<Rightarrow> go_error option \<times> 'r"
  rd_SAdd :: "'r \<Rightarrow> string \<Rightarrow> string \<Rightarrow> 'r"
  rd_SMembers :: "'r \<Rightarrow> string \<Rightarrow> go_error + string list"
  rd_Exec :: "'r \<Rightarrow> redis_cmd list \<Rightarrow> go_error option \<times> 'r"
  rd_Ping :: "'r \<Rightarrow> go_error option"
  rd_Info :: "'r \<Rightarrow> string \<Rightarrow> string"
  rd_Close :: "'r \<Rightarrow> go_error option"

record 'r redis_storage =
  client :: 'r
  topicPrefix :: string
  replayPrefix :: string
  replaySize :: int

definition wrap64 :: "int \<Rightarrow> int" where
  "wrap64 i = signed_take_bit 63 i"

lemma wrap64_id: "- (2 ^ 63) \<le> i \<Longrightarrow> i < 2 ^ 63 \<Longrightarrow> wrap64 i = i"
  by (simp add: wrap64_def signed_take_bit_int_eq_self)

section \<open>Connecting\<close>

text \<open>\<open>redis.NewClient\<close> with the options is the parameter \<open>dial\<close>.\<close>

definition NewRedisStorage ::
  "'r redis_api \<Rightarrow> (string \<Rightarrow> string \<Rightarrow> int \<Rightarrow> 'r) \<Rightarrow> string \<Rightarrow> string \<Rightarrow> int \<Rightarrow> int \<Rightarrow> go_error + 'r redis_storage" where
  "NewRedisStorage R dial addr password db rsize =
     (let c = dial addr password db in
      case rd_Ping R c of
        Some e \<Rightarrow> Inl (''failed to connect to Redis: '' @ e)
      | None \<Rightarrow> Inr \<lparr>client = c, topicPrefix = ''pubsub:topic:'', replayPrefix = ''pubsub:replay:'',
                    replaySize = rsize\<rparr>)"

definition RedisStorage_Close :: "'r redis_api \<Rightarrow> 'r redis_storage \<Rightarrow> go_error option" where
  "RedisStorage_Close R st = rd_Close R (client st)"

section \<open>Replay lists\<close>

definition replay_key :: "'r redis_storage \<Rightarrow> string \<Rightarrow> string" where
  "replay_key st n = replayPrefix st @ n"

definition RedisStorage_SaveMessage ::
  "'r redis_api \<Rightarrow> string \<Rightarrow> message \<Rightarrow> 'r redis_storage \<Rightarrow> go_error option \<times> 'r redis_storage" where
  "RedisStorage_SaveMessage R n m st =
     (let key = replay_key st n in
      case marshal_message m of
        Inl e \<Rightarrow> (Some (''failed to marshal message: '' @ e), st)
      | Inr data \<Rightarrow>
        (case rd_LPush R (client st) key (Doc data) of
           (Some e, c) \<Rightarrow> (Some (''failed to save message: '' @ e), st\<lparr>client := c\<rparr>)
         | (None, c) \<Rightarrow>
           (case rd_LTrim R c key 0 (wrap64 (replaySize st - 1)) of
              (Some e, c) \<Rightarrow> (Some (''failed to trim replay buffer: '' @ e), st\<lparr>client := c\<rparr>)
            | (None, c) \<Rightarrow> (None, st\<lparr>client := rd_Expire R c key (7 * 24 * hour)\<rparr>))))"

definition unmarshal_blob :: "blob \<Rightarrow> message option" where
  "unmarshal_blob b = (case b of Doc j \<Rightarrow> unmarshal_message j | Bytes _ \<Rightarrow> None)"

text \<open>The loop runs from the last element to the first and skips what does not decode.\<close>

fun collect_messages :: "blob list \<Rightarrow> message list" where
  "collect_messages [] = []"
| "collect_messages (d # ds) =
     collect_messages ds @ (case unmarshal_blob d of None \<Rightarrow> [] | Some m \<Rightarrow> [m])"

definition RedisStorage_GetReplayMessages ::
  "'r redis_api \<Rightarrow> string \<Rightarrow> int \<Rightarrow> 'r redis_storage \<Rightarrow> go_error + message list" where
  "RedisStorage_GetReplayMessages R n lastN st =
     (case rd_LRange R (client st) (replay_key st n) 0 (wrap64 (lastN - 1)) of
        Inl e \<Rightarrow> Inl (''failed to get replay messages: '' @ e)
      | Inr data \<Rightarrow> Inr (collect_messages data))"

section \<open>Topic metadata\<close>

definition topic_key :: "'r redis_storage \<Rightarrow> string \<Rightarrow> string" where
  "topic_key st n = topicPrefix st @ n"

text \<open>A marshalled map has its keys sorted. \<open>updated_at\<close> is in seconds.\<close>

definition RedisStorage_SaveTopicMetadata ::
  "'r redis_api \<Rightarrow> time \<Rightarrow> string \<Rightarrow> int \<Rightarrow> int \<Rightarrow> 'r redis_storage \<Rightarrow> go_error option \<times> 'r redis_storage" where
  "RedisStorage_SaveTopicMetadata R t n subscriberCount messageCount st =
     (let data = norm_any (JObj [(''name'', JStr n), (''subscriber_count'', JNum subscriberCount),
                   (''message_count'', JNum messageCount), (''updated_at'', JNum (t div second))])
      in case rd_Set R (client st) (topic_key st n) (Doc data) (24 * hour) of
           (Some e, c) \<Rightarrow> (Some (''failed to save topic metadata: '' @ e), st\<lparr>client := c\<rparr>)
         | (None, c) \<Rightarrow> (None, st\<lparr>client := rd_SAdd R c ''pubsub:topics'' n\<rparr>))"

definition RedisStorage_DeleteTopicMetadata ::
  "'r redis_api \<Rightarrow> string \<Rightarrow> 'r redis_storage \<Rightarrow> go_error option \<times> 'r redis_storage" where
  "RedisStorage_DeleteTopicMetadata R n st =
     (case rd_Exec R (client st)
             [CmdDel (topic_key st n), CmdDel (replay_key st n), CmdSRem ''pubsub:topics'' n] of
        (e, c) \<Rightarrow> (e, st\<lparr>client := c\<rparr>))"

definition RedisStorage_GetAllTopics :: "'r redis_api \<Rightarrow> 'r redis_storage \<Rightarrow> go_error + string list" where
  "RedisStorage_GetAllTopics R st =
     (case rd_SMembers R (client st) ''pubsub:topics'' of
        Inl e \<Rightarrow> Inl (''failed to get topics: '' @ e)
      | Inr ts \<Rightarrow> Inr ts)"

definition decode_metadata :: "blob \<Rightarrow> json option" where
  "decode_metadata b = (case b of Doc (JObj kvs) \<Rightarrow> Some (norm_any (JObj kvs)) | Doc JNull \<Rightarrow> Some JNull | _ \<Rightarrow> None)"

text \<open>A nil map and a nil error for a missing topic is \<open>Inr None\<close>; the text of a decoding error is left open.\<close>

definition RedisStorage_GetTopicMetadata ::
  "'r redis_api \<Rightarrow> (blob \<Rightarrow> go_error) \<Rightarrow> string \<Rightarrow> 'r redis_storage \<Rightarrow> go_error + json option" where
  "RedisStorage_GetTopicMetadata R jerr n st =
     (case rd_Get R (client st) (topic_key st n) of
        RNil \<Rightarrow> Inr None
      | RErr e \<Rightarrow> Inl (''failed to get topic metadata: '' @ e)
      | RVal b \<Rightarrow>
        (case decode_metadata b of
           None \<Rightarrow> Inl (''failed to unmarshal topic metadata: '' @ jerr b)
         | Some j \<Rightarrow> Inr (Some j)))"

definition RedisStorage_IncrementMessageCount ::
  "'r redis_api \<Rightarrow> string \<Rightarrow> 'r redis_storage \<Rightarrow> go_error option \<times> 'r redis_storage" where
  "RedisStorage_IncrementMessageCount R n st =
     (case rd_Incr R (client st) (topic_key st n @ '':count'') of (e, c) \<Rightarrow> (e, st\<lparr>client := c\<rparr>))"

definition RedisStorage_GetMessageCount :: "'r redis_api \<Rightarrow> string \<Rightarrow> 'r redis_storage \<Rightarrow> go_error + int" where
  "RedisStorage_GetMessageCount R n st =
     (case rd_GetInt64 R (client st) (topic_key st n @ '':count'') of None \<Rightarrow> Inr 0 | Some r \<Rightarrow> r)"

definition RedisStorage_Ping :: "'r redis_api \<Rightarrow> 'r redis_storage \<Rightarrow> go_error option" where
  "RedisStorage_Ping R st = rd_Ping R (client st)"

definition RedisStorage_GetStats :: "'r redis_api \<Rightarrow> 'r redis_storage \<Rightarrow> json" where
  "RedisStorage_GetStats R st = JObj [(''connected'', JBool True),
     (''stats'', JStr (rd_Info R (client st) ''stats'')), (''memory'', JStr (rd_Info R (client st) ''memory''))]"

section \<open>What Redis documents of lists\<close>

text \<open>Indices from 0; a negative one counts from the end; out of range is clipped.\<close>

definition redis_slice :: "int \<Rightarrow> int \<Rightarrow> 'a list \<Rightarrow> 'a list" where
  "redis_slice a b xs =
     (let n = int (length xs); s = (if a < 0 then max 0 (n + a) else a);
          e = (if b < 0 then n + b else min b (n - 1))
      in if s > e then [] else take (nat (e - s + 1)) (drop (nat s) xs))"

definition redis_list_laws :: "'r redis_api \<Rightarrow> ('r \<Rightarrow> string \<Rightarrow> blob list) \<Rightarrow> bool" where
  "redis_list_laws R view \<longleftrightarrow>
     (\<forall>r k d r'. rd_LPush R r k d = (None, r') \<longrightarrow> view r' = (view r)(k := d # view r k)) \<and>
     (\<forall>r k a b r'. rd_LTrim R r k a b = (None, r') \<longrightarrow> view r' = (view r)(k := redis_slice a b (view r k))) \<and>
     (\<forall>r k t. view (rd_Expire R r k t) = view r) \<and>
     (\<forall>r k a b ds. rd_LRange R r k a b = Inr ds \<longrightarrow> ds = redis_slice a b (view r k))"

lemma redis_slice_prefix: "0 \<le> b \<Longrightarrow> redis_slice 0 b xs = take (nat (b + 1)) xs"
  by (auto simp: redis_slice_def Let_def min_def nat_add_distrib intro: take_all)

section \<open>Saving and replaying\<close>

fun save_all :: "'r redis_api \<Rightarrow> string \<Rightarrow> message list \<Rightarrow> 'r redis_storage \<Rightarrow> go_error option \<times> 'r redis_storage" where
  "save_all R n [] st = (None, st)"
| "save_all R n (m # ms) st =
     (case RedisStorage_SaveMessage R n m st of
        (Some e, st) \<Rightarrow> (Some e, st)
      | (None, st) \<Rightarrow> save_all R n ms st)"

definition as_decoded :: "message \<Rightarrow> message" where
  "as_decoded m = m\<lparr>m_payload := norm_any (m_payload m)\<rparr>"

definition last_n :: "nat \<Rightarrow> 'a list \<Rightarrow> 'a list" where
  "last_n k xs = drop (length xs - k) xs"

lemma last_n_take_rev: "last_n k xs = rev (take k (rev xs))"
  by (simp add: last_n_def take_rev)

lemma SaveMessage_None:
  assumes laws: "redis_list_laws R view" and size: "0 < replaySize st" "replaySize st < 2 ^ 63"
    and save: "RedisStorage_SaveMessage R n m st = (None, st')"
  shows "(\<exists>j. marshal_message m = Inr j \<and>
      view (client st') = (view (client st))(replay_key st n := take (nat (replaySize st)) (Doc j # view (client st) (replay_key st n))))
    \<and> replayPrefix st' = replayPrefix st \<and> replaySize st' = replaySize st"
proof -
  have w: "wrap64 (replaySize st - 1) = replaySize st - 1" using size by (simp add: wrap64_id)
  obtain j where j: "marshal_message m = Inr j"
    using save by (cases "marshal_message m") (auto simp: RedisStorage_SaveMessage_def Let_def)
  obtain c1 where 1: "rd_LPush R (client st) (replay_key st n) (Doc j) = (None, c1)"
    using save j by (auto simp: RedisStorage_SaveMessage_def Let_def split: prod.splits option.splits)
  obtain c2 where 2: "rd_LTrim R c1 (replay_key st n) 0 (replaySize st - 1) = (None, c2)"
    using save j 1 w by (auto simp: RedisStorage_SaveMessage_def Let_def split: prod.splits option.splits)
  have st': "st' = st\<lparr>client := rd_Expire R c2 (replay_key st n) (7 * 24 * hour)\<rparr>"
    using save j 1 2 w by (simp add: RedisStorage_SaveMessage_def Let_def)
  have "view c1 = (view (client st))(replay_key st n := Doc j # view (client st) (replay_key st n))"
    using laws 1 unfolding redis_list_laws_def by blast
  moreover have "view c2 = (view c1)(replay_key st n := redis_slice 0 (replaySize st - 1) (view c1 (replay_key st n)))"
    using laws 2 unfolding redis_list_laws_def by blast
  moreover have "view (client st') = view c2"
    using laws st' unfolding redis_list_laws_def by simp
  ultimately show ?thesis using j size by (simp add: st' redis_slice_prefix)
qed

lemma collect_messages_rev: "collect_messages (rev ds) = List.map_filter unmarshal_blob ds"
proof -
  have app: "collect_messages (xs @ ys) = collect_messages ys @ collect_messages xs" for xs ys
    by (induction xs) auto
  show ?thesis by (induction ds) (auto simp: app map_filter_simps split: option.splits)
qed

lemma take_take_append: "take k (xs @ take k ys) = take k (xs @ ys)"
  by (simp add: min_def)

lemma save_all_view:
  assumes laws: "redis_list_laws R view"
  shows "0 < replaySize st \<Longrightarrow> replaySize st < 2 ^ 63 \<Longrightarrow>
    length (view (client st) (replay_key st n)) \<le> nat (replaySize st) \<Longrightarrow> save_all R n ms st = (None, st') \<Longrightarrow>
    \<exists>js. list_all2 (\<lambda>m j. marshal_message m = Inr j) ms js \<and>
      view (client st') = (view (client st))(replay_key st n :=
        take (nat (replaySize st)) (rev (map Doc js) @ view (client st) (replay_key st n))) \<and>
      replayPrefix st' = replayPrefix st \<and> replaySize st' = replaySize st"
proof (induction ms arbitrary: st)
  case (Cons m ms)
  obtain st1 where st1: "RedisStorage_SaveMessage R n m st = (None, st1)" "save_all R n ms st1 = (None, st')"
    using Cons.prems(4) by (auto split: prod.splits option.splits)
  from SaveMessage_None [OF laws Cons.prems(1,2) st1(1)] obtain j where
    j: "marshal_message m = Inr j" "replayPrefix st1 = replayPrefix st" "replaySize st1 = replaySize st"
      "view (client st1) = (view (client st))(replay_key st n :=
         take (nat (replaySize st)) (Doc j # view (client st) (replay_key st n)))"
    by blast
  have key: "replay_key st1 n = replay_key st n" by (simp add: replay_key_def j(2))
  have p: "0 < replaySize st1" "replaySize st1 < 2 ^ 63"
    "length (view (client st1) (replay_key st1 n)) \<le> nat (replaySize st1)"
    using Cons.prems(1,2) by (simp_all add: j key)
  from Cons.IH [OF p st1(2)] obtain js where
    js: "list_all2 (\<lambda>m j. marshal_message m = Inr j) ms js" "replayPrefix st' = replayPrefix st1" "replaySize st' = replaySize st1"
      "view (client st') = (view (client st1))(replay_key st1 n :=
         take (nat (replaySize st1)) (rev (map Doc js) @ view (client st1) (replay_key st1 n)))"
    by blast
  have "list_all2 (\<lambda>m j. marshal_message m = Inr j) (m # ms) (j # js)" using j(1) js(1) by simp
  moreover have "view (client st') = (view (client st))(replay_key st n :=
      take (nat (replaySize st)) (rev (map Doc (j # js)) @ view (client st) (replay_key st n)))"
    unfolding js(4) key j(3,4) by (simp add: take_take_append)
  ultimately show ?case using j(2,3) js(2,3) by (intro exI [of _ "j # js"]) simp
qed (auto simp: list_all2_Nil)

lemma unmarshal_marshalled: "marshal_message m = Inr j \<Longrightarrow> unmarshal_blob (Doc j) = Some (as_decoded m)"
  using unmarshal_marshal_message by (simp add: unmarshal_blob_def as_decoded_def)

lemma decode_all:
  "list_all2 (\<lambda>m j. marshal_message m = Inr j) ms js \<Longrightarrow>
   List.map_filter unmarshal_blob (map Doc js) = map as_decoded ms"
  by (induction rule: list_all2_induct) (auto simp: map_filter_simps unmarshal_marshalled)

text \<open>
  C6: replay. After messages have been saved for a topic whose list was empty, asking for
  the last \<open>N\<close> of them gives exactly the most recent \<open>min N replaySize\<close>, oldest first, each
  as JSON decodes it, or the wrapped error if Redis refuses the read; the lists of the
  other topics have not changed.
\<close>

theorem replay_last_n:
  assumes laws: "redis_list_laws R view"
    and size: "0 < replaySize st" "replaySize st < 2 ^ 63"
    and empty: "view (client st) (replay_key st n) = []"
    and save: "save_all R n ms st = (None, st')"
    and lastN: "0 < lastN" "lastN < 2 ^ 63"
  shows "RedisStorage_GetReplayMessages R n lastN st' =
      (case rd_LRange R (client st') (replay_key st n) 0 (lastN - 1) of
         Inl e \<Rightarrow> Inl (''failed to get replay messages: '' @ e)
       | Inr _ \<Rightarrow> Inr (map as_decoded (last_n (nat (min lastN (replaySize st))) ms))) \<and>
    (\<forall>n'. n' \<noteq> n \<longrightarrow> view (client st') (replay_key st n') = view (client st) (replay_key st n'))"
proof -
  obtain js where js: "list_all2 (\<lambda>m j. marshal_message m = Inr j) ms js" "replayPrefix st' = replayPrefix st"
    "view (client st') = (view (client st))(replay_key st n := take (nat (replaySize st)) (rev (map Doc js)))"
    using save_all_view [OF laws size _ save] empty by auto
  have key: "replay_key st' n' = replay_key st n'" for n' by (simp add: replay_key_def js(2))
  have inj: "replay_key st n' = replay_key st n \<longleftrightarrow> n' = n" for n' by (simp add: replay_key_def)
  have w: "wrap64 (lastN - 1) = lastN - 1" using lastN by (simp add: wrap64_id)
  let ?k = "nat (min lastN (replaySize st))"
  have "ds = take ?k (rev (map Doc js))" if "rd_LRange R (client st') (replay_key st n) 0 (lastN - 1) = Inr ds" for ds
  proof -
    have "ds = redis_slice 0 (lastN - 1) (view (client st') (replay_key st n))"
      using laws that unfolding redis_list_laws_def by blast
    then show ?thesis using lastN size by (simp add: redis_slice_prefix js(3) min_def nat_le_eq_zle)
  qed
  moreover have "take ?k (rev (map Doc js)) = rev (map Doc (last_n ?k js))"
    by (simp add: last_n_def take_rev drop_map)
  moreover have "list_all2 (\<lambda>m j. marshal_message m = Inr j) (last_n ?k ms) (last_n ?k js)"
    using js(1) by (auto simp: last_n_def list_all2_lengthD [OF js(1)] intro: list_all2_dropI)
  note decode_all [OF this]
  ultimately show ?thesis
    by (auto simp: RedisStorage_GetReplayMessages_def key inj w js(3) collect_messages_rev split: sum.split)
qed

text \<open>A Redis that never fails, as an instance of the parameter.\<close>

definition mem_redis :: "(string \<Rightarrow> blob list) redis_api" where
  "mem_redis = \<lparr>
     rd_LPush = (\<lambda>r k d. (None, r(k := d # r k))),
     rd_LTrim = (\<lambda>r k a b. (None, r(k := redis_slice a b (r k)))),
     rd_LRange = (\<lambda>r k a b. Inr (redis_slice a b (r k))),
     rd_Expire = (\<lambda>r k t. r),
     rd_Set = (\<lambda>r k d t. (None, r(k := [d]))),
     rd_Get = (\<lambda>r k. case r k of [] \<Rightarrow> RNil | d # _ \<Rightarrow> RVal d),
     rd_GetInt64 = (\<lambda>r k. None),
     rd_Incr = (\<lambda>r k. (None, r)),
     rd_SAdd = (\<lambda>r k x. r(k := Bytes x # r k)),
     rd_SMembers = (\<lambda>r k. Inr []),
     rd_Exec = (\<lambda>r cs. (None, r)),
     rd_Ping = (\<lambda>r. None),
     rd_Info = (\<lambda>r s. []),
     rd_Close = (\<lambda>r. None)\<rparr>"

lemma mem_redis_laws: "redis_list_laws mem_redis (\<lambda>r. r)"
  by (simp add: redis_list_laws_def mem_redis_def)

definition mem_storage :: "int \<Rightarrow> (string \<Rightarrow> blob list) redis_storage" where
  "mem_storage k = \<lparr>client = (\<lambda>_. []), topicPrefix = ''pubsub:topic:'', replayPrefix = ''pubsub:replay:'',
     replaySize = k\<rparr>"

lemma mem_save: "marshal_message m = Inr j \<Longrightarrow> RedisStorage_SaveMessage mem_redis n m st = (None, st\<lparr>client :=
    (client st)(replay_key st n := redis_slice 0 (wrap64 (replaySize st - 1)) (Doc j # client st (replay_key st n)))\<rparr>)"
  by (simp add: RedisStorage_SaveMessage_def mem_redis_def Let_def)

lemma mem_save_all: "list_all (\<lambda>m. \<exists>j. marshal_message m = Inr j) ms \<Longrightarrow> \<exists>st'. save_all mem_redis n ms st = (None, st')"
  by (induction ms arbitrary: st) (auto simp: mem_save)

definition example_message :: "string \<Rightarrow> int \<Rightarrow> message" where
  "example_message i v = \<lparr>m_id = i, m_payload = JNum v, m_ts = 0\<rparr>"

lemma example_marshal: "\<exists>j. marshal_message (example_message i v) = Inr j"
  by (simp add: marshal_message_def marshal_time_def example_message_def time_year_def civil_from_days_def
      year_day_def Let_def)

theorem replay_last_n_witness:
  "\<exists>st'. save_all mem_redis ''t'' [example_message ''a'' 1, example_message ''b'' 2, example_message ''c'' 3] (mem_storage 2)
       = (None, st') \<and>
     RedisStorage_GetReplayMessages mem_redis ''t'' 10 st' =
       Inr [as_decoded (example_message ''b'' 2), as_decoded (example_message ''c'' 3)]"
proof -
  let ?ms = "[example_message ''a'' 1, example_message ''b'' 2, example_message ''c'' 3]"
  obtain st' where st': "save_all mem_redis ''t'' ?ms (mem_storage 2) = (None, st')"
    using mem_save_all [of ?ms "''t''" "mem_storage 2"] example_marshal by (auto simp del: save_all.simps)
  have "RedisStorage_GetReplayMessages mem_redis ''t'' 10 st' = Inr (map as_decoded (last_n 2 ?ms))"
    using replay_last_n [OF mem_redis_laws _ _ _ st', of 10] by (simp add: mem_storage_def mem_redis_def)
  then show ?thesis using st' by (simp add: last_n_def)
qed

end
