(* ===== verification/Broker.thy ===== *)
theory Broker
  imports Shard Storage
begin

unbundle bit_operations_syntax

text \<open>
  \<^verbatim>\<open>internal/broker/broker.go\<close>: the broker routes every topic name to one of 32 shards by
  its FNV-1a hash and puts persistence before fan-out. The broker extends the store of
  objects with its own fields. \<open>world_ok\<close> is the invariant of broker, shards, topics and
  subscribers together; \<open>abs_broker\<close> is what a client can know of the broker, a flat map
  from topic names to subscriber ids and message counts, and every operation of the broker
  refines the operation of the same name on it.
\<close>

section \<open>The hash of hash/fnv\<close>

definition fnv32a :: "string \<Rightarrow> 32 word" where
  "fnv32a s = foldl (\<lambda>h c. (h XOR of_char c) * 16777619) 2166136261 s"

section \<open>The broker\<close>

definition ShardCount :: nat where "ShardCount = 32"
definition SubscriberQueueSize :: nat where "SubscriberQueueSize = 100"
definition ReplayBufferSize :: int where "ReplayBufferSize = 100"
definition MaxTopicsLimit :: nat where "MaxTopicsLimit = 10000"
definition MaxSubscribersPerTopic :: int where "MaxSubscribersPerTopic = 50000"

record 'r broker = tstore +
  shards :: "shard list"
  startTime :: time
  storage :: "'r redis_storage"

text \<open>\<open>None\<close> is \<open>log.Fatal\<close>. The store of the new broker is empty.\<close>

definition NewBroker :: "time \<Rightarrow> 'r redis_storage option \<Rightarrow> 'r broker option" where
  "NewBroker t redisStorage =
     (case redisStorage of None \<Rightarrow> None
      | Some st \<Rightarrow> Some \<lparr>clock = t, cells = [], subs = [], topics = [],
          shards = map (\<lambda>i. NewShard i ReplayBufferSize MaxSubscribersPerTopic) [0..<ShardCount],
          startTime = t, storage = st\<rparr>)"

definition selectShardForTopic :: "string \<Rightarrow> nat" where
  "selectShardForTopic n = unat (fnv32a n mod of_nat ShardCount)"

definition Broker_GetTotalTopicCount :: "('r, 'a) broker_scheme \<Rightarrow> nat" where
  "Broker_GetTotalTopicCount w = foldl (\<lambda>total sh. total + Shard_GetTopicCount sh) 0 (shards w)"

definition Broker_CreateTopic :: "string \<Rightarrow> ('r, 'a) broker_scheme \<Rightarrow> go_error option \<times> ('r, 'a) broker_scheme" where
  "Broker_CreateTopic n w =
     (if n = [] then (Some ''topic_name_empty'', w)
      else if Broker_GetTotalTopicCount w \<ge> MaxTopicsLimit then (Some ErrorCodeMaxTopicsReached, w)
      else let i = selectShardForTopic n in
        case Shard_CreateTopic n (shards w ! i) w of
          (err, sh, w) \<Rightarrow> (err, w\<lparr>shards := (shards w)[i := sh]\<rparr>))"

definition Broker_DeleteTopic :: "string \<Rightarrow> ('r, 'a) broker_scheme \<Rightarrow> (go_error option \<times> ('r, 'a) broker_scheme) option" where
  "Broker_DeleteTopic n w =
     (let i = selectShardForTopic n in do {
        (err, sh, w) \<leftarrow> Shard_DeleteTopic n (shards w ! i) w;
        Some (err, w\<lparr>shards := (shards w)[i := sh]\<rparr>)
      })"

definition Broker_GetTopic :: "string \<Rightarrow> ('r, 'a) broker_scheme \<Rightarrow> go_error + nat" where
  "Broker_GetTopic n w =
     (case Shard_GetTopic n (shards w ! selectShardForTopic n) of
        None \<Rightarrow> Inl ErrorCodeTopicNotFound
      | Some p \<Rightarrow> Inr p)"

definition Broker_TopicExists :: "string \<Rightarrow> ('r, 'a) broker_scheme \<Rightarrow> bool" where
  "Broker_TopicExists n w = Shard_TopicExists n (shards w ! selectShardForTopic n)"

text \<open>The topic is looked up, the message is persisted, and only then is it fanned out.\<close>

definition Broker_PublishMessage ::
  "'r redis_api \<Rightarrow> string \<Rightarrow> message \<Rightarrow> ('r, 'a) broker_scheme \<Rightarrow> (go_error option \<times> ('r, 'a) broker_scheme) option" where
  "Broker_PublishMessage R n message w =
     (case Broker_GetTopic n w of
        Inl err \<Rightarrow> Some (Some err, w)
      | Inr p \<Rightarrow>
        (case RedisStorage_SaveMessage R n message (storage w) of
           (Some err, st) \<Rightarrow> Some (Some (''failed to persist message: '' @ err), w\<lparr>storage := st\<rparr>)
         | (None, st) \<Rightarrow> do {
             let w = w\<lparr>storage := st\<rparr>;
             (_, t, w) \<leftarrow> Topic_PublishMessage message (topics w ! p) w;
             Some (None, w\<lparr>topics := (topics w)[p := t]\<rparr>)
           }))"

definition Broker_SubscribeToTopic ::
  "string \<Rightarrow> nat \<Rightarrow> ('r, 'a) broker_scheme \<Rightarrow> go_error option \<times> ('r, 'a) broker_scheme" where
  "Broker_SubscribeToTopic n r w =
     (case Broker_GetTopic n w of
        Inl err \<Rightarrow> (Some err, w)
      | Inr p \<Rightarrow>
        (case Topic_AddSubscriber r (topics w ! p) w of
           (err, t, w) \<Rightarrow> (err, w\<lparr>topics := (topics w)[p := t]\<rparr>)))"

definition Broker_UnsubscribeFromTopic ::
  "string \<Rightarrow> string \<Rightarrow> ('r, 'a) broker_scheme \<Rightarrow> go_error option \<times> ('r, 'a) broker_scheme" where
  "Broker_UnsubscribeFromTopic n cid w =
     (case Broker_GetTopic n w of
        Inl err \<Rightarrow> (Some err, w)
      | Inr p \<Rightarrow>
        (case Topic_RemoveSubscriber cid (topics w ! p) w of
           (t, w) \<Rightarrow> (None, w\<lparr>topics := (topics w)[p := t]\<rparr>)))"

definition Broker_GetReplayMessages ::
  "'r redis_api \<Rightarrow> string \<Rightarrow> int \<Rightarrow> ('r, 'a) broker_scheme \<Rightarrow> go_error + message list" where
  "Broker_GetReplayMessages R n lastNMessages w =
     (case RedisStorage_GetReplayMessages R n lastNMessages (storage w) of
        Inl err \<Rightarrow> Inl (''failed to get replay messages: '' @ err)
      | Inr messages \<Rightarrow> Inr messages)"

definition Broker_ListAllTopics :: "('r, 'a) broker_scheme \<Rightarrow> topic_info list" where
  "Broker_ListAllTopics w =
     concat (map (\<lambda>sh. map (\<lambda>p. Topic_GetTopicInfo (topics w ! p)) (Shard_GetAllTopics sh)) (shards w))"

definition Broker_GetStatistics :: "('r, 'a) broker_scheme \<Rightarrow> stats" where
  "Broker_GetStatistics w =
     (let topicInfoList = Broker_ListAllTopics w;
          totalSubscribers = foldl (\<lambda>total i. total + ti_subscribers i) 0 topicInfoList
      in \<lparr>st_total_topics = length topicInfoList, st_total_subscribers = totalSubscribers,
          st_topics = topicInfoList\<rparr>)"

text \<open>\<open>int64(d.Seconds())\<close> truncates towards zero.\<close>

definition trunc_seconds :: "time \<Rightarrow> int" where
  "trunc_seconds d = (if 0 \<le> d then d div second else - ((- d) div second))"

definition Broker_GetHealthStatus :: "('r, 'a) broker_scheme \<Rightarrow> health" where
  "Broker_GetHealthStatus w =
     (let st = Broker_GetStatistics w
      in \<lparr>h_status = ''ok'', h_uptime_sec = trunc_seconds (clock w - startTime w),
          h_topics = st_total_topics st, h_subscribers = st_total_subscribers st\<rparr>)"

definition Broker_GetTotalSubscriberCount :: "('r, 'a) broker_scheme \<Rightarrow> nat" where
  "Broker_GetTotalSubscriberCount w =
     foldl (\<lambda>total sh. total + Shard_GetTotalSubscriberCount w sh) 0 (shards w)"

definition Broker_GetShardStatistics :: "('r, 'a) broker_scheme \<Rightarrow> shard_statistics list" where
  "Broker_GetShardStatistics w = map (Shard_GetShardStatistics w) (shards w)"

definition Broker_String :: "('r, 'a) broker_scheme \<Rightarrow> string" where
  "Broker_String w = ''Broker{topics='' @ itoa (int (Broker_GetTotalTopicCount w)) @ '', subscribers='' @
     itoa (int (Broker_GetTotalSubscriberCount w)) @ '', uptime='' @ duration_string (clock w - startTime w) @ ''}''"

section \<open>Routing\<close>

lemma selectShard_lt: "selectShardForTopic n < ShardCount"
proof -
  have "unat (fnv32a n) mod 32 < 32" by simp
  then show ?thesis by (simp add: selectShardForTopic_def ShardCount_def unat_mod)
qed

interpretation router: shard_router selectShardForTopic ShardCount
  by unfold_locales (rule selectShard_lt)

definition lookup :: "('r, 'a) broker_scheme \<Rightarrow> string \<Rightarrow> nat option" where
  "lookup w = flat selectShardForTopic (map topicsMap (shards w))"

definition shards_ok :: "('r, 'a) broker_scheme \<Rightarrow> bool" where
  "shards_ok w \<longleftrightarrow> placed selectShardForTopic ShardCount (map topicsMap (shards w)) \<and>
     (\<forall>i < ShardCount. shardID (shards w ! i) = i \<and> maxSubscribersPerTopic (shards w ! i) = MaxSubscribersPerTopic)"

lemma shards_len: "shards_ok w \<Longrightarrow> length (shards w) = ShardCount"
  by (auto simp: shards_ok_def placed_def)

lemma lookup_shard: "shards_ok w \<Longrightarrow> gm_get (topicsMap (shards w ! selectShardForTopic n)) n = lookup w n"
  using selectShard_lt [of n] by (simp add: lookup_def flat_def shards_len)

lemma GetTopic_eq: "shards_ok w \<Longrightarrow> Broker_GetTopic n w =
    (case lookup w n of None \<Rightarrow> Inl ErrorCodeTopicNotFound | Some p \<Rightarrow> Inr p)"
  by (simp add: Broker_GetTopic_def Shard_GetTopic_def lookup_shard)

lemma TopicExists_eq: "shards_ok w \<Longrightarrow> Broker_TopicExists n w \<longleftrightarrow> lookup w n \<noteq> None"
  by (simp add: Broker_TopicExists_def Shard_TopicExists_def lookup_shard)

lemma TotalTopicCount_card: "shards_ok w \<Longrightarrow> Broker_GetTotalTopicCount w = card (dom (lookup w))"
  using router.flat_count [of "map topicsMap (shards w)"]
  by (simp add: shards_ok_def lookup_def Broker_GetTotalTopicCount_def Shard_GetTopicCount_def
      foldl_add_sum_list o_def)

text \<open>Writing one shard's map through the broker.\<close>

definition set_map :: "string \<Rightarrow> ((string, nat) gomap \<Rightarrow> (string, nat) gomap) \<Rightarrow> ('r, 'a) broker_scheme \<Rightarrow> ('r, 'a) broker_scheme" where
  "set_map n f w = (let i = selectShardForTopic n in
     w\<lparr>shards := (shards w)[i := (shards w ! i)\<lparr>topicsMap := f (topicsMap (shards w ! i))\<rparr>]\<rparr>)"

lemma map_set_map: "shards_ok w \<Longrightarrow> map topicsMap (shards (set_map n f w)) =
    (map topicsMap (shards w))[selectShardForTopic n := f (map topicsMap (shards w) ! selectShardForTopic n)]"
  using selectShard_lt [of n] by (simp add: set_map_def Let_def map_update shards_len)

lemma set_map_shards_ok:
  assumes "shards_ok w" "placed selectShardForTopic ShardCount (map topicsMap (shards (set_map n f w)))"
  shows "shards_ok (set_map n f w)"
  using assms shards_len [OF assms(1)] selectShard_lt [of n] by (auto simp: shards_ok_def set_map_def Let_def nth_list_update)

lemma set_map_put:
  assumes "shards_ok w"
  shows "shards_ok (set_map n (gm_put n p) w) \<and> lookup (set_map n (gm_put n p) w) = (lookup w)(n \<mapsto> p)"
  using assms router.placed_put [of "map topicsMap (shards w)" n p] router.flat_put [of "map topicsMap (shards w)" n p]
  by (simp add: set_map_shards_ok map_set_map lookup_def shards_ok_def [of w])

lemma set_map_del:
  assumes "shards_ok w"
  shows "shards_ok (set_map n (gm_del n) w) \<and> lookup (set_map n (gm_del n) w) = (lookup w)(n := None)"
  using assms router.placed_del [of "map topicsMap (shards w)" n] router.flat_del [of "map topicsMap (shards w)" n]
  by (simp add: set_map_shards_ok map_set_map lookup_def shards_ok_def [of w])

lemma set_map_frame [frame]:
  "clock (set_map n f w) = clock w" "cells (set_map n f w) = cells w" "subs (set_map n f w) = subs w"
  "topics (set_map n f w) = topics w" "storage (set_map n f w) = storage w" "startTime (set_map n f w) = startTime w"
  by (simp_all add: set_map_def Let_def)

lemma lookup_frame [frame]:
  "lookup (w\<lparr>clock := c\<rparr>) = lookup w" "lookup (w\<lparr>cells := cs\<rparr>) = lookup w" "lookup (w\<lparr>subs := ss\<rparr>) = lookup w"
  "lookup (w\<lparr>topics := ts\<rparr>) = lookup w" "lookup (w\<lparr>storage := st\<rparr>) = lookup w"
  by (simp_all add: lookup_def)

lemma shards_ok_frame [frame]:
  "shards_ok (w\<lparr>clock := c\<rparr>) = shards_ok w" "shards_ok (w\<lparr>cells := cs\<rparr>) = shards_ok w"
  "shards_ok (w\<lparr>subs := ss\<rparr>) = shards_ok w" "shards_ok (w\<lparr>topics := ts\<rparr>) = shards_ok w"
  "shards_ok (w\<lparr>storage := st\<rparr>) = shards_ok w"
  by (simp_all add: shards_ok_def)

end
