(* ===== verification/Broker_Inv.thy ===== *)
theory Broker_Inv
  imports Broker
begin

text \<open>
  The invariant of the broker with its shards, topics, subscribers and messages, and the
  lemmas that each way of changing the world keeps it.
\<close>

section \<open>The invariant\<close>

definition objects_ok :: "('r, 'a) broker_scheme \<Rightarrow> bool" where
  "objects_ok w \<longleftrightarrow> store_ok w \<and> distinct (map clientID (subs w)) \<and>
     (\<forall>t \<in> set (topics w). topic_ok (subs w) t \<and> maxSubscribers t = MaxSubscribersPerTopic)"

definition names_ok :: "('r, 'a) broker_scheme \<Rightarrow> bool" where
  "names_ok w \<longleftrightarrow> shards_ok w \<and> card (dom (lookup w)) \<le> MaxTopicsLimit \<and>
     (\<forall>n p. lookup w n = Some p \<longrightarrow> n \<noteq> [] \<and> p < length (topics w) \<and> topicName (topics w ! p) = n)"

text \<open>A subscriber lists a topic exactly when the topic of this name lists the subscriber.\<close>

definition links_ok :: "('r, 'a) broker_scheme \<Rightarrow> bool" where
  "links_ok w \<longleftrightarrow> (\<forall>r < length (subs w). \<forall>n. gm_get (subscribedTopics (subs w ! r)) n \<noteq> None \<longleftrightarrow>
     (\<exists>p. lookup w n = Some p \<and> r \<in> members (topics w ! p)))"

definition world_ok :: "('r, 'a) broker_scheme \<Rightarrow> bool" where
  "world_ok w \<longleftrightarrow> objects_ok w \<and> names_ok w \<and> links_ok w"

lemma world_okD:
  assumes "world_ok w"
  shows "store_ok w" "shards_ok w" "distinct (map clientID (subs w))" "card (dom (lookup w)) \<le> MaxTopicsLimit"
  using assms by (simp_all add: world_ok_def objects_ok_def names_ok_def)

lemma world_ok_sub:
  assumes "world_ok w" "r < length (subs w)"
  shows "sub_ok (subs w ! r)" "queue_refs_ok (cells w) (subs w ! r)"
  using assms store_ok_nth [of w r] by (simp_all add: world_okD)

lemma world_ok_topic:
  assumes "world_ok w" "p < length (topics w)"
  shows "topic_ok (subs w) (topics w ! p)" "maxSubscribers (topics w ! p) = MaxSubscribersPerTopic"
  using assms by (simp_all add: world_ok_def objects_ok_def)

lemma world_ok_lookup:
  assumes "world_ok w" "lookup w n = Some p"
  shows "n \<noteq> []" "p < length (topics w)" "topicName (topics w ! p) = n"
  using assms by (auto simp: world_ok_def names_ok_def)

lemma lookup_inj: "world_ok w \<Longrightarrow> lookup w n = Some p \<Longrightarrow> lookup w n' = Some p \<Longrightarrow> n' = n"
  using world_ok_lookup(3) by blast

lemma same_id:
  assumes "world_ok w" "r < length (subs w)" "q < length (subs w)" "clientID (subs w ! r) = clientID (subs w ! q)"
  shows "r = q"
  using assms nth_eq_iff_index_eq [of "map clientID (subs w)" r q] by (simp add: world_okD)

lemma finite_lookup:
  assumes "world_ok w"
  shows "finite (dom (lookup w))"
proof -
  have "placed selectShardForTopic ShardCount (map topicsMap (shards w))"
    using world_okD(2) [OF assms] by (simp add: shards_ok_def)
  from router.finite_flat [OF this] show ?thesis by (simp add: lookup_def)
qed

lemma member_key:
  assumes "world_ok w" "p < length (topics w)" "r < length (subs w)"
  shows "gm_get (subscribers (topics w ! p)) (clientID (subs w ! r)) =
    (if r \<in> members (topics w ! p) then Some r else None)"
proof -
  have t: "topic_ok (subs w) (topics w ! p)" using assms world_ok_topic by blast
  show ?thesis
  proof (cases "gm_get (subscribers (topics w ! p)) (clientID (subs w ! r))")
    case None
    then show ?thesis using t members_iff by fastforce
  next
    case (Some q)
    then have "q < length (subs w)" "clientID (subs w ! q) = clientID (subs w ! r)" using t by (auto simp: topic_ok_def)
    then have "q = r" using same_id [OF assms(1) _ assms(3)] by simp
    then show ?thesis using Some t assms(3) by (simp add: members_iff)
  qed
qed

lemma links:
  "world_ok w \<Longrightarrow> r < length (subs w) \<Longrightarrow> gm_get (subscribedTopics (subs w ! r)) n \<noteq> None \<longleftrightarrow>
     (\<exists>p. lookup w n = Some p \<and> r \<in> members (topics w ! p))"
  by (simp add: world_ok_def links_ok_def)

section \<open>Changes that keep it\<close>

lemma topic_ok_same:
  assumes "topic_ok ss t" "length ss' = length ss" "\<And>r. r < length ss \<Longrightarrow> clientID (ss' ! r) = clientID (ss ! r)"
  shows "topic_ok ss' t"
  using assms(1) unfolding topic_ok_def assms(2) by (simp add: assms(3))

lemma topic_ok_cong:
  assumes "length ss' = length ss" "\<And>r. r < length ss \<Longrightarrow> clientID (ss' ! r) = clientID (ss ! r)"
  shows "topic_ok ss' t = topic_ok ss t"
  using topic_ok_same [of ss t ss'] topic_ok_same [of ss' t ss] assms by auto

lemma map_clientID_cong:
  assumes "length ss' = length ss" "\<And>r. r < length ss \<Longrightarrow> clientID (ss' ! r) = clientID (ss ! r)"
  shows "map clientID ss' = map clientID ss"
  using assms by (intro nth_equalityI) auto

text \<open>Queues, connections and flags of the subscribers may change, and messages be added.\<close>

lemma world_ok_queues:
  assumes "world_ok w" "length ss = length (subs w)"
    and "\<And>r. r < length (subs w) \<Longrightarrow> sub_ok (ss ! r) \<and> queue_refs_ok cs (ss ! r) \<and>
           clientID (ss ! r) = clientID (subs w ! r) \<and> subscribedTopics (ss ! r) = subscribedTopics (subs w ! r)"
  shows "world_ok (w\<lparr>cells := cs, subs := ss\<rparr>)"
proof -
  have "store_ok (w\<lparr>cells := cs, subs := ss\<rparr>)"
    using assms(2,3) by (auto simp: store_ok_def in_set_conv_nth)
  moreover have "map clientID ss = map clientID (subs w)"
    by (rule map_clientID_cong) (use assms(2,3) in auto)
  moreover have "topic_ok ss t = topic_ok (subs w) t" for t
    by (rule topic_ok_cong) (use assms(2,3) in auto)
  ultimately show ?thesis
    using assms by (simp add: world_ok_def objects_ok_def names_ok_def links_ok_def frame)
qed

lemma world_ok_storage [simp]: "world_ok (w\<lparr>storage := st\<rparr>) = world_ok w"
  by (simp add: world_ok_def objects_ok_def names_ok_def links_ok_def frame store_ok_def)

lemma world_ok_clock [simp]: "world_ok (w\<lparr>clock := t\<rparr>) = world_ok w"
  by (simp add: world_ok_def objects_ok_def names_ok_def links_ok_def frame store_ok_def)

lemma world_ok_count:
  assumes "world_ok w" "p < length (topics w)"
  shows "world_ok (w\<lparr>topics := (topics w)[p := (topics w ! p)\<lparr>totalMessageCount := c\<rparr>]\<rparr>)" (is "world_ok ?w")
proof -
  have m: "members (topics ?w ! q) = members (topics w ! q)" "topicName (topics ?w ! q) = topicName (topics w ! q)" for q
    using assms(2) by (cases "q = p"; simp add: members_def)+
  have "topic_ok (subs w) t \<and> maxSubscribers t = MaxSubscribersPerTopic" if "t \<in> set (topics ?w)" for t
  proof -
    obtain q where "q < length (topics w)" "t = topics ?w ! q" using \<open>t \<in> set (topics ?w)\<close> by (auto simp: in_set_conv_nth)
    then show ?thesis using world_ok_topic [OF assms(1), of q] by (cases "q = p") (auto simp: topic_ok_def)
  qed
  then show ?thesis
    using assms m by (simp add: world_ok_def objects_ok_def names_ok_def links_ok_def frame store_ok_def)
qed

text \<open>A new subscriber with a new id.\<close>

lemma world_ok_connect:
  assumes "world_ok w" "sub_ok s" "queue_of s = []" "subscribedTopics s = []" "clientID s \<notin> clientID ` set (subs w)"
  shows "world_ok (w\<lparr>subs := subs w @ [s]\<rparr>)"
proof -
  have "topic_ok (subs w @ [s]) t" if "topic_ok (subs w) t" for t
    using that by (fastforce simp: topic_ok_def nth_append)
  moreover have "length (subs w) \<notin> members (topics w ! p)" if "p < length (topics w)" for p
    using members_lt [OF world_ok_topic(1) [OF assms(1) that]] by blast
  ultimately show ?thesis
    using assms by (auto simp: world_ok_def objects_ok_def names_ok_def links_ok_def frame store_ok_def
        queue_refs_ok_def nth_append less_Suc_eq)
qed

section \<open>Membership changes\<close>

text \<open>One subscriber and one topic are rewritten together, as joining and leaving do.\<close>

definition relink :: "nat \<Rightarrow> subscriber \<Rightarrow> nat \<Rightarrow> topic \<Rightarrow> ('r, 'a) broker_scheme \<Rightarrow> ('r, 'a) broker_scheme" where
  "relink r s p t w = w\<lparr>subs := (subs w)[r := s], topics := (topics w)[p := t]\<rparr>"

lemma relink_frame [frame]:
  "lookup (relink r s p t w) = lookup w" "shards_ok (relink r s p t w) = shards_ok w"
  "cells (relink r s p t w) = cells w" "length (subs (relink r s p t w)) = length (subs w)"
  "length (topics (relink r s p t w)) = length (topics w)"
  by (simp_all add: relink_def frame)

lemma relink_nth:
  "q < length (subs w) \<Longrightarrow> subs (relink r s p t w) ! q = (if q = r then s else subs w ! q)"
  "q < length (topics w) \<Longrightarrow> topics (relink r s p t w) ! q = (if q = p then t else topics w ! q)"
  by (auto simp: relink_def)

lemma relink_objects:
  assumes "objects_ok w" "sub_ok s" "queue_refs_ok (cells w) s" "clientID s = clientID (subs w ! r)"
    "topic_ok (subs w) t" "maxSubscribers t = MaxSubscribersPerTopic"
  shows "objects_ok (relink r s p t w)"
proof -
  have id: "clientID (subs (relink r s p t w) ! q) = clientID (subs w ! q)" if "q < length (subs w)" for q
    using that assms(4) by (simp add: relink_nth)
  have "topic_ok (subs (relink r s p t w)) x = topic_ok (subs w) x" for x
    by (rule topic_ok_cong) (simp_all add: frame id)
  moreover have "map clientID (subs (relink r s p t w)) = map clientID (subs w)"
    by (rule map_clientID_cong) (simp_all add: frame id)
  moreover have "store_ok (relink r s p t w)"
    using assms by (auto simp: objects_ok_def relink_def store_ok_def dest!: set_update_subset_insert [THEN subsetD])
  moreover have "set (topics (relink r s p t w)) \<subseteq> insert t (set (topics w))"
    by (simp add: relink_def set_update_subset_insert)
  ultimately show ?thesis using assms(1,5,6) by (fastforce simp: objects_ok_def)
qed

lemma world_ok_relink:
  assumes w: "world_ok w" "r < length (subs w)" "lookup w n = Some p"
    and s: "sub_ok s" "queue_refs_ok (cells w) s" "clientID s = clientID (subs w ! r)"
    and t: "topic_ok (subs w) t" "maxSubscribers t = MaxSubscribersPerTopic" "topicName t = n"
    and r: "gm_get (subscribedTopics s) n \<noteq> None \<longleftrightarrow> r \<in> members t"
    and others: "\<And>q. q \<noteq> r \<Longrightarrow> q \<in> members t \<longleftrightarrow> q \<in> members (topics w ! p)"
      "\<And>n'. n' \<noteq> n \<Longrightarrow> gm_get (subscribedTopics s) n' = gm_get (subscribedTopics (subs w ! r)) n'"
  shows "world_ok (relink r s p t w)"
proof -
  have "names_ok (relink r s p t w)"
    using w(1) world_ok_lookup [OF w(1)] lookup_inj [OF w(1,3)] t(3)
    by (auto simp: names_ok_def world_ok_def frame relink_nth)
  moreover have "gm_get (subscribedTopics (subs (relink r s p t w) ! q)) n' \<noteq> None \<longleftrightarrow>
      (\<exists>x. lookup w n' = Some x \<and> q \<in> members (topics (relink r s p t w) ! x))"
    if q: "q < length (subs w)" for q n'
  proof (cases "n' = n")
    case True
    then show ?thesis using links [OF w(1) q, of n] r others(1) [of q] q w(3) world_ok_lookup(2) [OF w(1,3)]
      by (cases "q = r") (auto simp: relink_nth)
  next
    case False
    have "x \<noteq> p \<and> x < length (topics w)" if "lookup w n' = Some x" for x
      using that False lookup_inj [OF w(1,3)] world_ok_lookup(2) [OF w(1)] by blast
    then show ?thesis using links [OF w(1) q, of n'] others(2) [OF False] q
      by (cases "q = r") (auto simp: relink_nth)
  qed
  ultimately show ?thesis
    using relink_objects [OF _ s t(1,2)] w(1) by (simp add: world_ok_def links_ok_def frame)
qed

text \<open>The world after subscriber \<open>r\<close> has joined, or left, topic \<open>p\<close> of name \<open>n\<close>.\<close>

definition joined :: "string \<Rightarrow> nat \<Rightarrow> nat \<Rightarrow> ('r, 'a) broker_scheme \<Rightarrow> ('r, 'a) broker_scheme" where
  "joined n p r w = relink r (Subscriber_AddTopic n (subs w ! r)) p
     ((topics w ! p)\<lparr>subscribers := gm_put (clientID (subs w ! r)) r (subscribers (topics w ! p))\<rparr>) w"

definition left_topic :: "string \<Rightarrow> nat \<Rightarrow> nat \<Rightarrow> ('r, 'a) broker_scheme \<Rightarrow> ('r, 'a) broker_scheme" where
  "left_topic n p r w = relink r (Subscriber_RemoveTopic n (subs w ! r)) p
     ((topics w ! p)\<lparr>subscribers := gm_del (clientID (subs w ! r)) (subscribers (topics w ! p))\<rparr>) w"

lemma Subscribe_eq:
  assumes "world_ok w" "r < length (subs w)"
  shows "Broker_SubscribeToTopic n r w =
    (case lookup w n of None \<Rightarrow> (Some ErrorCodeTopicNotFound, w)
     | Some p \<Rightarrow>
         if r \<in> members (topics w ! p) then (None, w)
         else if MaxSubscribersPerTopic \<le> int (length (subscribers (topics w ! p)))
         then (Some ErrorCodeMaxSubscribers, w) else (None, joined n p r w))"
proof (cases "lookup w n")
  case None
  then show ?thesis using assms by (simp add: Broker_SubscribeToTopic_def GetTopic_eq world_okD)
next
  case (Some p)
  note p = world_ok_lookup [OF assms(1) Some]
  show ?thesis using Some p world_ok_topic [OF assms(1) p(2)] member_key [OF assms(1) p(2) assms(2)]
    by (simp add: Broker_SubscribeToTopic_def GetTopic_eq world_okD [OF assms(1)] Topic_AddSubscriber_def Let_def
        sub_update_def joined_def relink_def)
qed

lemma Unsubscribe_eq:
  assumes "world_ok w"
  shows "Broker_UnsubscribeFromTopic n cid w =
    (case lookup w n of None \<Rightarrow> (Some ErrorCodeTopicNotFound, w)
     | Some p \<Rightarrow>
        (None, case gm_get (subscribers (topics w ! p)) cid of None \<Rightarrow> w | Some r \<Rightarrow> left_topic n p r w))"
proof (cases "lookup w n")
  case None
  then show ?thesis using assms by (simp add: Broker_UnsubscribeFromTopic_def GetTopic_eq world_okD)
next
  case (Some p)
  note p = world_ok_lookup [OF assms Some]
  show ?thesis
  proof (cases "gm_get (subscribers (topics w ! p)) cid")
    case None
    then show ?thesis using Some
      by (simp add: Broker_UnsubscribeFromTopic_def GetTopic_eq world_okD [OF assms] Topic_RemoveSubscriber_def)
  next
    case (Some r)
    then have "clientID (subs w ! r) = cid" using world_ok_topic(1) [OF assms p(2)] by (auto simp: topic_ok_def)
    then show ?thesis using Some \<open>lookup w n = Some p\<close> p
      by (simp add: Broker_UnsubscribeFromTopic_def GetTopic_eq world_okD [OF assms] Topic_RemoveSubscriber_def
          sub_update_def left_topic_def relink_def)
  qed
qed

lemma members_put:
  assumes "gm_ok (subscribers t)" "gm_get (subscribers t) k = None"
  shows "members (t\<lparr>subscribers := gm_put k r (subscribers t)\<rparr>) = insert r (members t)"
  using assms(2) by (simp add: members_def gm_vals_def gm_put_fresh gm_get_def map_of_eq_None_iff)

lemma members_del:
  assumes "topic_ok ss t" "gm_get (subscribers t) k = Some r"
  shows "members (t\<lparr>subscribers := gm_del k (subscribers t)\<rparr>) = members t - {r}"
proof -
  have ok: "gm_ok (subscribers t)" using assms(1) by (simp add: topic_ok_def)
  have uniq: "k' = k" if "gm_get (subscribers t) k' = Some r" for k' using that assms by (auto simp: topic_ok_def)
  have "x \<in> members (t\<lparr>subscribers := gm_del k (subscribers t)\<rparr>) \<longleftrightarrow>
      (\<exists>k'. k' \<noteq> k \<and> gm_get (subscribers t) k' = Some x)" for x
    by (auto simp: members_get ok gm.ok_del gm.get_del)
  moreover have "(\<exists>k'. k' \<noteq> k \<and> gm_get (subscribers t) k' = Some x) \<longleftrightarrow> x \<in> members t - {r}" for x
    using uniq assms(2) unfolding Diff_iff members_get [OF ok] by (metis option.inject singletonD singletonI)
  ultimately show ?thesis by blast
qed

lemma topic_ok_put:
  assumes "topic_ok ss t" "gm_get (subscribers t) (clientID (ss ! r)) = None" "r < length ss"
    "int (length (subscribers t)) < maxSubscribers t"
  shows "topic_ok ss (t\<lparr>subscribers := gm_put (clientID (ss ! r)) r (subscribers t)\<rparr>)"
proof -
  have "length (gm_put (clientID (ss ! r)) r (subscribers t)) = Suc (length (subscribers t))"
    using assms(1,2) gm.len_put [of "subscribers t" "clientID (ss ! r)" r] by (simp add: topic_ok_def)
  then show ?thesis using assms by (simp add: topic_ok_def)
qed

lemma topic_ok_del:
  assumes "topic_ok ss t"
  shows "topic_ok ss (t\<lparr>subscribers := gm_del k (subscribers t)\<rparr>)"
proof -
  have "length (gm_del k (subscribers t)) \<le> length (subscribers t)"
    using assms gm.len_del [of "subscribers t" k] by (simp add: topic_ok_def)
  then show ?thesis using assms by (auto simp: topic_ok_def gm.ok_del gm.get_del)
qed

lemma queue_refs_topics [simp]:
  "queue_refs_ok cs (Subscriber_AddTopic n s) = queue_refs_ok cs s"
  "queue_refs_ok cs (Subscriber_RemoveTopic n s) = queue_refs_ok cs s"
  by (simp_all add: queue_refs_ok_def frame)

lemma world_ok_joined:
  assumes "world_ok w" "r < length (subs w)" "lookup w n = Some p" "r \<notin> members (topics w ! p)"
    "int (length (subscribers (topics w ! p))) < MaxSubscribersPerTopic"
  shows "world_ok (joined n p r w)"
proof -
  note p = world_ok_lookup [OF assms(1,3)]
  note t = world_ok_topic [OF assms(1) p(2)]
  have fresh: "gm_get (subscribers (topics w ! p)) (clientID (subs w ! r)) = None"
    using member_key [OF assms(1) p(2) assms(2)] assms(4) by simp
  let ?t = "(topics w ! p)\<lparr>subscribers := gm_put (clientID (subs w ! r)) r (subscribers (topics w ! p))\<rparr>"
  have m: "members ?t = insert r (members (topics w ! p))" using t fresh by (simp add: topic_ok_def members_put)
  show ?thesis
    unfolding joined_def
  proof (rule world_ok_relink [OF assms(1-3)])
    show "topic_ok (subs w) ?t" using topic_ok_put [OF t(1) fresh assms(2)] assms(5) t(2) by simp
  qed (use world_ok_sub [OF assms(1,2)] t(2) p(3) m in \<open>simp_all add: frame\<close>)
qed

lemma world_ok_left:
  assumes "world_ok w" "lookup w n = Some p" "gm_get (subscribers (topics w ! p)) cid = Some r"
  shows "world_ok (left_topic n p r w)"
proof -
  note p = world_ok_lookup [OF assms(1,2)]
  note t = world_ok_topic [OF assms(1) p(2)]
  have r: "r < length (subs w)" "clientID (subs w ! r) = cid" using t(1) assms(3) by (auto simp: topic_ok_def)
  have g: "gm_ok (subscribedTopics (subs w ! r))" using world_ok_sub(1) [OF assms(1) r(1)] by (simp add: sub_ok_def)
  let ?t = "(topics w ! p)\<lparr>subscribers := gm_del (clientID (subs w ! r)) (subscribers (topics w ! p))\<rparr>"
  have m: "members ?t = members (topics w ! p) - {r}" using members_del [OF t(1) assms(3)] r(2) by simp
  show ?thesis
    unfolding left_topic_def
  proof (rule world_ok_relink [OF assms(1) r(1) assms(2)])
    show "topic_ok (subs w) ?t" by (rule topic_ok_del [OF t(1)])
  qed (use world_ok_sub [OF assms(1) r(1)] t(2) p(3) m in \<open>simp_all add: frame gm.get_del g\<close>)
qed

section \<open>Publishing\<close>

lemma queue_refs_after_send:
  assumes "queue_refs_ok cs s" "\<And>p. s_message m = Some p \<Longrightarrow> p < length cs"
  shows "queue_refs_ok cs (after_send t m s)"
  using assms by (auto simp: queue_refs_ok_def after_send_def)

lemma queue_refs_grow: "queue_refs_ok cs s \<Longrightarrow> queue_refs_ok (cs @ xs) s"
  by (fastforce simp: queue_refs_ok_def)

definition published :: "nat \<Rightarrow> message \<Rightarrow> ('r, 'a) broker_scheme \<Rightarrow> ('r, 'a) broker_scheme" where
  "published p m w = w\<lparr>cells := cells w @ [m],
     subs := upd_at (members (topics w ! p)) (after_send (clock w) (publication (topics w ! p) w)) (subs w),
     topics := (topics w)[p := (topics w ! p)\<lparr>totalMessageCount := totalMessageCount (topics w ! p) + 1\<rparr>]\<rparr>"

lemma world_ok_published:
  assumes "world_ok w" "p < length (topics w)"
  shows "world_ok (published p m w)"
proof -
  let ?ss = "upd_at (members (topics w ! p)) (after_send (clock w) (publication (topics w ! p) w)) (subs w)"
  have "world_ok (w\<lparr>cells := cells w @ [m], subs := ?ss\<rparr>)"
  proof (rule world_ok_queues [OF assms(1)])
    fix r assume r: "r < length (subs w)"
    have "queue_refs_ok (cells w @ [m]) (after_send (clock w) (publication (topics w ! p) w) (subs w ! r))"
      using world_ok_sub(2) [OF assms(1) r]
      by (intro queue_refs_after_send) (auto simp: queue_refs_grow publication_def)
    then show "sub_ok (?ss ! r) \<and> queue_refs_ok (cells w @ [m]) (?ss ! r) \<and>
        clientID (?ss ! r) = clientID (subs w ! r) \<and> subscribedTopics (?ss ! r) = subscribedTopics (subs w ! r)"
      using world_ok_sub [OF assms(1) r] r by (simp add: nth_upd_at frame queue_refs_grow)
  qed simp
  from world_ok_count [OF this, of p] assms(2) show ?thesis by (simp add: published_def)
qed

lemma Publish_eq:
  assumes "world_ok w"
  shows "Broker_PublishMessage R n m w =
    (case lookup w n of None \<Rightarrow> Some (Some ErrorCodeTopicNotFound, w)
     | Some p \<Rightarrow>
       (case RedisStorage_SaveMessage R n m (storage w) of
          (Some err, st) \<Rightarrow> Some (Some (''failed to persist message: '' @ err), w\<lparr>storage := st\<rparr>)
        | (None, st) \<Rightarrow> Some (None, published p m (w\<lparr>storage := st\<rparr>))))"
proof (cases "lookup w n")
  case None
  then show ?thesis by (simp add: Broker_PublishMessage_def GetTopic_eq world_okD [OF assms])
next
  case (Some p)
  have "store_ok (w\<lparr>storage := st\<rparr>)" "topic_ok (subs (w\<lparr>storage := st\<rparr>)) (topics w ! p)" for st
    using world_okD(1) [OF assms] world_ok_topic(1) [OF assms world_ok_lookup(2) [OF assms Some]]
    by (simp_all add: store_ok_def)
  from PublishMessage_eq [OF this] show ?thesis using Some
    by (simp add: Broker_PublishMessage_def GetTopic_eq world_okD [OF assms] published_def publication_def
        split: option.split prod.split)
qed

section \<open>Creating and deleting topics\<close>

definition new_topic :: "string \<Rightarrow> topic" where
  "new_topic n = \<lparr>topicName = n, subscribers = [], totalMessageCount = 0, maxSubscribers = MaxSubscribersPerTopic\<rparr>"

definition created :: "string \<Rightarrow> ('r, 'a) broker_scheme \<Rightarrow> ('r, 'a) broker_scheme" where
  "created n w = set_map n (gm_put n (length (topics w))) (w\<lparr>topics := topics w @ [new_topic n]\<rparr>)"

lemma Create_eq:
  assumes "world_ok w"
  shows "Broker_CreateTopic n w =
    (if n = [] then (Some ''topic_name_empty'', w)
     else if MaxTopicsLimit \<le> card (dom (lookup w)) then (Some ErrorCodeMaxTopicsReached, w)
     else if lookup w n \<noteq> None then (Some ''topic_already_exists'', w)
     else (None, created n w))"
proof -
  let ?i = "selectShardForTopic n"
  have "NewTopic n (replayBufferSize (shards w ! ?i)) (maxSubscribersPerTopic (shards w ! ?i)) = new_topic n"
    using world_okD(2) [OF assms] selectShard_lt [of n] by (simp add: NewTopic_def new_topic_def shards_ok_def)
  then show ?thesis
    using lookup_shard [OF world_okD(2) [OF assms], of n]
    by (auto simp: Broker_CreateTopic_def TotalTopicCount_card world_okD [OF assms] Shard_CreateTopic_def Let_def
        alloc_def created_def set_map_def)
qed

lemma world_ok_created:
  assumes "world_ok w" "n \<noteq> []" "lookup w n = None" "card (dom (lookup w)) < MaxTopicsLimit"
  shows "world_ok (created n w)" "lookup (created n w) = (lookup w)(n \<mapsto> length (topics w))"
proof -
  let ?w = "w\<lparr>topics := topics w @ [new_topic n]\<rparr>"
  have sh: "shards_ok ?w" using world_okD(2) [OF assms(1)] by (simp add: frame)
  show lk: "lookup (created n w) = (lookup w)(n \<mapsto> length (topics w))"
    using set_map_put [OF sh] by (simp add: created_def frame)
  have new: "topic_ok (subs w) (new_topic n)" "members (new_topic n) = {}"
    by (simp_all add: topic_ok_def new_topic_def MaxSubscribersPerTopic_def members_def gm_vals_def)
  have tops: "topics (created n w) = topics w @ [new_topic n]" by (simp add: created_def frame)
  have "objects_ok (created n w)"
    using assms(1) new(1) by (auto simp: world_ok_def objects_ok_def created_def frame store_ok_def new_topic_def)
  moreover have "names_ok (created n w)"
    unfolding names_ok_def lk tops
  proof (intro conjI allI impI)
    show "shards_ok (created n w)" using set_map_put [OF sh] by (simp add: created_def)
    show "card (dom ((lookup w)(n \<mapsto> length (topics w)))) \<le> MaxTopicsLimit"
      using assms(3,4) finite_lookup [OF assms(1)] by (simp add: card_insert_if domIff)
    fix n' p assume "((lookup w)(n \<mapsto> length (topics w))) n' = Some p"
    then have "n' = n \<and> p = length (topics w) \<or> n' \<noteq> n \<and> lookup w n' = Some p" by (auto split: if_splits)
    then show "n' \<noteq> []" "p < length (topics w @ [new_topic n])" "topicName ((topics w @ [new_topic n]) ! p) = n'"
      using assms(2) world_ok_lookup [OF assms(1), of n' p] by (auto simp: nth_append new_topic_def)
  qed
  moreover have "links_ok (created n w)"
    unfolding links_ok_def lk tops
  proof (intro allI impI)
    fix r n' assume "r < length (subs (created n w))"
    then have "r < length (subs w)" by (simp add: created_def frame)
    from links [OF assms(1) this, of n'] assms(3) new(2)
    show "gm_get (subscribedTopics (subs (created n w) ! r)) n' \<noteq> None \<longleftrightarrow>
        (\<exists>p. ((lookup w)(n \<mapsto> length (topics w))) n' = Some p \<and> r \<in> members ((topics w @ [new_topic n]) ! p))"
      using world_ok_lookup(2) [OF assms(1), of n']
      by (cases "n' = n") (auto simp: created_def frame nth_append)
  qed
  ultimately show "world_ok (created n w)" by (simp add: world_ok_def)
qed

text \<open>What a member of a deleted topic is told, and forgets.\<close>

definition after_deletion :: "string \<Rightarrow> time \<Rightarrow> subscriber \<Rightarrow> subscriber" where
  "after_deletion n t s = Subscriber_RemoveTopic n (after_send t (deleted_message n t) s)"

definition deleted :: "string \<Rightarrow> nat \<Rightarrow> ('r, 'a) broker_scheme \<Rightarrow> ('r, 'a) broker_scheme" where
  "deleted n p w = set_map n (gm_del n)
     (w\<lparr>subs := upd_at (members (topics w ! p)) (after_deletion n (clock w)) (subs w),
        topics := (topics w)[p := (topics w ! p)\<lparr>subscribers := []\<rparr>]\<rparr>)"

lemma Delete_eq:
  assumes "world_ok w"
  shows "Broker_DeleteTopic n w =
    (case lookup w n of None \<Rightarrow> Some (Some ''topic_not_found'', w)
     | Some p \<Rightarrow> Some (None, deleted n p w))"
proof (cases "lookup w n")
  case None
  then show ?thesis using lookup_shard [OF world_okD(2) [OF assms], of n]
    by (simp add: Broker_DeleteTopic_def Shard_DeleteTopic_def Let_def)
next
  case (Some p)
  note p = world_ok_lookup [OF assms Some]
  have fn: "(\<lambda>s. Subscriber_RemoveTopic n (after_send (clock w) (deleted_message n (clock w)) s)) = after_deletion n (clock w)"
    by (simp add: after_deletion_def fun_eq_iff)
  from CloseAll_eq [OF world_okD(1) [OF assms] world_ok_topic(1) [OF assms p(2)]] Some p(3)
    lookup_shard [OF world_okD(2) [OF assms], of n]
  show ?thesis
    by (simp add: Broker_DeleteTopic_def Shard_DeleteTopic_def Let_def deleted_def set_map_def fn)
qed

lemma after_deletion_ok:
  assumes "sub_ok s" "queue_refs_ok cs s"
  shows "sub_ok (after_deletion n t s)" "queue_refs_ok cs (after_deletion n t s)"
    "clientID (after_deletion n t s) = clientID s"
    "subscribedTopics (after_deletion n t s) = gm_del n (subscribedTopics s)"
proof -
  have "queue_refs_ok cs (after_send t (deleted_message n t) s)"
    using assms(2) by (rule queue_refs_after_send) (simp add: deleted_message_def zero_server_message_def)
  then show "sub_ok (after_deletion n t s)" "queue_refs_ok cs (after_deletion n t s)"
    "clientID (after_deletion n t s) = clientID s"
    "subscribedTopics (after_deletion n t s) = gm_del n (subscribedTopics s)"
    using assms(1) by (simp_all add: after_deletion_def frame)
qed

lemma members_empty [simp]: "members (t\<lparr>subscribers := []\<rparr>) = {}"
  by (simp add: members_def gm_vals_def)

lemma world_ok_deleted:
  assumes "world_ok w" "lookup w n = Some p"
  shows "world_ok (deleted n p w)" "lookup (deleted n p w) = (lookup w)(n := None)"
proof -
  note p = world_ok_lookup [OF assms]
  let ?ss = "upd_at (members (topics w ! p)) (after_deletion n (clock w)) (subs w)"
  let ?w = "w\<lparr>subs := ?ss, topics := (topics w)[p := (topics w ! p)\<lparr>subscribers := []\<rparr>]\<rparr>"
  have sh: "shards_ok ?w" using world_okD(2) [OF assms(1)] by (simp add: frame)
  show lk: "lookup (deleted n p w) = (lookup w)(n := None)"
    using set_map_del [OF sh] by (simp add: deleted_def frame)
  have fr: "subs (deleted n p w) = ?ss" "cells (deleted n p w) = cells w"
    "topics (deleted n p w) = (topics w)[p := (topics w ! p)\<lparr>subscribers := []\<rparr>]"
    by (simp_all add: deleted_def frame)
  have ss: "sub_ok (?ss ! r) \<and> queue_refs_ok (cells w) (?ss ! r) \<and> clientID (?ss ! r) = clientID (subs w ! r)"
    if "r < length (subs w)" for r
    using world_ok_sub [OF assms(1) that] that by (simp add: nth_upd_at after_deletion_ok)
  have "map clientID ?ss = map clientID (subs w)" by (rule map_clientID_cong) (simp_all add: ss)
  moreover have cong: "topic_ok ?ss t = topic_ok (subs w) t" for t by (rule topic_ok_cong) (simp_all add: ss)
  moreover have "topic_ok (subs w) ((topics w ! p)\<lparr>subscribers := []\<rparr>)"
    using world_ok_topic(2) [OF assms(1) p(2)] by (simp add: topic_ok_def MaxSubscribersPerTopic_def)
  moreover have "set (topics (deleted n p w)) \<subseteq> insert ((topics w ! p)\<lparr>subscribers := []\<rparr>) (set (topics w))"
    by (simp add: fr set_update_subset_insert)
  moreover have "store_ok (deleted n p w)"
    using ss by (auto simp: store_ok_def fr in_set_conv_nth)
  ultimately have obj: "objects_ok (deleted n p w)"
    using assms(1) world_ok_topic(2) [OF assms(1) p(2)]
    by (fastforce simp: objects_ok_def world_ok_def fr(1))
  have "card (dom ((lookup w)(n := None))) \<le> MaxTopicsLimit"
    using world_okD(4) [OF assms(1)] card_Diff1_le [of "dom (lookup w)" n] by simp
  moreover have "shards_ok (deleted n p w)" using set_map_del [OF sh] by (simp add: deleted_def)
  moreover have "topicName ((topics w)[p := (topics w ! p)\<lparr>subscribers := []\<rparr>] ! q) = topicName (topics w ! q)" for q
    using p(2) by (cases "q = p") simp_all
  ultimately have "names_ok (deleted n p w)"
    using world_ok_lookup [OF assms(1)] by (simp add: names_ok_def lk fr)
  moreover have "links_ok (deleted n p w)"
    unfolding links_ok_def lk fr
  proof (intro allI impI)
    fix r n' assume "r < length ?ss"
    then have r: "r < length (subs w)" by simp
    have g: "gm_ok (subscribedTopics (subs w ! r))" using world_ok_sub(1) [OF assms(1) r] by (simp add: sub_ok_def)
    have sub: "subscribedTopics (?ss ! r) = (if r \<in> members (topics w ! p) then gm_del n (subscribedTopics (subs w ! r))
        else subscribedTopics (subs w ! r))"
      using r world_ok_sub [OF assms(1) r] by (simp add: nth_upd_at after_deletion_ok)
    have "q \<noteq> p" if "n' \<noteq> n" "lookup w n' = Some q" for q using that lookup_inj [OF assms] by blast
    then show "gm_get (subscribedTopics (?ss ! r)) n' \<noteq> None \<longleftrightarrow>
        (\<exists>q. ((lookup w)(n := None)) n' = Some q \<and>
             r \<in> members ((topics w)[p := (topics w ! p)\<lparr>subscribers := []\<rparr>] ! q))"
      using links [OF assms(1) r, of n'] assms(2) g by (cases "n' = n") (auto simp: sub gm.get_del)
  qed
  ultimately show "world_ok (deleted n p w)" using obj by (simp add: world_ok_def)
qed

section \<open>The new broker\<close>

lemma placed_empty: "placed sel n (replicate n [])"
  by (simp add: placed_def)

lemma world_ok_new:
  assumes "NewBroker t st = Some w"
  shows "world_ok w" "lookup w = (\<lambda>_. None)" "subs w = []" "topics w = []" "cells w = []"
proof -
  obtain s where w: "w = \<lparr>clock = t, cells = [], subs = [], topics = [],
      shards = map (\<lambda>i. NewShard i ReplayBufferSize MaxSubscribersPerTopic) [0..<ShardCount], startTime = t, storage = s\<rparr>"
    using assms by (auto simp: NewBroker_def split: option.splits)
  have m: "map topicsMap (shards w) = replicate ShardCount []"
    by (simp add: w NewShard_def o_def map_replicate_const)
  show lk: "lookup w = (\<lambda>_. None)" using selectShard_lt by (simp add: lookup_def m flat_def fun_eq_iff)
  show fr: "subs w = []" "topics w = []" "cells w = []" by (simp_all add: w)
  have "shards_ok w" using placed_empty [of selectShardForTopic ShardCount]
    by (simp add: shards_ok_def m) (simp add: w NewShard_def)
  then show "world_ok w" using lk fr
    by (simp add: world_ok_def objects_ok_def names_ok_def links_ok_def store_ok_def)
qed

end
