(* ===== verification/Simulation.thy ===== *)
theory Simulation
  imports Go_Prelude
begin

text \<open>
  Runs of operations and forward simulation, as an interface: a component that implements
  an abstract specification provides a step, an invariant, an abstraction function and, for
  each of its operations, the abstract operation; the locale gives what follows for runs.
\<close>

fun run :: "('op \<Rightarrow> 's \<Rightarrow> ('o \<times> 's) option) \<Rightarrow> 'op list \<Rightarrow> 's \<Rightarrow> ('o list \<times> 's) option" where
  "run step [] s = Some ([], s)"
| "run step (x # xs) s = do {
     (y, s) \<leftarrow> step x s;
     (ys, s) \<leftarrow> run step xs s;
     Some (y # ys, s)
   }"

fun spec_run :: "('aop \<Rightarrow> 'a \<Rightarrow> 'o \<times> 'a) \<Rightarrow> 'aop list \<Rightarrow> 'a \<Rightarrow> 'o list \<times> 'a" where
  "spec_run astep [] a = ([], a)"
| "spec_run astep (x # xs) a =
     (let (y, a) = astep x a; (ys, a) = spec_run astep xs a in (y # ys, a))"

text \<open>The abstract operations of a concrete run: each depends on the state it starts in.\<close>

fun abs_ops :: "('op \<Rightarrow> 's \<Rightarrow> ('o \<times> 's) option) \<Rightarrow> ('op \<Rightarrow> 's \<Rightarrow> 'aop) \<Rightarrow> 'op list \<Rightarrow> 's \<Rightarrow> 'aop list" where
  "abs_ops step aop [] s = []"
| "abs_ops step aop (x # xs) s =
     aop x s # (case step x s of None \<Rightarrow> [] | Some (_, s) \<Rightarrow> abs_ops step aop xs s)"

lemma abs_ops_map:
  "(\<And>x s. x \<in> set xs \<Longrightarrow> aop x s = g x) \<Longrightarrow> run step xs s = Some r \<Longrightarrow> abs_ops step aop xs s = map g xs"
proof (induction xs arbitrary: s r)
  case (Cons x xs)
  obtain y s1 r1 where "step x s = Some (y, s1)" "run step xs s1 = Some r1"
    using Cons.prems(2) by (auto simp: bind_eq_Some_conv)
  then show ?case using Cons.IH [of s1 r1] Cons.prems(1) by simp
qed simp

locale simulation =
  fixes step :: "'op \<Rightarrow> 's \<Rightarrow> ('o \<times> 's) option"
    and astep :: "'aop \<Rightarrow> 'a \<Rightarrow> 'o \<times> 'a"
    and aop :: "'op \<Rightarrow> 's \<Rightarrow> 'aop"
    and abs :: "'s \<Rightarrow> 'a"
    and inv :: "'s \<Rightarrow> bool"
    and valid :: "'op \<Rightarrow> 's \<Rightarrow> bool"
  assumes sim: "inv s \<Longrightarrow> valid x s \<Longrightarrow>
      \<exists>y s'. step x s = Some (y, s') \<and> inv s' \<and> astep (aop x s) (abs s) = (y, abs s')"
    and valid_step: "inv s \<Longrightarrow> valid x s \<Longrightarrow> step x s = Some (y, s') \<Longrightarrow> valid z s \<Longrightarrow> valid z s'"
begin

lemma run_sim:
  assumes "inv s" "\<And>x. x \<in> set xs \<Longrightarrow> valid x s"
  shows "\<exists>ys s'. run step xs s = Some (ys, s') \<and> inv s' \<and>
    spec_run astep (abs_ops step aop xs s) (abs s) = (ys, abs s')"
  using assms
proof (induction xs arbitrary: s)
  case (Cons x xs)
  obtain y s1 where 1: "step x s = Some (y, s1)" "inv s1" "astep (aop x s) (abs s) = (y, abs s1)"
    using sim [of s x] Cons.prems by auto
  have "valid z s1" if "z \<in> set xs" for z
    using valid_step [OF Cons.prems(1) _ 1(1)] Cons.prems(2) that by simp
  from Cons.IH [OF 1(2) this] obtain ys s' where
    "run step xs s1 = Some (ys, s')" "inv s'" "spec_run astep (abs_ops step aop xs s1) (abs s1) = (ys, abs s')"
    by blast
  then show ?case using 1 by simp
qed simp

end

end
