(* ===== verification/Broker_Spec.thy ===== *)
theory Broker_Spec
  imports Broker_Inv Simulation
begin

text \<open>
  What the broker promises: a flat map from the names of the existing topics to the ids of
  their subscribers and the number of messages published to them, with the errors and the
  limits of \<^verbatim>\<open>broker.go\<close>. The broker of 32 shards, pointers and subscriber records is proved
  to refine it, operation by operation and over every run; and what a publication does to
  each subscriber is stated in full.
\<close>

section \<open>The specification\<close>

type_synonym broker_spec = "string \<Rightarrow> (string set \<times> 64 word) option"

datatype spec_op = SCreate string | SDelete string | SSubscribe string string
  | SUnsubscribe string string | SPublish string "go_error option"

fun spec_step :: "spec_op \<Rightarrow> broker_spec \<Rightarrow> go_error option \<times> broker_spec" where
  "spec_step (SCreate n) A =
     (if n = [] then (Some ''topic_name_empty'', A)
      else if MaxTopicsLimit \<le> card (dom A) then (Some ErrorCodeMaxTopicsReached, A)
      else if A n \<noteq> None then (Some ''topic_already_exists'', A)
      else (None, A(n \<mapsto> ({}, 0))))"
| "spec_step (SDelete n) A =
     (case A n of None \<Rightarrow> (Some ''topic_not_found'', A) | Some _ \<Rightarrow> (None, A(n := None)))"
| "spec_step (SSubscribe n c) A =
     (case A n of None \<Rightarrow> (Some ErrorCodeTopicNotFound, A)
      | Some (cs, k) \<Rightarrow>
          if c \<in> cs then (None, A)
          else if MaxSubscribersPerTopic \<le> int (card cs) then (Some ErrorCodeMaxSubscribers, A)
          else (None, A(n \<mapsto> (insert c cs, k))))"
| "spec_step (SUnsubscribe n c) A =
     (case A n of None \<Rightarrow> (Some ErrorCodeTopicNotFound, A)
      | Some (cs, k) \<Rightarrow> (None, A(n \<mapsto> (cs - {c}, k))))"
| "spec_step (SPublish n saved) A =
     (case A n of None \<Rightarrow> (Some ErrorCodeTopicNotFound, A)
      | Some (cs, k) \<Rightarrow>
        (case saved of Some e \<Rightarrow> (Some (''failed to persist message: '' @ e), A)
         | None \<Rightarrow> (None, A(n \<mapsto> (cs, k + 1)))))"

section \<open>The broker's operations\<close>

datatype broker_op = OpCreate string | OpDelete string | OpSubscribe string nat
  | OpUnsubscribe string string | OpPublish string message

fun broker_step :: "'r redis_api \<Rightarrow> broker_op \<Rightarrow> 'r broker \<Rightarrow> (go_error option \<times> 'r broker) option" where
  "broker_step R (OpCreate n) w = Some (Broker_CreateTopic n w)"
| "broker_step R (OpDelete n) w = Broker_DeleteTopic n w"
| "broker_step R (OpSubscribe n r) w = Some (Broker_SubscribeToTopic n r w)"
| "broker_step R (OpUnsubscribe n c) w = Some (Broker_UnsubscribeFromTopic n c w)"
| "broker_step R (OpPublish n m) w = Broker_PublishMessage R n m w"

text \<open>A subscriber pointer is valid; a publication carries the answer of the storage.\<close>

fun op_valid :: "broker_op \<Rightarrow> 'r broker \<Rightarrow> bool" where
  "op_valid (OpSubscribe n r) w = (r < length (subs w))"
| "op_valid _ w = True"

fun op_spec :: "'r redis_api \<Rightarrow> broker_op \<Rightarrow> 'r broker \<Rightarrow> spec_op" where
  "op_spec R (OpCreate n) w = SCreate n"
| "op_spec R (OpDelete n) w = SDelete n"
| "op_spec R (OpSubscribe n r) w = SSubscribe n (clientID (subs w ! r))"
| "op_spec R (OpUnsubscribe n c) w = SUnsubscribe n c"
| "op_spec R (OpPublish n m) w = SPublish n (fst (RedisStorage_SaveMessage R n m (storage w)))"

definition abs_topic :: "topic \<Rightarrow> string set \<times> 64 word" where
  "abs_topic t = (set (gm_keys (subscribers t)), totalMessageCount t)"

definition abs_broker :: "('r, 'a) broker_scheme \<Rightarrow> broker_spec" where
  "abs_broker w n = map_option (\<lambda>p. abs_topic (topics w ! p)) (lookup w n)"

section \<open>Refinement\<close>

lemma dom_abs [simp]: "dom (abs_broker w) = dom (lookup w)"
  by (auto simp: abs_broker_def dom_def)

lemma abs_updI:
  assumes "world_ok w" "lookup w' = lookup w" "lookup w n = Some p" "abs_topic (topics w' ! p) = x"
    "\<And>q. q \<noteq> p \<Longrightarrow> topics w' ! q = topics w ! q"
  shows "abs_broker w' = (abs_broker w)(n \<mapsto> x)"
proof
  fix n'
  have "q \<noteq> p" if "n' \<noteq> n" "lookup w n' = Some q" for q using that lookup_inj [OF assms(1,3)] by blast
  then show "abs_broker w' n' = ((abs_broker w)(n \<mapsto> x)) n'"
    using assms(2-5) by (cases "lookup w n'") (auto simp: abs_broker_def)
qed

lemma abs_joined:
  assumes "world_ok w" "lookup w n = Some p"
  shows "abs_broker (joined n p r w) =
    (abs_broker w)(n \<mapsto> (insert (clientID (subs w ! r)) (fst (abs_topic (topics w ! p))), snd (abs_topic (topics w ! p))))"
  using world_ok_lookup(2) [OF assms]
  by (intro abs_updI [OF assms(1) _ assms(2)])
    (simp_all add: joined_def frame abs_topic_def gm.set_keys_put relink_def)

lemma abs_left:
  assumes "world_ok w" "lookup w n = Some p" "gm_get (subscribers (topics w ! p)) c = Some r"
  shows "abs_broker (left_topic n p r w) =
    (abs_broker w)(n \<mapsto> (fst (abs_topic (topics w ! p)) - {c}, snd (abs_topic (topics w ! p))))"
proof -
  have t: "topic_ok (subs w) (topics w ! p)" using world_ok_topic(1) world_ok_lookup(2) assms by blast
  then have "clientID (subs w ! r) = c" "gm_ok (subscribers (topics w ! p))" using assms(3) by (auto simp: topic_ok_def)
  then show ?thesis using world_ok_lookup(2) [OF assms(1,2)]
    by (intro abs_updI [OF assms(1) _ assms(2)])
      (simp_all add: left_topic_def frame abs_topic_def gm.set_keys_del relink_def)
qed

lemma abs_published:
  assumes "world_ok w" "lookup w n = Some p"
  shows "abs_broker (published p m w) =
    (abs_broker w)(n \<mapsto> (fst (abs_topic (topics w ! p)), snd (abs_topic (topics w ! p)) + 1))"
  using world_ok_lookup(2) [OF assms]
  by (intro abs_updI [OF assms(1) _ assms(2)]) (simp_all add: published_def frame abs_topic_def)

lemma abs_created:
  assumes "world_ok w" "n \<noteq> []" "lookup w n = None" "card (dom (lookup w)) < MaxTopicsLimit"
  shows "abs_broker (created n w) = (abs_broker w)(n \<mapsto> ({}, 0))"
proof
  fix n'
  show "abs_broker (created n w) n' = ((abs_broker w)(n \<mapsto> ({}, 0))) n'"
    using world_ok_created(2) [OF assms] world_ok_lookup(2) [OF assms(1), of n']
    by (cases "lookup w n'") (auto simp: abs_broker_def created_def frame nth_append abs_topic_def new_topic_def gm_keys_def)
qed

lemma abs_deleted:
  assumes "world_ok w" "lookup w n = Some p"
  shows "abs_broker (deleted n p w) = (abs_broker w)(n := None)"
proof
  fix n'
  have "q \<noteq> p" if "n' \<noteq> n" "lookup w n' = Some q" for q using that lookup_inj [OF assms] by blast
  then show "abs_broker (deleted n p w) n' = ((abs_broker w)(n := None)) n'"
    using world_ok_deleted(2) [OF assms]
    by (cases "lookup w n'") (auto simp: abs_broker_def deleted_def frame)
qed

lemma abs_lookup:
  "lookup w n = None \<Longrightarrow> abs_broker w n = None"
  "lookup w n = Some p \<Longrightarrow> abs_broker w n = Some (abs_topic (topics w ! p))"
  by (simp_all add: abs_broker_def)

lemma abs_storage [simp]: "abs_broker (w\<lparr>storage := st\<rparr>) = abs_broker w"
  by (simp add: abs_broker_def fun_eq_iff frame)

text \<open>One lemma per operation: no panic, the invariant, and the abstract step.\<close>

definition refines_at :: "'r redis_api \<Rightarrow> broker_op \<Rightarrow> 'r broker \<Rightarrow> bool" where
  "refines_at R x w \<longleftrightarrow> (\<exists>e w'. broker_step R x w = Some (e, w') \<and> world_ok w' \<and> length (subs w') = length (subs w) \<and>
     spec_step (op_spec R x w) (abs_broker w) = (e, abs_broker w'))"

lemma create_refines: "world_ok w \<Longrightarrow> refines_at R (OpCreate n) w"
  by (auto simp: refines_at_def Create_eq abs_broker_def [of w n] abs_created world_ok_created)
    (auto simp: created_def frame)

lemma delete_refines: "world_ok w \<Longrightarrow> refines_at R (OpDelete n) w"
  by (cases "lookup w n")
    (auto simp: refines_at_def Delete_eq abs_lookup abs_deleted world_ok_deleted, simp add: deleted_def frame)

lemma members_card_keys:
  assumes "topic_ok ss t"
  shows "card (set (gm_keys (subscribers t))) = length (subscribers t)"
  using assms gm.len_card [of "subscribers t"] by (simp add: topic_ok_def)

lemma subscribe_refines:
  assumes "world_ok w" "r < length (subs w)"
  shows "refines_at R (OpSubscribe n r) w"
proof (cases "lookup w n")
  case None
  then show ?thesis using assms by (simp add: refines_at_def Subscribe_eq abs_lookup)
next
  case (Some p)
  note p = world_ok_lookup(2) [OF assms(1) Some]
  have key: "clientID (subs w ! r) \<in> set (gm_keys (subscribers (topics w ! p))) \<longleftrightarrow> r \<in> members (topics w ! p)"
    using member_key [OF assms(1) p assms(2)] by (simp add: gm.keys_get)
  have "length (subs (joined n p r w)) = length (subs w)" by (simp add: joined_def frame)
  then show ?thesis
    using Some assms key world_ok_joined [OF assms Some] abs_joined [OF assms(1) Some, of r]
      members_card_keys [OF world_ok_topic(1) [OF assms(1) p]]
    by (auto simp: refines_at_def Subscribe_eq abs_lookup abs_topic_def)
qed

lemma unsubscribe_refines:
  assumes "world_ok w"
  shows "refines_at R (OpUnsubscribe n c) w"
proof (cases "lookup w n")
  case None
  then show ?thesis using assms by (simp add: refines_at_def Unsubscribe_eq abs_lookup)
next
  case (Some p)
  show ?thesis
  proof (cases "gm_get (subscribers (topics w ! p)) c")
    case None
    then have "c \<notin> set (gm_keys (subscribers (topics w ! p)))" by (simp add: gm.keys_get)
    then have "abs_broker w = (abs_broker w)(n \<mapsto> (set (gm_keys (subscribers (topics w ! p))) - {c}, totalMessageCount (topics w ! p)))"
      using Some by (simp add: fun_eq_iff abs_lookup abs_topic_def)
    then show ?thesis using assms Some None by (simp add: refines_at_def Unsubscribe_eq abs_lookup abs_topic_def)
  next
    case (Some r)
    have "length (subs (left_topic n p r w)) = length (subs w)" by (simp add: left_topic_def frame)
    then show ?thesis
      using assms Some \<open>lookup w n = Some p\<close> world_ok_left [OF assms \<open>lookup w n = Some p\<close> Some]
        abs_left [OF assms \<open>lookup w n = Some p\<close> Some]
      by (simp add: refines_at_def Unsubscribe_eq abs_lookup abs_topic_def)
  qed
qed

lemma publish_refines:
  assumes "world_ok w"
  shows "refines_at R (OpPublish n m) w"
proof (cases "lookup w n")
  case None
  then show ?thesis using assms by (simp add: refines_at_def Publish_eq abs_lookup)
next
  case (Some p)
  obtain e st where save: "RedisStorage_SaveMessage R n m (storage w) = (e, st)" by (cases "RedisStorage_SaveMessage R n m (storage w)")
  let ?w = "w\<lparr>storage := st\<rparr>"
  have w: "world_ok ?w" "lookup ?w n = Some p" using assms Some by (simp_all add: frame)
  have "length (subs (published p m ?w)) = length (subs w)" by (simp add: published_def)
  then show ?thesis
    using Some assms save world_ok_published [OF w(1), of p m] world_ok_lookup(2) [OF assms Some] abs_published [OF w, of m]
    by (cases e) (simp_all add: refines_at_def Publish_eq abs_lookup abs_topic_def)
qed

lemma step_refines: "world_ok w \<Longrightarrow> op_valid x w \<Longrightarrow> refines_at R x w"
  by (cases x) (simp_all add: create_refines delete_refines subscribe_refines unsubscribe_refines publish_refines)

interpretation bs: simulation "broker_step R" spec_step "op_spec R" abs_broker world_ok op_valid for R
proof
  fix w :: "'a broker" and x
  assume "world_ok w" "op_valid x w"
  then show "\<exists>y w'. broker_step R x w = Some (y, w') \<and> world_ok w' \<and>
      spec_step (op_spec R x w) (abs_broker w) = (y, abs_broker w')"
    using step_refines [of w x R] by (auto simp: refines_at_def)
next
  fix w w' :: "'a broker" and x z y
  assume "world_ok w" "op_valid x w" "broker_step R x w = Some (y, w')" "op_valid z w"
  then show "op_valid z w'" using step_refines [of w x R] by (cases z) (auto simp: refines_at_def)
qed

text \<open>
  C1: refinement. Over every sequence of creations, deletions, subscriptions,
  unsubscriptions and publications, whatever Redis answers, the sharded broker returns
  (it never panics), gives exactly the errors and successes of the flat specification, ends
  in the state that abstracts to the specification's, and keeps its invariant.
\<close>

theorem broker_refines_spec:
  assumes "world_ok w" "\<And>x. x \<in> set xs \<Longrightarrow> op_valid x w"
  shows "\<exists>es w'. run (broker_step R) xs w = Some (es, w') \<and> world_ok w' \<and>
    spec_run spec_step (abs_ops (broker_step R) (op_spec R) xs w) (abs_broker w) = (es, abs_broker w')"
  using assms by (rule bs.run_sim)

text \<open>A broker on the Redis that never fails, for the witnesses.\<close>

definition example_broker :: "(string \<Rightarrow> blob list) broker" where
  "example_broker = the (NewBroker 0 (Some (mem_storage 100)))"

lemma example_broker_new: "NewBroker 0 (Some (mem_storage 100)) = Some example_broker"
  by (simp add: example_broker_def NewBroker_def)

lemmas example_broker_ok = world_ok_new [OF example_broker_new]

lemma abs_example [simp]: "abs_broker example_broker = (\<lambda>_. None)"
  by (simp add: abs_broker_def fun_eq_iff example_broker_ok(2))

theorem broker_refines_spec_witness:
  "\<exists>w'. run (broker_step mem_redis) [OpCreate ''a'', OpCreate ''a'', OpDelete ''a'', OpDelete ''a''] example_broker =
     Some ([None, Some ''topic_already_exists'', None, Some ''topic_not_found''], w') \<and> world_ok w'"
proof -
  let ?xs = "[OpCreate ''a'', OpCreate ''a'', OpDelete ''a'', OpDelete ''a'']"
  have v: "op_valid x example_broker" if "x \<in> set ?xs" for x using that by auto
  obtain es w' where w': "run (broker_step mem_redis) ?xs example_broker = Some (es, w')" "world_ok w'"
      "spec_run spec_step (abs_ops (broker_step mem_redis) (op_spec mem_redis) ?xs example_broker) (abs_broker example_broker) = (es, abs_broker w')"
    using broker_refines_spec [OF example_broker_ok(1) v, where R = mem_redis] by blast
  have "abs_ops (broker_step mem_redis) (op_spec mem_redis) ?xs example_broker =
      map (\<lambda>x. op_spec mem_redis x example_broker) ?xs"
    by (rule abs_ops_map [OF _ w'(1)]) auto
  with w'(3) have "es = [None, Some ''topic_already_exists'', None, Some ''topic_not_found'']"
    by (simp add: MaxTopicsLimit_def)
  with w'(1,2) show ?thesis by blast
qed

section \<open>Statistics\<close>

lemma ListAllTopics_map:
  "Broker_ListAllTopics w = map (\<lambda>(n, p). Topic_GetTopicInfo (topics w ! p)) (concat (map topicsMap (shards w)))"
  by (simp add: Broker_ListAllTopics_def Shard_GetAllTopics_def gm_vals_def map_concat o_def case_prod_unfold)

lemma live_topics:
  assumes "world_ok w"
  shows "distinct (map fst (concat (map topicsMap (shards w))))"
    "set (concat (map topicsMap (shards w))) = {(n, p). lookup w n = Some p}"
proof -
  have pl: "placed selectShardForTopic ShardCount (map topicsMap (shards w))"
    using world_okD(2) [OF assms] by (simp add: shards_ok_def)
  show "distinct (map fst (concat (map topicsMap (shards w))))" by (rule router.distinct_flat [OF pl])
  show "set (concat (map topicsMap (shards w))) = {(n, p). lookup w n = Some p}"
    using router.flat_iff [OF pl] by (fastforce simp: lookup_def)
qed

lemma ListAllTopics_name:
  assumes "world_ok w" "i \<in> set (Broker_ListAllTopics w)"
  shows "\<exists>A. abs_broker w (ti_name i) = Some A \<and> ti_subscribers i = card (fst A) \<and> ti_message_count i = snd A"
proof -
  obtain n p where np: "lookup w n = Some p" "i = Topic_GetTopicInfo (topics w ! p)"
    using assms live_topics(2) [OF assms(1)] by (auto simp: ListAllTopics_map)
  note p = world_ok_lookup [OF assms(1) np(1)]
  show ?thesis using np p members_card_keys [OF world_ok_topic(1) [OF assms(1) p(2)]]
    by (simp add: Topic_GetTopicInfo_def Topic_GetSubscriberCount_def Topic_GetTotalMessageCount_def
        abs_lookup abs_topic_def)
qed

lemma names_of_infos:
  assumes "world_ok w"
  shows "map ti_name (Broker_ListAllTopics w) = map fst (concat (map topicsMap (shards w)))"
  unfolding ListAllTopics_map map_map
proof (rule map_cong [OF refl])
  fix x assume "x \<in> set (concat (map topicsMap (shards w)))"
  then have "x \<in> {(n, p). lookup w n = Some p}" using live_topics(2) [OF assms] by blast
  then have "lookup w (fst x) = Some (snd x)" by (cases x) simp
  then show "(ti_name \<circ> (\<lambda>(n, p). Topic_GetTopicInfo (topics w ! p))) x = fst x"
    using world_ok_lookup(3) [OF assms] by (simp add: case_prod_unfold Topic_GetTopicInfo_def)
qed

lemma sum_by_topic:
  assumes "world_ok w"
  shows "(\<Sum>i \<leftarrow> Broker_ListAllTopics w. f (ti_name i)) = (\<Sum>n \<in> dom (lookup w). f n)"
proof -
  let ?ns = "map fst (concat (map topicsMap (shards w)))"
  have "(\<Sum>i \<leftarrow> Broker_ListAllTopics w. f (ti_name i)) = (\<Sum>n \<leftarrow> ?ns. f n)"
    unfolding names_of_infos [OF assms, symmetric] by (simp add: o_def)
  also have "\<dots> = (\<Sum>n \<in> set ?ns. f n)"
    by (rule sum_list_distinct_conv_sum_set [OF live_topics(1) [OF assms]])
  also have "set ?ns = dom (lookup w)" using live_topics(2) [OF assms] by (auto simp del: set_concat) force
  finally show ?thesis .
qed

lemma total_subscribers:
  "st_total_subscribers (Broker_GetStatistics w) = (\<Sum>i \<leftarrow> Broker_ListAllTopics w. ti_subscribers i)"
  by (simp add: Broker_GetStatistics_def Let_def foldl_add_sum_list)

lemma sum_list_concat: "sum_list (map f (concat xss)) = (\<Sum>xs \<leftarrow> xss. sum_list (map f xs))"
  by (induction xss) simp_all

lemma shard_totals:
  "(\<Sum>s \<leftarrow> Broker_GetShardStatistics w. ss_SubscriberCount s) = (\<Sum>i \<leftarrow> Broker_ListAllTopics w. ti_subscribers i)"
  "Broker_GetTotalSubscriberCount w = (\<Sum>i \<leftarrow> Broker_ListAllTopics w. ti_subscribers i)"
  by (simp_all add: Broker_GetShardStatistics_def ShardStatistics_eq TotalSubscriberCount_sum Broker_ListAllTopics_def
      Broker_GetTotalSubscriberCount_def foldl_add_sum_list sum_list_concat o_def Shard_GetAllTopics_def
      Topic_GetTopicInfo_def Topic_GetSubscriberCount_def)

text \<open>
  C25: the statistics are those of the specification. Every existing topic is listed once,
  with its number of subscribers and its message count; the totals are the number of topics
  and the sum of the subscribers over them; the health report, the total over the shards
  and the per-shard statistics give the same numbers.
\<close>

theorem statistics_correct:
  assumes "world_ok w"
  shows "distinct (map ti_name (st_topics (Broker_GetStatistics w))) \<and>
    ti_name ` set (st_topics (Broker_GetStatistics w)) = dom (abs_broker w) \<and>
    (\<forall>i \<in> set (st_topics (Broker_GetStatistics w)). \<exists>A. abs_broker w (ti_name i) = Some A \<and>
      ti_subscribers i = card (fst A) \<and> ti_message_count i = snd A) \<and>
    st_total_topics (Broker_GetStatistics w) = card (dom (abs_broker w)) \<and>
    st_total_subscribers (Broker_GetStatistics w) = (\<Sum>n \<in> dom (abs_broker w). card (fst (the (abs_broker w n)))) \<and>
    h_topics (Broker_GetHealthStatus w) = card (dom (abs_broker w)) \<and>
    h_subscribers (Broker_GetHealthStatus w) = Broker_GetTotalSubscriberCount w \<and>
    Broker_GetTotalSubscriberCount w = st_total_subscribers (Broker_GetStatistics w) \<and>
    (\<Sum>s \<leftarrow> Broker_GetShardStatistics w. ss_SubscriberCount s) = st_total_subscribers (Broker_GetStatistics w)"
proof -
  let ?l = "Broker_ListAllTopics w"
  have st: "st_topics (Broker_GetStatistics w) = ?l" "st_total_topics (Broker_GetStatistics w) = length ?l"
    by (simp_all add: Broker_GetStatistics_def Let_def)
  have names: "distinct (map ti_name ?l)" "set (map ti_name ?l) = dom (lookup w)"
    unfolding names_of_infos [OF assms] using live_topics [OF assms] by (auto simp: dom_def image_iff simp del: set_concat)
  have "length ?l = card (dom (lookup w))" using distinct_card [OF names(1)] names(2) by simp
  moreover have "(\<Sum>i \<leftarrow> ?l. ti_subscribers i) = (\<Sum>i \<leftarrow> ?l. card (fst (the (abs_broker w (ti_name i)))))"
    using ListAllTopics_name [OF assms] by (intro arg_cong [where f = sum_list] map_cong) force+
  moreover note sum_by_topic [OF assms, of "\<lambda>n. card (fst (the (abs_broker w n)))"]
  ultimately show ?thesis
    using names ListAllTopics_name [OF assms]
    by (simp add: st total_subscribers shard_totals Broker_GetHealthStatus_def Let_def)
qed

theorem statistics_correct_witness:
  "st_total_topics (Broker_GetStatistics example_broker) = 0"
  using statistics_correct [OF example_broker_ok(1)] by simp

section \<open>Fan-out\<close>

text \<open>
  C4: a successful publication. Every subscriber of the topic whose queue has room gets
  exactly this message, at the end of its queue, pointing to a new cell that holds the
  message; every subscriber of the topic with a full queue is closed with the slow-consumer
  error and keeps what was queued; closed subscribers and all others are untouched. The
  count of the topic goes up by one and nothing else of any topic changes.
\<close>

theorem publish_fanout:
  assumes "world_ok w" "lookup w n = Some p"
    and "RedisStorage_SaveMessage R n m (storage w) = (None, st)"
  shows "\<exists>w'. Broker_PublishMessage R n m w = Some (None, w') \<and> world_ok w' \<and> storage w' = st \<and>
    cells w' = cells w @ [m] \<and> length (subs w') = length (subs w) \<and>
    (\<forall>r < length (subs w).
       let s = subs w ! r; s' = subs w' ! r in
       if r \<notin> members (topics w ! p) \<or> isClosedFlag s then s' = s
       else if length (queue_of s) < chan_cap (messageQueue s)
       then queue_of s' = queue_of s @ [publication (topics w ! p) w] \<and> WebsocketConnection s' = WebsocketConnection s \<and>
            \<not> isClosedFlag s'
       else isClosedFlag s' \<and> queue_of s' = queue_of s \<and>
            WebsocketConnection s' = WebsocketConnection s @
              [SetWriteDeadline (clock w + 1 * second), WriteJSON (slow_consumer_message (clock w)), CloseConn]) \<and>
    deref (cells w') (publication (topics w ! p) w) =
      zero_server_message\<lparr>s_type := ''message'', s_topic := n, s_message := Some m, s_ts := clock w\<rparr> \<and>
    topics w' = (topics w)[p := (topics w ! p)\<lparr>totalMessageCount := totalMessageCount (topics w ! p) + 1\<rparr>]"
proof -
  let ?w = "w\<lparr>storage := st\<rparr>"
  have pub: "publication (topics w ! p) ?w = publication (topics w ! p) w" by (simp add: publication_def)
  have "world_ok (published p m ?w)"
    using world_ok_published [of ?w p m] assms(1) world_ok_lookup(2) [OF assms(1,2)] by simp
  moreover have "Broker_PublishMessage R n m w = Some (None, published p m ?w)"
    using assms by (simp add: Publish_eq)
  moreover have "deref (cells w @ [m]) (publication (topics w ! p) w) =
      zero_server_message\<lparr>s_type := ''message'', s_topic := n, s_message := Some m, s_ts := clock w\<rparr>"
    using world_ok_lookup(3) [OF assms(1,2)] by (simp add: deref_def publication_def zero_server_message_def nth_append)
  ultimately show ?thesis
    by (intro exI [of _ "published p m ?w"])
      (simp add: published_def pub nth_upd_at Let_def after_send_def has_room_def)
qed

definition example_subscribed :: "(string \<Rightarrow> blob list) broker" where
  "example_subscribed = joined ''a'' 0 0
     (created ''a'' (example_broker\<lparr>subs := [NewSubscriber ''c1'' [] 100]\<rparr>))"

lemma example_subscribed_ok:
  "world_ok example_subscribed" "lookup example_subscribed ''a'' = Some 0" "members (topics example_subscribed ! 0) = {0}"
  "subs example_subscribed = [Subscriber_AddTopic ''a'' (NewSubscriber ''c1'' [] 100)]"
  "storage example_subscribed = mem_storage 100"
proof -
  let ?w1 = "example_broker\<lparr>subs := [NewSubscriber ''c1'' [] 100]\<rparr>"
  let ?w2 = "created ''a'' ?w1"
  have 1: "world_ok ?w1"
    using world_ok_connect [OF example_broker_ok(1), of "NewSubscriber ''c1'' [] 100"] example_broker_ok(3)
    by (simp add: NewSubscriber_def make_chan_def sub_ok_def)
  have lk1: "lookup ?w1 = (\<lambda>_. None)" by (simp add: frame example_broker_ok(2))
  have 2: "world_ok ?w2" "lookup ?w2 = [''a'' \<mapsto> 0]"
    using world_ok_created [OF 1, of "''a''"] lk1 example_broker_ok(4) by (simp_all add: MaxTopicsLimit_def)
  have t2: "topics ?w2 = [new_topic ''a'']" "subs ?w2 = [NewSubscriber ''c1'' [] 100]"
    using example_broker_ok(4) by (simp_all add: created_def frame)
  have m0: "members (new_topic ''a'') = {}" by (simp add: members_def new_topic_def gm_vals_def)
  show "world_ok example_subscribed" unfolding example_subscribed_def
    by (rule world_ok_joined [OF 2(1)]) (simp_all add: 2(2) t2 m0, simp add: new_topic_def MaxSubscribersPerTopic_def)
  show "lookup example_subscribed ''a'' = Some 0" by (simp add: example_subscribed_def joined_def frame 2(2))
  show "members (topics example_subscribed ! 0) = {0}"
    by (simp add: example_subscribed_def joined_def relink_def t2 new_topic_def members_def gm_vals_def gm_put_def)
  show "subs example_subscribed = [Subscriber_AddTopic ''a'' (NewSubscriber ''c1'' [] 100)]"
    by (simp add: example_subscribed_def joined_def relink_def t2)
  show "storage example_subscribed = mem_storage 100"
    by (simp add: example_subscribed_def joined_def relink_def created_def frame example_broker_def NewBroker_def)
qed

theorem publish_fanout_witness:
  "\<exists>w'. Broker_PublishMessage mem_redis ''a'' (example_message ''m'' 7) example_subscribed = Some (None, w') \<and>
     queue_of (subs w' ! 0) = [publication (topics example_subscribed ! 0) example_subscribed]"
proof -
  obtain st where "RedisStorage_SaveMessage mem_redis ''a'' (example_message ''m'' 7) (storage example_subscribed) = (None, st)"
    using example_marshal [of "''m''" 7] by (auto simp: mem_save)
  from publish_fanout [OF example_subscribed_ok(1,2) this] obtain w' where
    "Broker_PublishMessage mem_redis ''a'' (example_message ''m'' 7) example_subscribed = Some (None, w')"
    "queue_of (subs w' ! 0) = [publication (topics example_subscribed ! 0) example_subscribed]"
    by (auto simp: example_subscribed_ok Let_def frame NewSubscriber_def make_chan_def dest: spec [of _ 0])
  then show ?thesis by blast
qed

text \<open>
  C26: Go leaves the order in which a map is ranged over open, and it does not matter: for
  every other order of the topic's subscriber map, a publication does the same to every
  subscriber, stores the same message and counts the same number of slow consumers.
\<close>

theorem publish_any_order:
  assumes "store_ok w" "topic_ok (subs w) t" "mset ss = mset (subscribers t)"
  shows "Topic_PublishMessage m (t\<lparr>subscribers := ss\<rparr>) w =
    map_option (\<lambda>(slow, t', w'). (slow, t'\<lparr>subscribers := ss\<rparr>, w')) (Topic_PublishMessage m t w)"
proof -
  have set: "set ss = set (subscribers t)" and fst: "mset (map fst ss) = mset (map fst (subscribers t))"
    using assms(3) by (metis mset_eq_setD, simp)
  have ok: "gm_ok ss" using assms(2) mset_eq_imp_distinct_iff [OF fst] by (simp add: topic_ok_def gm_ok_def)
  moreover have "gm_get ss k = Some r \<longleftrightarrow> gm_get (subscribers t) k = Some r" for k r
    using assms(2) ok set by (simp add: gm_get_iff topic_ok_def)
  ultimately have "topic_ok (subs w) (t\<lparr>subscribers := ss\<rparr>)"
    using assms(2) mset_eq_length [OF assms(3)] by (simp add: topic_ok_def)
  moreover have "members (t\<lparr>subscribers := ss\<rparr>) = members t" using set by (simp add: members_def gm_vals_def)
  ultimately show ?thesis
    using assms(1,2) by (simp add: PublishMessage_eq slow_members_def publication_def)
qed

definition example_store :: store where
  "example_store = \<lparr>clock = 0, cells = [], subs = [NewSubscriber ''a'' [] 1, NewSubscriber ''b'' [] 0]\<rparr>"

definition example_topic :: topic where
  "example_topic = \<lparr>topicName = ''t'', subscribers = [(''a'', 0), (''b'', 1)], totalMessageCount = 0, maxSubscribers = 2\<rparr>"

theorem publish_any_order_witness:
  "map_option (\<lambda>(slow, t, w). (slow, w))
      (Topic_PublishMessage zero_message (example_topic\<lparr>subscribers := [(''b'', 1), (''a'', 0)]\<rparr>) example_store) =
   map_option (\<lambda>(slow, t, w). (slow, w)) (Topic_PublishMessage zero_message example_topic example_store)"
proof -
  have w: "store_ok example_store"
    by (simp add: store_ok_def example_store_def queue_refs_ok_def NewSubscriber_def make_chan_def sub_ok_def)
  have t: "topic_ok (subs example_store) example_topic"
    by (auto simp: topic_ok_def example_topic_def example_store_def NewSubscriber_def gm_ok_def gm_get_def split: if_splits)
  have m: "mset [(''b'', 1), (''a'', 0)] = mset (subscribers example_topic)"
    by (simp add: example_topic_def add_mset_commute)
  show ?thesis
    unfolding publish_any_order [OF w t m] by (simp add: option.map_comp o_def case_prod_unfold)
qed

end
