(* ===== verification/Ws_Handler.thy ===== *)
theory Ws_Handler
  imports Broker_Spec
begin

text \<open>
  \<^verbatim>\<open>internal/ws/handler.go\<close>: the protocol handler of a WebSocket connection. The world is the
  broker with its store and the number of identifiers drawn so far. What is not in the
  repository is the record \<open>env\<close>: the Redis commands, what gorilla's \<open>WriteJSON\<close> returns,
  and the ULID generator, a function of the draw and of the clock. A read of the
  connection is an error or a JSON document.
\<close>

record 'r env =
  redis :: "'r redis_api"
  ws_writes :: ws_write
  ulid :: "nat \<Rightarrow> time \<Rightarrow> string"

record 'r world = "'r broker" +
  ulid_draws :: nat

text \<open>
  \<open>ulid E i t\<close> is the string of the i-th ULID, drawn at \<open>t\<close>. \<open>ulid.MustNew\<close> panics when its source of
  entropy returns an error; the source is the generator of crypto/rand, which is taken to
  deliver, as its documentation has it.
\<close>

definition generateClientID :: "'r env \<Rightarrow> 'r world \<Rightarrow> string \<times> 'r world" where
  "generateClientID E w = (ulid E (ulid_draws w) (clock w), w\<lparr>ulid_draws := Suc (ulid_draws w)\<rparr>)"

definition generateMessageID :: "'r env \<Rightarrow> 'r world \<Rightarrow> string \<times> 'r world" where
  "generateMessageID E w = (ulid E (ulid_draws w) (clock w), w\<lparr>ulid_draws := Suc (ulid_draws w)\<rparr>)"

text \<open>
  \<open>generateRandomString\<close> is not called. \<open>rnd i\<close> is the number \<open>rand.Int\<close> draws for the
  i-th byte; a negative length and an index outside the alphabet panic.
\<close>

definition charset :: string where
  "charset = ''abcdefghijklmnopqrstuvwxyzABCDEFGHIJKLMNOPQRSTUVWXYZ0123456789''"

definition generateRandomString :: "(nat \<Rightarrow> nat) \<Rightarrow> int \<Rightarrow> string option" where
  "generateRandomString rnd n =
     (if n < 0 \<or> (\<exists>i \<in> set [0..<nat n]. length charset \<le> rnd i) then None
      else Some (map (\<lambda>i. charset ! rnd i) [0..<nat n]))"

section \<open>Replies\<close>

definition send_to :: "nat \<Rightarrow> nat server_message \<Rightarrow> ('r, 'a) broker_scheme \<Rightarrow> ('r, 'a) broker_scheme option" where
  "send_to r m w = do {
     (_, s) \<leftarrow> Subscriber_SendMessage (clock w) m (subs w ! r);
     Some (w\<lparr>subs := (subs w)[r := s]\<rparr>)
   }"

definition ack_message :: "string \<Rightarrow> string \<Rightarrow> string \<Rightarrow> time \<Rightarrow> 'p server_message" where
  "ack_message req n info t = zero_server_message\<lparr>s_type := ''ack'', s_request_id := req, s_topic := n,
     s_info := info, s_ts := t\<rparr>"

definition error_message :: "string \<Rightarrow> string \<Rightarrow> string \<Rightarrow> time \<Rightarrow> 'p server_message" where
  "error_message req code text t = zero_server_message\<lparr>s_type := ''error'', s_request_id := req,
     s_error := Some \<lparr>e_code = code, e_message = text\<rparr>, s_ts := t\<rparr>"

definition pong_message :: "string \<Rightarrow> time \<Rightarrow> 'p server_message" where
  "pong_message req t = zero_server_message\<lparr>s_type := ''pong'', s_request_id := req, s_ts := t\<rparr>"

definition sendAck :: "nat \<Rightarrow> string \<Rightarrow> string \<Rightarrow> string \<Rightarrow> 'r world \<Rightarrow> 'r world option" where
  "sendAck r req n info w = send_to r (ack_message req n info (clock w)) w"

definition sendError :: "nat \<Rightarrow> string \<Rightarrow> string \<Rightarrow> string \<Rightarrow> 'r world \<Rightarrow> 'r world option" where
  "sendError r req code text w = send_to r (error_message req code text (clock w)) w"

section \<open>The client's requests\<close>

definition replay_message :: "string \<Rightarrow> nat \<Rightarrow> time \<Rightarrow> nat server_message" where
  "replay_message n p t = zero_server_message\<lparr>s_type := ''message'', s_topic := n, s_message := Some p, s_ts := t\<rparr>"

text \<open>
  \<open>for _, message := range replayMessages\<close> with \<open>&message\<close> in its body: \<^verbatim>\<open>go.mod\<close> says
  \<^verbatim>\<open>go 1.21\<close>, so the loop has one variable, the cell \<open>p\<close>, that every turn overwrites.
\<close>

fun replay_loop :: "nat \<Rightarrow> string \<Rightarrow> nat \<Rightarrow> message list \<Rightarrow> 'r world \<Rightarrow> 'r world option" where
  "replay_loop r n p [] w = Some w"
| "replay_loop r n p (message # ms) w = do {
     let w = w\<lparr>cells := (cells w)[p := message]\<rparr>;
     w \<leftarrow> send_to r (replay_message n p (clock w)) w;
     replay_loop r n p ms w
   }"

definition replay_all :: "nat \<Rightarrow> string \<Rightarrow> message list \<Rightarrow> 'r world \<Rightarrow> 'r world option" where
  "replay_all r n ms w =
     (let (p, cells1) = alloc zero_message (cells w) in replay_loop r n p ms (w\<lparr>cells := cells1\<rparr>))"

definition handleSubscribe :: "'r env \<Rightarrow> nat \<Rightarrow> client_message \<Rightarrow> 'r world \<Rightarrow> 'r world option" where
  "handleSubscribe E r cm w =
     (let n = c_topic cm; req = c_request_id cm; lastN = c_last_n cm in
      if n = [] then sendError r req ErrorCodeInvalidMessage ''Topic name is required'' w
      else if \<not> Broker_TopicExists n w
      then sendError r req ErrorCodeTopicNotFound (''Topic does not exist: '' @ n) w
      else case Broker_SubscribeToTopic n r w of
             (Some err, w) \<Rightarrow> sendError r req ErrorCodeInternalError err w
           | (None, w) \<Rightarrow> do {
               w \<leftarrow> (if lastN > 0
                    then (case Broker_GetReplayMessages (redis E) n lastN w of
                            Inr ms \<Rightarrow> replay_all r n ms w
                          | Inl _ \<Rightarrow> Some w)
                    else Some w);
               sendAck r req n ''subscribed'' w
             })"

definition handleUnsubscribe :: "nat \<Rightarrow> client_message \<Rightarrow> 'r world \<Rightarrow> 'r world option" where
  "handleUnsubscribe r cm w =
     (let n = c_topic cm; req = c_request_id cm in
      if n = [] then sendError r req ErrorCodeInvalidMessage ''Topic name is required'' w
      else case Broker_UnsubscribeFromTopic n (Subscriber_GetClientID (subs w ! r)) w of
             (Some err, w) \<Rightarrow> sendError r req ErrorCodeInternalError err w
           | (None, w) \<Rightarrow> sendAck r req n ''unsubscribed'' w)"

definition handlePublish :: "'r env \<Rightarrow> nat \<Rightarrow> client_message \<Rightarrow> 'r world \<Rightarrow> 'r world option" where
  "handlePublish E r cm w =
     (let n = c_topic cm; req = c_request_id cm in
      if n = [] then sendError r req ErrorCodeInvalidMessage ''Topic name is required'' w
      else case c_message cm of
        None \<Rightarrow> sendError r req ErrorCodeInvalidMessage ''Message is required'' w
      | Some data \<Rightarrow>
         (let (messageID, w) = (if m_id data = [] then generateMessageID E w else (m_id data, w));
              message = \<lparr>m_id = messageID, m_payload = m_payload data, m_ts = clock w\<rparr>
          in do {
            (err, w) \<leftarrow> Broker_PublishMessage (redis E) n message w;
            (case err of
               Some e \<Rightarrow> sendError r req ErrorCodeInternalError e w
             | None \<Rightarrow> sendAck r req n ''published'' w)
          }))"

definition handlePing :: "nat \<Rightarrow> client_message \<Rightarrow> 'r world \<Rightarrow> 'r world option" where
  "handlePing r cm w = send_to r (pong_message (c_request_id cm) (clock w)) w"

definition handleClientMessage :: "'r env \<Rightarrow> nat \<Rightarrow> client_message \<Rightarrow> 'r world \<Rightarrow> 'r world option" where
  "handleClientMessage E r cm w =
     (if c_type cm = ''subscribe'' then handleSubscribe E r cm w
      else if c_type cm = ''unsubscribe'' then handleUnsubscribe r cm w
      else if c_type cm = ''publish'' then handlePublish E r cm w
      else if c_type cm = ''ping'' then handlePing r cm w
      else sendError r (c_request_id cm) ErrorCodeInvalidMessage (''Unknown message type: '' @ c_type cm) w)"

section \<open>The connection\<close>

fun unsubscribe_all :: "nat \<Rightarrow> string list \<Rightarrow> 'r world \<Rightarrow> 'r world" where
  "unsubscribe_all r [] w = w"
| "unsubscribe_all r (n # ns) w =
     unsubscribe_all r ns (snd (Broker_UnsubscribeFromTopic n (Subscriber_GetClientID (subs w ! r)) w))"

definition cleanupSubscriber :: "nat \<Rightarrow> 'r world \<Rightarrow> 'r world option" where
  "cleanupSubscriber r w =
     (let subscribedTopics = Subscriber_GetSubscribedTopics (subs w ! r);
          w = unsubscribe_all r subscribedTopics w
      in do {
        s \<leftarrow> Subscriber_Close (subs w ! r);
        Some (w\<lparr>subs := (subs w)[r := s]\<rparr>)
      })"

definition set_read_deadline :: "nat \<Rightarrow> 'r world \<Rightarrow> 'r world" where
  "set_read_deadline r w = sub_update r (conn_do [SetReadDeadline (clock w + 5 * minute)]) w"

text \<open>
  The read loop over what the connection delivers. Running out of reads is the loop still
  blocked in \<open>ReadJSON\<close> (\<open>False\<close>); a failed read, or a document that does not decode, ends
  it and runs the deferred cleanup (\<open>True\<close>).
\<close>

fun read_loop :: "'r env \<Rightarrow> nat \<Rightarrow> (go_error + json) list \<Rightarrow> 'r world \<Rightarrow> (bool \<times> 'r world) option" where
  "read_loop E r [] w = Some (False, w)"
| "read_loop E r (d # ds) w =
     (case (case d of Inl _ \<Rightarrow> None | Inr j \<Rightarrow> unmarshal_client_message j) of
        None \<Rightarrow> do { w \<leftarrow> cleanupSubscriber r w; Some (True, w) }
      | Some cm \<Rightarrow> do {
          w \<leftarrow> handleClientMessage E r cm (set_read_deadline r w);
          read_loop E r ds w
        })"

definition handleConnection :: "'r env \<Rightarrow> nat \<Rightarrow> (go_error + json) list \<Rightarrow> 'r world \<Rightarrow> (bool \<times> 'r world) option" where
  "handleConnection E r ds w = read_loop E r ds (set_read_deadline r w)"

text \<open>The upgrade of the request, done by gorilla, gives a new connection or fails.\<close>

definition connect :: "'r env \<Rightarrow> 'r world \<Rightarrow> nat \<times> 'r world" where
  "connect E w =
     (let (cid, w) = generateClientID E w;
          (r, subs1) = alloc (NewSubscriber cid [] SubscriberQueueSize) (subs w)
      in (r, w\<lparr>subs := subs1\<rparr>))"

definition HandleWebSocket :: "'r env \<Rightarrow> bool \<Rightarrow> (go_error + json) list \<Rightarrow> 'r world \<Rightarrow> (bool \<times> 'r world) option" where
  "HandleWebSocket E upgraded ds w =
     (if \<not> upgraded then Some (True, w)
      else let (r, w) = connect E w in handleConnection E r ds w)"

end
