(* ===== verification/Ws_Correct.thy ===== *)
theory Ws_Correct
  imports Ws_Handler
begin

text \<open>
  What the protocol handler guarantees: every request is handled without a panic and keeps
  the invariant; while its queue has room a client gets, for each request, exactly one
  reply with the request's id, the one \<open>expected_reply\<close> gives; cleaning up removes the
  client from every topic. And what it does not: a replay of several messages queues
  pointers to one variable, and one of a full buffer disconnects the client.
\<close>

section \<open>Sending to one subscriber\<close>

definition sent :: "nat \<Rightarrow> nat server_message \<Rightarrow> ('r, 'a) broker_scheme \<Rightarrow> ('r, 'a) broker_scheme" where
  "sent r m w = w\<lparr>subs := (subs w)[r := after_send (clock w) m (subs w ! r)]\<rparr>"

definition pointer_ok :: "nat server_message \<Rightarrow> ('r, 'a) broker_scheme \<Rightarrow> bool" where
  "pointer_ok m w \<longleftrightarrow> (\<forall>p. s_message m = Some p \<longrightarrow> p < length (cells w))"

lemma send_to_eq: "world_ok w \<Longrightarrow> r < length (subs w) \<Longrightarrow> send_to r m w = Some (sent r m w)"
  by (simp add: send_to_def sent_def SendMessage_eq world_ok_sub)

lemma sent_frame [frame]:
  "clock (sent r m w) = clock w" "cells (sent r m w) = cells w" "topics (sent r m w) = topics w"
  "lookup (sent r m w) = lookup w" "storage (sent r m w) = storage w" "length (subs (sent r m w)) = length (subs w)"
  by (simp_all add: sent_def frame)

lemma sent_nth: "q < length (subs w) \<Longrightarrow> subs (sent r m w) ! q =
    (if q = r then after_send (clock w) m (subs w ! r) else subs w ! q)"
  by (auto simp: sent_def)

lemma world_ok_sent:
  assumes "world_ok w" "r < length (subs w)" "pointer_ok m w"
  shows "world_ok (sent r m w)"
proof -
  have "world_ok (w\<lparr>cells := cells w, subs := (subs w)[r := after_send (clock w) m (subs w ! r)]\<rparr>)"
  proof (rule world_ok_queues [OF assms(1)])
    fix q assume q: "q < length (subs w)"
    have "queue_refs_ok (cells w) (after_send (clock w) m (subs w ! r))"
      using assms(3) world_ok_sub(2) [OF assms(1,2)] by (auto simp: pointer_ok_def intro: queue_refs_after_send)
    then show "sub_ok ((subs w)[r := after_send (clock w) m (subs w ! r)] ! q) \<and>
        queue_refs_ok (cells w) ((subs w)[r := after_send (clock w) m (subs w ! r)] ! q) \<and>
        clientID ((subs w)[r := after_send (clock w) m (subs w ! r)] ! q) = clientID (subs w ! q) \<and>
        subscribedTopics ((subs w)[r := after_send (clock w) m (subs w ! r)] ! q) = subscribedTopics (subs w ! q)"
      using world_ok_sub [OF assms(1) q] q by (cases "q = r") (simp_all add: frame)
  qed simp
  then show ?thesis by (simp add: sent_def)
qed

text \<open>Room for \<open>k\<close> more messages, and a queue that has grown by exactly some messages.\<close>

definition room :: "nat \<Rightarrow> nat \<Rightarrow> ('r, 'a) broker_scheme \<Rightarrow> bool" where
  "room k r w \<longleftrightarrow> \<not> isClosedFlag (subs w ! r) \<and>
     length (queue_of (subs w ! r)) + k \<le> chan_cap (messageQueue (subs w ! r))"

definition gained :: "nat \<Rightarrow> nat server_message list \<Rightarrow> ('r, 'a) broker_scheme \<Rightarrow> ('r, 'a) broker_scheme \<Rightarrow> bool" where
  "gained r ms w w' \<longleftrightarrow> queue_of (subs w' ! r) = queue_of (subs w ! r) @ ms \<and>
     isClosedFlag (subs w' ! r) = isClosedFlag (subs w ! r) \<and>
     chan_cap (messageQueue (subs w' ! r)) = chan_cap (messageQueue (subs w ! r))"

lemma gained_refl: "gained r [] w w"
  by (simp add: gained_def)

lemma gained_trans: "gained r ms w w' \<Longrightarrow> gained r ms' w' w'' \<Longrightarrow> gained r (ms @ ms') w w''"
  by (simp add: gained_def)

lemma room_gained: "room (length ms + k) r w \<Longrightarrow> gained r ms w w' \<Longrightarrow> room k r w'"
  by (simp add: room_def gained_def)

lemma room_le: "room k r w \<Longrightarrow> j \<le> k \<Longrightarrow> room j r w"
  by (simp add: room_def)

lemma sent_gained: "r < length (subs w) \<Longrightarrow> room 1 r w \<Longrightarrow> gained r [m] w (sent r m w)"
  by (simp add: gained_def sent_nth after_send_def has_room_def room_def)

section \<open>Broker operations seen from one subscriber\<close>

lemma joined_gained: "r < length (subs w) \<Longrightarrow> q < length (subs w) \<Longrightarrow> gained q [] w (joined n p r w)"
  by (cases "q = r") (simp_all add: gained_def joined_def relink_nth frame)

lemma left_gained: "r < length (subs w) \<Longrightarrow> q < length (subs w) \<Longrightarrow> gained q [] w (left_topic n p r w)"
  by (cases "q = r") (simp_all add: gained_def left_topic_def relink_nth frame)

lemma published_gained:
  assumes "q < length (subs w)" "room 1 q w"
  shows "gained q (if q \<in> members (topics w ! p) then [publication (topics w ! p) w] else []) w (published p m w)"
  using assms by (auto simp: gained_def published_def nth_upd_at after_send_def has_room_def room_def)

lemma fields_after [frame]:
  "clock (joined n p r w) = clock w" "clock (left_topic n p r w) = clock w" "clock (published p m w) = clock w"
  "length (subs (joined n p r w)) = length (subs w)" "length (subs (left_topic n p r w)) = length (subs w)"
  "length (subs (published p m w)) = length (subs w)" "lookup (joined n p r w) = lookup w"
  "lookup (left_topic n p r w) = lookup w" "lookup (published p m w) = lookup w"
  "storage (joined n p r w) = storage w" "cells (joined n p r w) = cells w" "storage (left_topic n p r w) = storage w"
  by (simp_all add: joined_def left_topic_def published_def frame relink_def)

section \<open>The replay loop\<close>

definition replayed :: "nat \<Rightarrow> string \<Rightarrow> nat \<Rightarrow> message list \<Rightarrow> 'r world \<Rightarrow> 'r world" where
  "replayed r n p ms w = fold (\<lambda>m w. sent r (replay_message n p (clock w)) (w\<lparr>cells := (cells w)[p := m]\<rparr>)) ms w"

lemma world_ok_cell:
  assumes "world_ok w"
  shows "world_ok (w\<lparr>cells := (cells w)[p := m]\<rparr>)" "world_ok (w\<lparr>cells := cells w @ [m]\<rparr>)"
proof -
  have "world_ok (w\<lparr>cells := cs, subs := subs w\<rparr>)" if "length (cells w) \<le> length cs" for cs
    using that world_ok_sub [OF assms] by (intro world_ok_queues [OF assms]) (fastforce simp: queue_refs_ok_def)+
  from this [of "(cells w)[p := m]"] this [of "cells w @ [m]"]
  show "world_ok (w\<lparr>cells := (cells w)[p := m]\<rparr>)" "world_ok (w\<lparr>cells := cells w @ [m]\<rparr>)" by simp_all
qed

lemma replay_loop_eq:
  assumes "world_ok w" "r < length (subs w)" "p < length (cells w)"
  shows "replay_loop r n p ms w = Some (replayed r n p ms w) \<and> world_ok (replayed r n p ms w) \<and>
    length (subs (replayed r n p ms w)) = length (subs w) \<and> clock (replayed r n p ms w) = clock w \<and>
    lookup (replayed r n p ms w) = lookup w \<and>
    cells (replayed r n p ms w) = (if ms = [] then cells w else (cells w)[p := last ms])"
  using assms
proof (induction ms arbitrary: w)
  case (Cons m ms)
  let ?w1 = "w\<lparr>cells := (cells w)[p := m]\<rparr>"
  let ?w2 = "sent r (replay_message n p (clock w)) ?w1"
  have 1: "world_ok ?w1" "r < length (subs ?w1)" using Cons.prems by (simp_all add: world_ok_cell)
  have 2: "world_ok ?w2"
    using Cons.prems by (intro world_ok_sent 1) (simp add: pointer_ok_def replay_message_def)
  have "send_to r (replay_message n p (clock w)) ?w1 = Some ?w2" by (rule send_to_eq [OF 1])
  then show ?case using Cons.IH [OF 2] Cons.prems by (simp add: replayed_def frame)
qed (simp add: replayed_def)

lemma replayed_gained:
  assumes "r < length (subs w)" "room (length ms) r w"
  shows "gained r (replicate (length ms) (replay_message n p (clock w))) w (replayed r n p ms w)"
  using assms
proof (induction ms arbitrary: w)
  case (Cons m ms)
  let ?w1 = "w\<lparr>cells := (cells w)[p := m]\<rparr>"
  let ?w2 = "sent r (replay_message n p (clock w)) ?w1"
  have g: "gained r [replay_message n p (clock w)] w ?w2"
    using sent_gained [of r ?w1] Cons.prems by (simp add: gained_def room_def)
  have "gained r (replicate (length ms) (replay_message n p (clock ?w2))) ?w2 (replayed r n p ms ?w2)"
    using Cons.prems room_gained [of "[replay_message n p (clock w)]" "length ms" r w ?w2] g
    by (intro Cons.IH) (simp_all add: frame)
  from gained_trans [OF g this] show ?case by (simp add: replayed_def frame)
qed (simp add: replayed_def gained_refl)

section \<open>One reply per request\<close>

text \<open>The reply the protocol promises, from the request and the abstract state of the broker.\<close>

definition published_message :: "'r env \<Rightarrow> message \<Rightarrow> 'r world \<Rightarrow> message" where
  "published_message E d w = \<lparr>m_id = (if m_id d = [] then ulid E (ulid_draws w) (clock w) else m_id d),
     m_payload = m_payload d, m_ts = clock w\<rparr>"

definition expected_reply :: "'r env \<Rightarrow> nat \<Rightarrow> client_message \<Rightarrow> 'r world \<Rightarrow> nat server_message" where
  "expected_reply E r cm w =
     (let n = c_topic cm; req = c_request_id cm; t = clock w; A = abs_broker w;
          err = (\<lambda>code text. error_message req code text t); ack = (\<lambda>info. ack_message req n info t) in
      if c_type cm = ''subscribe'' then
        (if n = [] then err ErrorCodeInvalidMessage ''Topic name is required''
         else case A n of
           None \<Rightarrow> err ErrorCodeTopicNotFound (''Topic does not exist: '' @ n)
         | Some (cs, _) \<Rightarrow>
             if clientID (subs w ! r) \<in> cs \<or> int (card cs) < MaxSubscribersPerTopic then ack ''subscribed''
             else err ErrorCodeInternalError ErrorCodeMaxSubscribers)
      else if c_type cm = ''unsubscribe'' then
        (if n = [] then err ErrorCodeInvalidMessage ''Topic name is required''
         else if A n = None then err ErrorCodeInternalError ErrorCodeTopicNotFound
         else ack ''unsubscribed'')
      else if c_type cm = ''publish'' then
        (if n = [] then err ErrorCodeInvalidMessage ''Topic name is required''
         else case c_message cm of
           None \<Rightarrow> err ErrorCodeInvalidMessage ''Message is required''
         | Some d \<Rightarrow>
             if A n = None then err ErrorCodeInternalError ErrorCodeTopicNotFound
             else case fst (RedisStorage_SaveMessage (redis E) n (published_message E d w) (storage w)) of
                    Some e \<Rightarrow> err ErrorCodeInternalError (''failed to persist message: '' @ e)
                  | None \<Rightarrow> ack ''published'')
      else if c_type cm = ''ping'' then pong_message req t
      else err ErrorCodeInvalidMessage (''Unknown message type: '' @ c_type cm))"

text \<open>The messages a subscription replays before its acknowledgement.\<close>

definition replays :: "'r env \<Rightarrow> client_message \<Rightarrow> 'r world \<Rightarrow> message list" where
  "replays E cm w =
     (if c_last_n cm > 0
      then (case Broker_GetReplayMessages (redis E) (c_topic cm) (c_last_n cm) w of Inl _ \<Rightarrow> [] | Inr ms \<Rightarrow> ms)
      else [])"

text \<open>
  What serving subscriber \<open>r\<close> leaves alone: who every subscriber is, how long its queue may
  grow, that a closed one is closed, and the topics of all but \<open>r\<close>.
\<close>

definition sub_kept :: "bool \<Rightarrow> subscriber \<Rightarrow> subscriber \<Rightarrow> bool" where
  "sub_kept other s s' \<longleftrightarrow> same_client s s' \<and> (isClosedFlag s \<longrightarrow> isClosedFlag s') \<and>
     (other \<longrightarrow> subscribedTopics s' = subscribedTopics s)"

definition kept :: "nat \<Rightarrow> 'r world \<Rightarrow> 'r world \<Rightarrow> bool" where
  "kept r w w' \<longleftrightarrow> length (subs w') = length (subs w) \<and> ulid_draws w \<le> ulid_draws w' \<and>
     (\<forall>q < length (subs w). sub_kept (q \<noteq> r) (subs w ! q) (subs w' ! q))"

lemma sub_kept_refl [simp]: "sub_kept b s s"
  by (simp add: sub_kept_def)

lemma sub_kept_trans: "sub_kept b s s' \<Longrightarrow> sub_kept b s' s'' \<Longrightarrow> sub_kept b s s''"
  by (auto simp: sub_kept_def same_client_def)

lemma kept_len: "kept r w w' \<Longrightarrow> length (subs w') = length (subs w)"
  by (simp add: kept_def)

lemma kept_subs: "subs w' = subs w \<Longrightarrow> ulid_draws w \<le> ulid_draws w' \<Longrightarrow> kept r w w'"
  by (simp add: kept_def)

lemma kept_refl [simp]: "kept r w w"
  by (simp add: kept_subs)

lemma kept_trans: "kept r w w' \<Longrightarrow> kept r w' w'' \<Longrightarrow> kept r w w''"
  unfolding kept_def using sub_kept_trans by (metis order_trans)

lemma sub_kept_send: "sub_kept b s (after_send t m s)"
  by (simp add: sub_kept_def same_client_def frame) (simp add: after_send_def)

text \<open>
  The result \<open>res\<close> of serving subscriber \<open>r\<close> from \<open>w\<close>: no panic, the invariant, and, with
  room for \<open>k\<close> messages, deliveries followed by the reply.
\<close>

definition served :: "nat \<Rightarrow> nat \<Rightarrow> nat server_message \<Rightarrow> 'r world \<Rightarrow> 'r world option \<Rightarrow> bool" where
  "served k r rep w res \<longleftrightarrow> (\<exists>w'. res = Some w' \<and> world_ok w' \<and> kept r w w' \<and> clock w' = clock w \<and>
     (room k r w \<longrightarrow> (\<exists>pre. gained r (pre @ [rep]) w w' \<and> (\<forall>m \<in> set pre. s_type m = ''message''))))"

lemma map_ids_eq: "length ss = length ss' \<Longrightarrow> (\<And>q. q < length ss' \<Longrightarrow> clientID (ss ! q) = clientID (ss' ! q)) \<Longrightarrow>
    map clientID ss = map clientID ss'"
  by (rule nth_equalityI) simp_all

lemma kept_sent: "r < length (subs w) \<Longrightarrow> kept r w (sent r m w)"
  by (simp add: kept_def frame sent_nth sub_kept_send) (simp add: sent_def)

lemma served_send:
  assumes "world_ok w" "r < length (subs w)" "pointer_ok m w"
  shows "served 1 r m w (send_to r m w)"
  using assms by (auto simp: served_def send_to_eq world_ok_sent kept_sent frame sent_gained intro!: exI [of _ "[]"])

lemma served_after:
  assumes "served k r rep w1 res" "kept r w w1" "clock w1 = clock w"
    "room (length pre + k) r w \<Longrightarrow> gained r pre w w1" "\<forall>m \<in> set pre. s_type m = ''message''"
  shows "served (length pre + k) r rep w res"
proof -
  obtain w' where w': "res = Some w'" "world_ok w'" "kept r w1 w'" "clock w' = clock w1"
    "room k r w1 \<longrightarrow> (\<exists>pre. gained r (pre @ [rep]) w1 w' \<and> (\<forall>m \<in> set pre. s_type m = ''message''))"
    using assms(1) by (auto simp: served_def)
  have "\<exists>pre'. gained r (pre' @ [rep]) w w' \<and> (\<forall>m \<in> set pre'. s_type m = ''message'')" if rm: "room (length pre + k) r w"
  proof -
    obtain pre2 where "gained r (pre2 @ [rep]) w1 w'" "\<forall>m \<in> set pre2. s_type m = ''message''"
      using w'(5) room_gained [OF rm assms(4) [OF rm]] by blast
    with gained_trans [OF assms(4) [OF rm] this(1)] assms(5) show ?thesis
      by (intro exI [of _ "pre @ pre2"]) auto
  qed
  moreover have "kept r w w'" by (rule kept_trans [OF assms(2) w'(3)])
  ultimately show ?thesis unfolding served_def using w'(1,2,4) assms(3) by (intro exI [of _ w']) simp
qed

lemma served_mono: "served j r rep w res \<Longrightarrow> j \<le> k \<Longrightarrow> served k r rep w res"
  unfolding served_def using room_le by blast

lemma no_pointer [simp]:
  "pointer_ok (ack_message req n info t) w" "pointer_ok (error_message req code text t) w" "pointer_ok (pong_message req t) w"
  by (simp_all add: pointer_ok_def ack_message_def error_message_def pong_message_def zero_server_message_def)

lemma served_error: "world_ok w \<Longrightarrow> r < length (subs w) \<Longrightarrow> served 1 r (error_message req code text (clock w)) w (sendError r req code text w)"
  unfolding sendError_def by (rule served_send) simp_all

lemma served_ack: "world_ok w \<Longrightarrow> r < length (subs w) \<Longrightarrow> served 1 r (ack_message req n info (clock w)) w (sendAck r req n info w)"
  unfolding sendAck_def by (rule served_send) simp_all

lemma kept_relink:
  assumes "r < length (subs w)" "sub_kept False (subs w ! r) s"
  shows "kept r w (relink r s p t w)"
  using assms by (auto simp: kept_def frame relink_nth) (simp add: relink_def)

lemma kept_relinked:
  assumes "r < length (subs w)"
  shows "kept r w (joined n p r w)" "kept r w (left_topic n p r w)"
  using kept_relink [OF assms] by (simp_all add: joined_def left_topic_def frame sub_kept_def same_client_def)

lemma kept_published: "kept r w (published p m w)"
  by (simp add: kept_def published_def nth_upd_at sub_kept_send)

lemma kept_replayed: "r < length (subs w) \<Longrightarrow> kept r w (replayed r n p ms w)"
proof (induction ms arbitrary: w)
  case (Cons m ms)
  let ?w1 = "w\<lparr>cells := (cells w)[p := m]\<rparr>"
  let ?w2 = "sent r (replay_message n p (clock w)) ?w1"
  have "kept r w ?w2" using kept_sent [of r ?w1] Cons.prems by (simp add: kept_def)
  with Cons.IH [of ?w2] Cons.prems show ?case by (simp add: replayed_def frame) (blast intro: kept_trans)
qed (simp add: replayed_def)

lemma abs_none: "abs_broker w n = None \<longleftrightarrow> lookup w n = None"
  by (simp add: abs_broker_def)

text \<open>Subscribing: the step of the broker, the replay, the acknowledgement.\<close>

lemma replay_served:
  assumes "world_ok w" "r < length (subs w)"
  shows "served (length (replays E cm w) + 1) r (ack_message req n info (clock w)) w (do {
       w \<leftarrow> (if c_last_n cm > 0
            then (case Broker_GetReplayMessages (redis E) (c_topic cm) (c_last_n cm) w of
                    Inr ms \<Rightarrow> replay_all r (c_topic cm) ms w
                  | Inl _ \<Rightarrow> Some w)
            else Some w);
       sendAck r req n info w
     })"
proof (cases "c_last_n cm > 0 \<and> (\<exists>ms. Broker_GetReplayMessages (redis E) (c_topic cm) (c_last_n cm) w = Inr ms)")
  case False
  then have "replays E cm w = []" by (auto simp: replays_def split: sum.splits)
  then show ?thesis using False served_ack [OF assms, of req n info] by (auto split: sum.splits)
next
  case True
  then obtain ms where ms: "c_last_n cm > 0" "Broker_GetReplayMessages (redis E) (c_topic cm) (c_last_n cm) w = Inr ms" by blast
  let ?w1 = "w\<lparr>cells := cells w @ [zero_message]\<rparr>"
  let ?w2 = "replayed r (c_topic cm) (length (cells w)) ms ?w1"
  have 1: "world_ok ?w1" "r < length (subs ?w1)" "length (cells w) < length (cells ?w1)"
    using world_ok_cell(2) [OF assms(1)] assms(2) by simp_all
  note 2 = replay_loop_eq [OF 1, of "c_topic cm" ms]
  have "kept r w ?w2" using kept_replayed [of r ?w1] assms(2) by (simp add: kept_def)
  moreover have "gained r (replicate (length ms) (replay_message (c_topic cm) (length (cells w)) (clock w))) w ?w2"
    if "room (length ms + 1) r w"
    using replayed_gained [of r ?w1 ms "c_topic cm" "length (cells w)"] that assms(2) by (simp add: gained_def room_def)
  moreover have "served 1 r (ack_message req n info (clock w)) ?w2 (sendAck r req n info ?w2)"
    using served_ack [of ?w2 r] 2 assms(2) by simp
  ultimately have "served (length ms + 1) r (ack_message req n info (clock w)) w (sendAck r req n info ?w2)"
    using served_after [of 1 r "ack_message req n info (clock w)" ?w2 "sendAck r req n info ?w2" w
        "replicate (length ms) (replay_message (c_topic cm) (length (cells w)) (clock w))"] 2
    by (auto simp: replay_message_def)
  moreover have "replays E cm w = ms" using ms by (simp add: replays_def)
  ultimately show ?thesis using ms 2 by (simp add: replay_all_def alloc_def)
qed

lemma replays_joined: "replays E cm (joined n p r w) = replays E cm w"
  by (simp add: replays_def Broker_GetReplayMessages_def frame)

lemma key_in_abs:
  assumes "world_ok w" "r < length (subs w)" "lookup w n = Some p"
  shows "clientID (subs w ! r) \<in> fst (abs_topic (topics w ! p)) \<longleftrightarrow> r \<in> members (topics w ! p)"
    "card (fst (abs_topic (topics w ! p))) = length (subscribers (topics w ! p))"
  using member_key [OF assms(1) world_ok_lookup(2) [OF assms(1,3)] assms(2)]
    members_card_keys [OF world_ok_topic(1) [OF assms(1) world_ok_lookup(2) [OF assms(1,3)]]]
  by (simp_all add: abs_topic_def gm.keys_get)

lemma subscribe_served:
  assumes "world_ok w" "r < length (subs w)" "c_type cm = ''subscribe''"
  shows "served (length (replays E cm w) + 1) r (expected_reply E r cm w) w (handleSubscribe E r cm w)"
proof (cases "c_topic cm = [] \<or> lookup w (c_topic cm) = None")
  case True
  then show ?thesis
    using assms served_mono [OF served_error [OF assms(1,2)], of "length (replays E cm w) + 1"]
    by (auto simp: handleSubscribe_def expected_reply_def Let_def TopicExists_eq world_okD abs_none abs_lookup)
next
  case False
  then obtain p where p: "lookup w (c_topic cm) = Some p" "c_topic cm \<noteq> []" by auto
  note key = key_in_abs [OF assms(1,2) p(1)]
  let ?in = "r \<in> members (topics w ! p)"
  let ?full = "MaxSubscribersPerTopic \<le> int (length (subscribers (topics w ! p)))"
  have rep: "expected_reply E r cm w = (if ?in \<or> \<not> ?full
      then ack_message (c_request_id cm) (c_topic cm) ''subscribed'' (clock w)
      else error_message (c_request_id cm) ErrorCodeInternalError ErrorCodeMaxSubscribers (clock w))"
    using p key assms(3) by (auto simp: expected_reply_def Let_def abs_lookup case_prod_unfold)
  have ex: "Broker_TopicExists (c_topic cm) w" using p by (simp add: TopicExists_eq world_okD [OF assms(1)])
  consider (member) ?in | (full) "\<not> ?in" ?full | (new) "\<not> ?in" "\<not> ?full" by blast
  then show ?thesis
  proof cases
    case member
    then show ?thesis using replay_served [OF assms(1,2)] p ex rep assms
      by (simp add: handleSubscribe_def Let_def Subscribe_eq)
  next
    case full
    then show ?thesis using served_mono [OF served_error [OF assms(1,2)], of "length (replays E cm w) + 1"] p ex rep assms
      by (simp add: handleSubscribe_def Let_def Subscribe_eq)
  next
    case new
    let ?w1 = "joined (c_topic cm) p r w"
    have "world_ok ?w1" using world_ok_joined [OF assms(1,2) p(1)] new by simp
    then have "served (length (replays E cm w) + 1) r (expected_reply E r cm w) ?w1 (handleSubscribe E r cm w)"
      using replay_served [of ?w1 r E cm] new p ex rep assms
      by (simp add: handleSubscribe_def Let_def Subscribe_eq replays_joined frame)
    from served_after [OF this kept_relinked(1) [OF assms(2)], of "[]"] joined_gained [OF assms(2,2)]
    show ?thesis by (simp add: frame)
  qed
qed

lemma unsubscribe_served:
  assumes "world_ok w" "r < length (subs w)" "c_type cm = ''unsubscribe''"
  shows "served 1 r (expected_reply E r cm w) w (handleUnsubscribe r cm w)"
proof (cases "c_topic cm = [] \<or> lookup w (c_topic cm) = None")
  case True
  then show ?thesis
    using assms served_error [OF assms(1,2)]
    by (auto simp: handleUnsubscribe_def expected_reply_def Let_def Unsubscribe_eq abs_none)
next
  case False
  then obtain p where p: "lookup w (c_topic cm) = Some p" "c_topic cm \<noteq> []" by auto
  note mk = member_key [OF assms(1) world_ok_lookup(2) [OF assms(1) p(1)] assms(2)]
  have rep: "expected_reply E r cm w = ack_message (c_request_id cm) (c_topic cm) ''unsubscribed'' (clock w)"
    using p assms(3) by (simp add: expected_reply_def Let_def abs_none)
  show ?thesis
  proof (cases "r \<in> members (topics w ! p)")
    case False
    then show ?thesis using served_ack [OF assms(1,2)] p rep assms mk
      by (simp add: handleUnsubscribe_def Let_def Unsubscribe_eq)
  next
    case True
    let ?w1 = "left_topic (c_topic cm) p r w"
    have "world_ok ?w1" using world_ok_left [OF assms(1) p(1)] mk True by simp
    then have "served 1 r (expected_reply E r cm w) ?w1 (handleUnsubscribe r cm w)"
      using served_ack [of ?w1 r] True p rep assms mk
      by (simp add: handleUnsubscribe_def Let_def Unsubscribe_eq frame)
    from served_after [OF this kept_relinked(2) [OF assms(2)], of "[]"] left_gained [OF assms(2,2)]
    show ?thesis by (simp add: frame)
  qed
qed

lemma draw_frame [frame]: "lookup (w\<lparr>ulid_draws := k\<rparr>) = lookup w" "world_ok (w\<lparr>ulid_draws := k\<rparr>) = world_ok w"
  by (simp_all add: lookup_def world_ok_def objects_ok_def names_ok_def links_ok_def shards_ok_def store_ok_def)

text \<open>What \<open>handlePublish\<close> does once its message is complete and its topic exists.\<close>

lemma publication_served:
  assumes "world_ok w" "r < length (subs w)" "lookup w n = Some p"
  shows "served 2 r (case fst (RedisStorage_SaveMessage (redis E) n m (storage w)) of
        Some x \<Rightarrow> error_message q ErrorCodeInternalError (''failed to persist message: '' @ x) (clock w)
      | None \<Rightarrow> ack_message q n ''published'' (clock w)) w
    (do { (err, w) \<leftarrow> Broker_PublishMessage (redis E) n m w;
          (case err of Some e \<Rightarrow> sendError r q ErrorCodeInternalError e w | None \<Rightarrow> sendAck r q n ''published'' w) })"
    (is "served 2 r ?rep w ?run")
proof -
  obtain e st where save: "RedisStorage_SaveMessage (redis E) n m (storage w) = (e, st)"
    by (cases "RedisStorage_SaveMessage (redis E) n m (storage w)")
  let ?w1 = "w\<lparr>storage := st\<rparr>"
  have w1: "world_ok ?w1" "r < length (subs ?w1)" "kept r w ?w1"
    using assms(1,2) by (simp_all add: kept_subs)
  have pub: "Broker_PublishMessage (redis E) n m w = (case e of
      Some x \<Rightarrow> Some (Some (''failed to persist message: '' @ x), ?w1) | None \<Rightarrow> Some (None, published p m ?w1))"
    using Publish_eq [OF assms(1), of "redis E" n m] assms(3) save by (cases e) simp_all
  show ?thesis
  proof (cases e)
    case (Some x)
    have "served 2 r ?rep ?w1 ?run"
      unfolding pub save using served_mono [OF served_error [OF w1(1,2)], of 2] by (simp add: Some)
    from served_after [OF this w1(3), of "[]"] show ?thesis by (simp add: gained_def numeral_2_eq_2)
  next
    case None
    let ?w2 = "published p m ?w1"
    let ?pre = "if r \<in> members (topics ?w1 ! p) then [publication (topics ?w1 ! p) ?w1] else []"
    have p: "p < length (topics ?w1)" using world_ok_lookup(2) [OF assms(1,3)] by simp
    have w2: "world_ok ?w2" "r < length (subs ?w2)" "clock ?w2 = clock w"
      using world_ok_published [OF w1(1) p] w1(2) by (simp_all add: frame)
    have "served 1 r ?rep ?w2 ?run"
      unfolding pub save using served_ack [OF w2(1,2)] w2(3) by (simp add: None)
    moreover have "kept r w ?w2" by (rule kept_trans [OF w1(3) kept_published])
    moreover have "gained r ?pre w ?w2" if "room (length ?pre + 1) r w"
      using published_gained [OF w1(2), of p m] room_le [OF that, of 1] by (simp add: gained_def room_def)
    ultimately have "served (length ?pre + 1) r ?rep w ?run"
      using served_after [of 1 r ?rep ?w2 ?run w ?pre] w2(3) by (simp add: publication_def)
    then show ?thesis by (rule served_mono) simp
  qed
qed

lemma publish_served:
  assumes "world_ok w" "r < length (subs w)" "c_type cm = ''publish''"
  shows "served 2 r (expected_reply E r cm w) w (handlePublish E r cm w)"
proof (cases "c_topic cm = [] \<or> c_message cm = None")
  case True
  then show ?thesis
    using assms served_mono [OF served_error [OF assms(1,2)], of 2]
    by (auto simp: handlePublish_def expected_reply_def Let_def)
next
  case False
  then obtain d where d: "c_message cm = Some d" "c_topic cm \<noteq> []" by auto
  let ?m = "published_message E d w"
  let ?w0 = "if m_id d = [] then w\<lparr>ulid_draws := Suc (ulid_draws w)\<rparr> else w"
  have w0: "world_ok ?w0" "lookup ?w0 = lookup w" "kept r w ?w0" "clock ?w0 = clock w" "storage ?w0 = storage w"
    "subs ?w0 = subs w"
    using assms(1) by (simp_all add: frame kept_subs)
  have h: "handlePublish E r cm w = do {
      (err, w) \<leftarrow> Broker_PublishMessage (redis E) (c_topic cm) ?m ?w0;
      (case err of Some e \<Rightarrow> sendError r (c_request_id cm) ErrorCodeInternalError e w
       | None \<Rightarrow> sendAck r (c_request_id cm) (c_topic cm) ''published'' w) }"
    using d by (simp add: handlePublish_def generateMessageID_def published_message_def Let_def)
  have after0: "served 2 r rep w res" if "served 2 r rep ?w0 res" for rep res
    using served_after [OF that w0(3,4), of "[]"] w0(6) by (simp add: gained_def numeral_2_eq_2)
  have r: "r < length (subs ?w0)" using assms(2) w0(6) by simp
  show ?thesis
  proof (cases "lookup w (c_topic cm)")
    case None
    have "handlePublish E r cm w = sendError r (c_request_id cm) ErrorCodeInternalError ErrorCodeTopicNotFound ?w0"
      unfolding h using None w0(2) by (simp only: Publish_eq [OF w0(1)]) simp
    moreover have "expected_reply E r cm w = error_message (c_request_id cm) ErrorCodeInternalError ErrorCodeTopicNotFound (clock ?w0)"
      unfolding w0(4) using d None assms(3) by (simp add: expected_reply_def Let_def abs_none)
    ultimately show ?thesis
      using after0 [OF served_mono [OF served_error [OF w0(1) r]]] by (metis one_le_numeral)
  next
    case (Some p)
    have "lookup ?w0 (c_topic cm) = Some p" unfolding w0(2) by (rule Some)
    note run = after0 [OF publication_served [OF w0(1) r this]]
    have rep: "expected_reply E r cm w = (case fst (RedisStorage_SaveMessage (redis E) (c_topic cm) ?m (storage ?w0)) of
        Some x \<Rightarrow> error_message (c_request_id cm) ErrorCodeInternalError (''failed to persist message: '' @ x) (clock ?w0)
      | None \<Rightarrow> ack_message (c_request_id cm) (c_topic cm) ''published'' (clock ?w0))"
      unfolding w0(4,5) using d Some assms(3) by (simp add: expected_reply_def Let_def abs_none split: option.split)
    show ?thesis unfolding h rep by (rule run)
  qed
qed

lemma client_served:
  assumes "world_ok w" "r < length (subs w)"
  shows "served (length (replays E cm w) + 2) r (expected_reply E r cm w) w (handleClientMessage E r cm w)"
proof -
  consider "c_type cm = ''subscribe''" | "c_type cm = ''unsubscribe''" | "c_type cm = ''publish''"
    | "c_type cm = ''ping''" | "c_type cm \<notin> {''subscribe'', ''unsubscribe'', ''publish'', ''ping''}" by blast
  then show ?thesis
  proof cases
    case 1
    then show ?thesis using served_mono [OF subscribe_served [OF assms 1]] by (simp add: handleClientMessage_def)
  next
    case 2
    then show ?thesis using served_mono [OF unsubscribe_served [OF assms 2]] by (simp add: handleClientMessage_def)
  next
    case 3
    then show ?thesis using served_mono [OF publish_served [OF assms 3]] by (simp add: handleClientMessage_def)
  next
    case 4
    have "served 1 r (pong_message (c_request_id cm) (clock w)) w (handlePing r cm w)"
      unfolding handlePing_def by (rule served_send [OF assms]) simp
    then show ?thesis using served_mono 4 by (fastforce simp: handleClientMessage_def expected_reply_def Let_def)
  next
    case 5
    then show ?thesis using served_mono [OF served_error [OF assms]]
      by (simp add: handleClientMessage_def expected_reply_def Let_def)
  qed
qed

text \<open>
  C3: one reply per request. Whatever a client sends and whatever Redis answers, handling
  it does not panic and keeps the invariant of broker and topics. If the client's queue has
  room for two messages more than the replay it asked for, its queue grows by deliveries of
  type "message" followed by exactly the reply that the protocol promises for this request
  in this state: acknowledgement, pong, or the error with its code and text, carrying the
  request's id.
\<close>

theorem request_reply:
  assumes "world_ok w" "r < length (subs w)"
  shows "\<exists>w'. handleClientMessage E r cm w = Some w' \<and> world_ok w' \<and> length (subs w') = length (subs w) \<and>
    (\<not> isClosedFlag (subs w ! r) \<and>
     length (queue_of (subs w ! r)) + length (replays E cm w) + 2 \<le> chan_cap (messageQueue (subs w ! r)) \<longrightarrow>
     \<not> isClosedFlag (subs w' ! r) \<and>
     (\<exists>deliveries. queue_of (subs w' ! r) = queue_of (subs w ! r) @ deliveries @ [expected_reply E r cm w] \<and>
        (\<forall>m \<in> set deliveries. s_type m = ''message''))) \<and>
    s_request_id (expected_reply E r cm w) = c_request_id cm \<and>
    s_type (expected_reply E r cm w) \<in> {''ack'', ''error'', ''pong''}"
proof -
  note client_served [OF assms, of E cm]
  moreover have "s_request_id (expected_reply E r cm w) = c_request_id cm \<and>
      s_type (expected_reply E r cm w) \<in> {''ack'', ''error'', ''pong''}"
    by (simp add: expected_reply_def Let_def error_message_def ack_message_def pong_message_def zero_server_message_def
        split: option.split)
  ultimately show ?thesis
    by (fastforce simp: served_def room_def gained_def dest: kept_len)
qed

text \<open>A world on the example broker, for the witnesses.\<close>

definition example_world :: "(string \<Rightarrow> blob list) world" where
  "example_world = broker.extend example_subscribed \<lparr>ulid_draws = 1\<rparr>"

definition example_env :: "(string \<Rightarrow> blob list) env" where
  "example_env = \<lparr>redis = mem_redis, ws_writes = (\<lambda>c h f. None), ulid = (\<lambda>k t. replicate k (CHR ''x''))\<rparr>"

lemma extend_frame [frame]:
  "subs (broker.extend w x) = subs w" "topics (broker.extend w x) = topics w" "cells (broker.extend w x) = cells w"
  "clock (broker.extend w x) = clock w" "storage (broker.extend w x) = storage w"
  "lookup (broker.extend w x) = lookup w" "world_ok (broker.extend w x) = world_ok w"
  by (simp_all add: broker.defs lookup_def world_ok_def objects_ok_def names_ok_def links_ok_def shards_ok_def store_ok_def)

lemma example_world_ok:
  "world_ok example_world" "lookup example_world ''a'' = Some 0" "members (topics example_world ! 0) = {0}"
  "subs example_world = [Subscriber_AddTopic ''a'' (NewSubscriber ''c1'' [] 100)]"
  "storage example_world = mem_storage 100"
  by (simp_all add: example_world_def frame example_subscribed_ok)

definition example_request :: client_message where
  "example_request = zero_client_message\<lparr>c_type := ''unsubscribe'', c_topic := ''zzz'', c_request_id := ''r1''\<rparr>"

lemma example_zzz: "lookup example_world ''zzz'' = None"
proof -
  have "lookup example_subscribed = [''a'' \<mapsto> 0]"
    using world_ok_created [OF world_ok_connect [OF example_broker_ok(1), of "NewSubscriber ''c1'' [] 100"], of "''a''"]
      example_broker_ok(2-4)
    by (simp add: example_subscribed_def joined_def frame MaxTopicsLimit_def NewSubscriber_def make_chan_def sub_ok_def)
  then show ?thesis by (simp add: example_world_def frame)
qed

theorem request_reply_witness:
  "\<exists>w'. handleClientMessage example_env 0 example_request example_world = Some w' \<and>
     \<not> isClosedFlag (subs w' ! 0) \<and> (\<exists>deliveries. queue_of (subs w' ! 0) =
       deliveries @ [error_message ''r1'' ''INTERNAL_ERROR'' ''TOPIC_NOT_FOUND'' (clock example_world)])"
proof -
  have rep: "expected_reply example_env 0 example_request example_world =
      error_message ''r1'' ''INTERNAL_ERROR'' ''TOPIC_NOT_FOUND'' (clock example_world)"
    by (simp add: expected_reply_def Let_def example_request_def zero_client_message_def abs_none example_zzz
        error_code_defs)
  have q: "queue_of (subs example_world ! 0) = []" "\<not> isClosedFlag (subs example_world ! 0)"
    "chan_cap (messageQueue (subs example_world ! 0)) = 100" "replays example_env example_request example_world = []"
    by (simp_all add: example_world_ok frame NewSubscriber_def make_chan_def replays_def example_request_def zero_client_message_def)
  have "0 < length (subs example_world)" by (simp add: example_world_ok)
  from request_reply [OF example_world_ok(1) this, of example_env example_request] q rep
  show ?thesis by auto
qed

section \<open>Cleaning up\<close>

lemma unsub_once:
  fixes n :: string
  assumes "world_ok w" "r < length (subs w)"
  defines "w' \<equiv> snd (Broker_UnsubscribeFromTopic n (clientID (subs w ! r)) w)"
  shows "world_ok w'" "lookup w' = lookup w" "kept r w w'" "\<And>q. q < length (subs w) \<Longrightarrow> q \<noteq> r \<Longrightarrow> subs w' ! q = subs w ! q"
    "\<And>p. members (topics w' ! p) = members (topics w ! p) - (if lookup w n = Some p then {r} else {})"
    "\<And>p. totalMessageCount (topics w' ! p) = totalMessageCount (topics w ! p)"
proof -
  have "world_ok w' \<and> lookup w' = lookup w \<and> kept r w w' \<and> (\<forall>q < length (subs w). q \<noteq> r \<longrightarrow> subs w' ! q = subs w ! q) \<and>
    (\<forall>p. members (topics w' ! p) = members (topics w ! p) - (if lookup w n = Some p then {r} else {})) \<and>
    (\<forall>p. totalMessageCount (topics w' ! p) = totalMessageCount (topics w ! p))"
  proof (cases "lookup w n")
    case None
    then show ?thesis using assms(1) by (simp add: w'_def Unsubscribe_eq)
  next
    case (Some p)
    note p = world_ok_lookup(2) [OF assms(1) Some]
    note mk = member_key [OF assms(1) p assms(2)]
    show ?thesis
    proof (cases "r \<in> members (topics w ! p)")
      case False
      then show ?thesis using assms(1) Some mk by (auto simp: w'_def Unsubscribe_eq)
    next
      case True
      then have g: "gm_get (subscribers (topics w ! p)) (clientID (subs w ! r)) = Some r" using mk by simp
      then have w': "w' = left_topic n p r w" using assms(1) Some by (simp add: w'_def Unsubscribe_eq)
      have top: "topics w' ! q = (if q = p then (topics w ! p)\<lparr>subscribers := gm_del (clientID (subs w ! r)) (subscribers (topics w ! p))\<rparr>
          else topics w ! q)" for q
        using p by (simp add: w' left_topic_def relink_def)
      show ?thesis
        using world_ok_left [OF assms(1) Some g] kept_relinked(2) [OF assms(2)] Some
          members_del [OF world_ok_topic(1) [OF assms(1) p] g]
        by (auto simp: top) (auto simp: w' left_topic_def relink_nth frame)
    qed
  qed
  then show "world_ok w'" "lookup w' = lookup w" "kept r w w'"
    "\<And>q. q < length (subs w) \<Longrightarrow> q \<noteq> r \<Longrightarrow> subs w' ! q = subs w ! q"
    "\<And>p. members (topics w' ! p) = members (topics w ! p) - (if lookup w n = Some p then {r} else {})"
    "\<And>p. totalMessageCount (topics w' ! p) = totalMessageCount (topics w ! p)" by blast+
qed

lemma unsub_all:
  assumes "world_ok w" "r < length (subs w)"
  shows "world_ok (unsubscribe_all r ns w) \<and> lookup (unsubscribe_all r ns w) = lookup w \<and>
    kept r w (unsubscribe_all r ns w) \<and>
    (\<forall>q < length (subs w). q \<noteq> r \<longrightarrow> subs (unsubscribe_all r ns w) ! q = subs w ! q) \<and>
    (\<forall>p. members (topics (unsubscribe_all r ns w) ! p) =
       members (topics w ! p) - (if \<exists>n \<in> set ns. lookup w n = Some p then {r} else {})) \<and>
    (\<forall>p. totalMessageCount (topics (unsubscribe_all r ns w) ! p) = totalMessageCount (topics w ! p))"
  using assms
proof (induction ns arbitrary: w)
  case (Cons n ns)
  let ?w = "snd (Broker_UnsubscribeFromTopic n (clientID (subs w ! r)) w)"
  note u = unsub_once [OF Cons.prems, where n = n]
  have "r < length (subs ?w)" using Cons.prems(2) kept_len [OF u(3)] by simp
  note IH = Cons.IH [OF u(1) this]
  then show ?case using u kept_trans [OF u(3)] kept_len [OF u(3)] by auto
qed simp

lemma cleanup_full:
  assumes "world_ok w" "r < length (subs w)"
  shows "\<exists>w'. cleanupSubscriber r w = Some w' \<and> world_ok w' \<and> lookup w' = lookup w \<and> kept r w w' \<and>
    isClosedFlag (subs w' ! r) \<and> subscribedTopics (subs w' ! r) = [] \<and>
    (\<forall>q < length (subs w). q \<noteq> r \<longrightarrow> subs w' ! q = subs w ! q) \<and>
    (\<forall>n p. lookup w n = Some p \<longrightarrow> members (topics w' ! p) = members (topics w ! p) - {r} \<and>
       totalMessageCount (topics w' ! p) = totalMessageCount (topics w ! p))"
proof -
  let ?ns = "Subscriber_GetSubscribedTopics (subs w ! r)"
  let ?w1 = "unsubscribe_all r ?ns w"
  note u = unsub_all [OF assms, of ?ns]
  have r: "r < length (subs ?w1)" using u assms(2) kept_len by metis
  have mem: "members (topics ?w1 ! p) = members (topics w ! p) - {r}" if "lookup w n = Some p" for n p
  proof (cases "r \<in> members (topics w ! p)")
    case True
    then have "n \<in> set ?ns"
      using links [OF assms, of n] that by (auto simp: Subscriber_GetSubscribedTopics_def gm.keys_get)
    then show ?thesis using u that by auto
  qed (use u in auto)
  define s where "s = the (Subscriber_Close (subs ?w1 ! r))"
  have close: "Subscriber_Close (subs ?w1 ! r) = Some s" and s: "sub_ok s" "isClosedFlag s" "clientID s = clientID (subs ?w1 ! r)"
      "subscribedTopics s = subscribedTopics (subs ?w1 ! r)" "queue_of s = queue_of (subs ?w1 ! r)" and closeq: "chan_cap (messageQueue s) = chan_cap (messageQueue (subs ?w1 ! r))"
    using world_ok_sub(1) [of ?w1 r] u r by (auto simp: s_def Close_eq sub_ok_def)
  let ?w' = "?w1\<lparr>subs := (subs ?w1)[r := s]\<rparr>"
  have "world_ok (?w1\<lparr>cells := cells ?w1, subs := (subs ?w1)[r := s]\<rparr>)"
    using u s r world_ok_sub [of ?w1] by (intro world_ok_queues) (auto simp: nth_list_update queue_refs_ok_def)
  then have ok: "world_ok ?w'" by simp
  have lk: "lookup ?w' = lookup w" using u by (simp add: frame)
  have empty: "gm_get (subscribedTopics s) n = None" for n
  proof -
    have at: "r < length (subs ?w')" "subs ?w' ! r = s" "topics ?w' = topics ?w1" using r by simp_all
    note l = links [OF ok at(1), of n, unfolded at(2,3) lk]
    have "\<nexists>p. lookup w n = Some p \<and> r \<in> members (topics ?w1 ! p)" using mem by blast
    with l show ?thesis by blast
  qed
  have "x \<notin> set (gm_keys (subscribedTopics s))" for x by (simp add: gm.keys_get empty)
  then have "set (gm_keys (subscribedTopics s)) = {}" by (simp only: set_eq_iff) simp
  then have none: "subscribedTopics s = []" by (simp only: set_empty) (simp add: gm_keys_def)
  have kept: "kept r w ?w'"
  proof (rule kept_trans)
    show "kept r w ?w1" using u by blast
    show "kept r ?w1 ?w'" using r s(2-4) closeq by (auto simp: kept_def sub_kept_def same_client_def nth_list_update)
  qed
  have run: "cleanupSubscriber r w = Some ?w'" by (simp add: cleanupSubscriber_def Let_def close)
  have others: "\<forall>q < length (subs w). q \<noteq> r \<longrightarrow> subs ?w' ! q = subs w ! q" using u by simp
  have tops: "\<forall>n p. lookup w n = Some p \<longrightarrow> members (topics ?w' ! p) = members (topics w ! p) - {r} \<and>
      totalMessageCount (topics ?w' ! p) = totalMessageCount (topics w ! p)"
    using mem u by simp
  show ?thesis
  proof (intro exI [of _ ?w'] conjI)
    show "isClosedFlag (subs ?w' ! r)" "subscribedTopics (subs ?w' ! r) = []"
      using r s(2) none by simp_all
  qed (fact run ok lk kept others tops)+
qed

text \<open>
  C5: cleaning up. When a connection ends, whatever the client had subscribed to, the
  cleanup does not panic, closes the subscriber and leaves it in no topic; every topic
  keeps its other subscribers and its message count, no other client is touched, and the
  subscriber lists no topic any more.
\<close>

theorem cleanup_removes:
  assumes "world_ok w" "r < length (subs w)"
  shows "\<exists>w'. cleanupSubscriber r w = Some w' \<and> world_ok w' \<and> lookup w' = lookup w \<and>
    isClosedFlag (subs w' ! r) \<and> Subscriber_GetSubscribedTopics (subs w' ! r) = [] \<and>
    (\<forall>q < length (subs w). q \<noteq> r \<longrightarrow> subs w' ! q = subs w ! q) \<and>
    (\<forall>n p. lookup w n = Some p \<longrightarrow> members (topics w' ! p) = members (topics w ! p) - {r} \<and>
       totalMessageCount (topics w' ! p) = totalMessageCount (topics w ! p))"
  using cleanup_full [OF assms] by (auto simp: Subscriber_GetSubscribedTopics_def gm_keys_def)

theorem cleanup_removes_witness:
  "\<exists>w'. cleanupSubscriber 0 example_world = Some w' \<and> members (topics w' ! 0) = {} \<and> isClosedFlag (subs w' ! 0)"
proof -
  have "0 < length (subs example_world)" by (simp add: example_world_ok)
  from cleanup_removes [OF example_world_ok(1) this] example_world_ok(2,3) show ?thesis by fastforce
qed

end
