(* ===== verification/Ws_Replay.thy ===== *)
theory Ws_Replay
  imports Ws_Correct
begin

text \<open>
  What the replay of a subscription queues (\<open>handleSubscribe\<close> in \<^verbatim>\<open>internal/ws/handler.go\<close>).
  The events share one variable, the loop's; and they count against the same queue as the
  acknowledgement that follows them.
\<close>

lemma abs_card:
  assumes "world_ok w" "r < length (subs w)" "lookup w n = Some p"
  shows "abs_broker w n = Some (abs_topic (topics w ! p))"
    "clientID (subs w ! r) \<in> fst (abs_topic (topics w ! p)) \<longleftrightarrow> r \<in> members (topics w ! p)"
    "card (fst (abs_topic (topics w ! p))) = length (subscribers (topics w ! p))"
  using key_in_abs [OF assms] assms(3) by (simp_all add: abs_broker_def)

text \<open>An accepted subscription that replays: joining, the loop, the acknowledgement.\<close>

lemma subscribe_acked:
  assumes "world_ok w" "r < length (subs w)" "c_type cm = ''subscribe''"
    "s_type (expected_reply E r cm w) = ''ack''" "replays E cm w \<noteq> []"
  defines "ms \<equiv> replays E cm w" and "n \<equiv> c_topic cm"
  shows "\<exists>w1. world_ok w1 \<and> length (subs w1) = length (subs w) \<and> gained r [] w w1 \<and> cells w1 = cells w \<and> clock w1 = clock w \<and>
     handleClientMessage E r cm w = sendAck r (c_request_id cm) n ''subscribed''
       (replayed r n (length (cells w)) ms (w1\<lparr>cells := cells w @ [zero_message]\<rparr>))"
proof -
  have pos: "c_last_n cm > 0" and get: "Broker_GetReplayMessages (redis E) n (c_last_n cm) w = Inr ms"
    using assms(5) by (auto simp: ms_def n_def replays_def split: if_splits sum.splits)
  obtain p where p: "lookup w n = Some p" "n \<noteq> []"
  proof -
    have "n \<noteq> []" using assms(3,4) by (auto simp: expected_reply_def Let_def error_message_def n_def)
    moreover have "lookup w n \<noteq> None"
    proof
      assume "lookup w n = None"
      then have "abs_broker w (c_topic cm) = None" by (simp add: abs_none n_def)
      with assms(3,4) show False by (simp add: expected_reply_def error_message_def Let_def split: if_splits)
    qed
    ultimately show ?thesis using that by blast
  qed
  have ex: "Broker_TopicExists n w" using p by (simp add: TopicExists_eq world_okD [OF assms(1)])
  have tail: "replay_all r n ms w1 = Some (replayed r n (length (cells w)) ms (w1\<lparr>cells := cells w @ [zero_message]\<rparr>))"
    if "world_ok w1" "length (subs w1) = length (subs w)" "cells w1 = cells w" for w1
    using replay_loop_eq [of "w1\<lparr>cells := cells w @ [zero_message]\<rparr>" r "length (cells w)" n ms]
      world_ok_cell(2) [OF that(1), of zero_message] that assms(2)
    by (simp add: replay_all_def alloc_def)
  have h: "handleClientMessage E r cm w = (case Broker_SubscribeToTopic n r w of
      (Some err, w) \<Rightarrow> sendError r (c_request_id cm) ErrorCodeInternalError err w
    | (None, w) \<Rightarrow> do {
        w \<leftarrow> (if c_last_n cm > 0
             then (case Broker_GetReplayMessages (redis E) n (c_last_n cm) w of Inr ms \<Rightarrow> replay_all r n ms w | Inl _ \<Rightarrow> Some w)
             else Some w);
        sendAck r (c_request_id cm) n ''subscribed'' w })"
    using assms(3) p(2) ex unfolding n_def by (simp add: handleClientMessage_def handleSubscribe_def Let_def)
  show ?thesis
  proof (cases "r \<in> members (topics w ! p)")
    case True
    then show ?thesis using tail [OF assms(1)] get p assms(1,2)
      by (intro exI [of _ w]) (simp add: h Subscribe_eq gained_refl pos)
  next
    case False
    have "\<not> MaxSubscribersPerTopic \<le> int (length (subscribers (topics w ! p)))"
      using abs_card [OF assms(1,2) p(1)] False assms(3,4) p(2)
      by (auto simp: expected_reply_def Let_def error_message_def p(1) n_def [symmetric] case_prod_unfold split: if_splits)
    then have w1: "world_ok (joined n p r w)" "Broker_SubscribeToTopic n r w = (None, joined n p r w)"
      using world_ok_joined [OF assms(1,2) p(1)] False p assms(1,2) by (simp_all add: Subscribe_eq)
    moreover have "Broker_GetReplayMessages (redis E) n (c_last_n cm) (joined n p r w) = Inr ms"
      using get by (simp add: Broker_GetReplayMessages_def frame)
    ultimately show ?thesis using tail [OF w1(1)] joined_gained [OF assms(2,2)]
      by (intro exI [of _ "joined n p r w"]) (simp add: h frame pos)
  qed
qed

text \<open>
  C34: a replay queues one message, many times. If a subscription replays \<open>ms\<close> and the
  write loop has not run in between, the queue grows by as many "message" events as \<open>ms\<close>
  has, but all of them hold the same pointer, and the variable it points to ends up with
  the last of them: every event that will be written carries \<open>last ms\<close>.
\<close>

theorem replay_one_variable:
  assumes "world_ok w" "r < length (subs w)" "c_type cm = ''subscribe''"
    "s_type (expected_reply E r cm w) = ''ack''" "replays E cm w = ms" "ms \<noteq> []"
    "\<not> isClosedFlag (subs w ! r)" "length (queue_of (subs w ! r)) + length ms + 1 \<le> chan_cap (messageQueue (subs w ! r))"
  shows "\<exists>w' p. handleClientMessage E r cm w = Some w' \<and> cells w' ! p = last ms \<and>
    queue_of (subs w' ! r) = queue_of (subs w ! r) @
      replicate (length ms) (replay_message (c_topic cm) p (clock w)) @
      [ack_message (c_request_id cm) (c_topic cm) ''subscribed'' (clock w)]"
proof -
  obtain w1 where w1: "world_ok w1" "length (subs w1) = length (subs w)" "gained r [] w w1" "cells w1 = cells w" "clock w1 = clock w"
    "handleClientMessage E r cm w = sendAck r (c_request_id cm) (c_topic cm) ''subscribed''
       (replayed r (c_topic cm) (length (cells w)) ms (w1\<lparr>cells := cells w @ [zero_message]\<rparr>))"
    using subscribe_acked [OF assms(1-4)] assms(5,6) by auto
  let ?w2 = "w1\<lparr>cells := cells w @ [zero_message]\<rparr>"
  let ?w3 = "replayed r (c_topic cm) (length (cells w)) ms ?w2"
  let ?ack = "ack_message (c_request_id cm) (c_topic cm) ''subscribed'' (clock w)"
  have 2: "world_ok ?w2" "r < length (subs ?w2)" "length (cells w) < length (cells ?w2)"
    using world_ok_cell(2) [OF w1(1)] w1(2,4) assms(2) by simp_all
  have rm: "room (length ms + 1) r ?w2" using assms(7,8) w1(3) by (simp add: room_def gained_def)
  note 3 = replay_loop_eq [OF 2, of "c_topic cm" ms]
  have g: "gained r (replicate (length ms) (replay_message (c_topic cm) (length (cells w)) (clock w))) ?w2 ?w3"
    using replayed_gained [OF 2(2), of ms "c_topic cm" "length (cells w)"] room_le [OF rm] w1(5) by simp
  have len: "r < length (subs ?w3)" using 3 2(2) by simp
  have "room 1 r ?w3" using room_gained [OF _ g, of 1] rm by simp
  note s = sent_gained [OF len this, of ?ack]
  have "handleClientMessage E r cm w = Some (sent r ?ack ?w3)"
    using send_to_eq [of ?w3 r ?ack] 3 len w1(5,6) by (simp add: sendAck_def)
  moreover have "cells (sent r ?ack ?w3) ! length (cells w) = last ms" using 3 assms(6) by (simp add: frame)
  ultimately show ?thesis using s g w1(3) by (intro exI [of _ "sent r ?ack ?w3"] exI [of _ "length (cells w)"]) (simp add: gained_def)
qed

text \<open>
  C35: a replay that fills the queue costs the client its connection. If the replay leaves
  no room for the acknowledgement, the subscription, although accepted, ends with the
  client disconnected as a slow consumer, its connection closed.
\<close>

theorem replay_full_disconnects:
  assumes "world_ok w" "r < length (subs w)" "c_type cm = ''subscribe''"
    "s_type (expected_reply E r cm w) = ''ack''" "replays E cm w = ms" "ms \<noteq> []"
    "\<not> isClosedFlag (subs w ! r)" "length (queue_of (subs w ! r)) + length ms = chan_cap (messageQueue (subs w ! r))"
  shows "\<exists>w'. handleClientMessage E r cm w = Some w' \<and> isClosedFlag (subs w' ! r) \<and>
    chan_closed (messageQueue (subs w' ! r)) \<and>
    (\<exists>calls. WebsocketConnection (subs w' ! r) = calls @
       [SetWriteDeadline (clock w + 1 * second), WriteJSON (slow_consumer_message (clock w)), CloseConn])"
proof -
  obtain w1 where w1: "world_ok w1" "length (subs w1) = length (subs w)" "gained r [] w w1" "cells w1 = cells w" "clock w1 = clock w"
    "handleClientMessage E r cm w = sendAck r (c_request_id cm) (c_topic cm) ''subscribed''
       (replayed r (c_topic cm) (length (cells w)) ms (w1\<lparr>cells := cells w @ [zero_message]\<rparr>))"
    using subscribe_acked [OF assms(1-4)] assms(5,6) by auto
  let ?w2 = "w1\<lparr>cells := cells w @ [zero_message]\<rparr>"
  let ?w3 = "replayed r (c_topic cm) (length (cells w)) ms ?w2"
  let ?ack = "ack_message (c_request_id cm) (c_topic cm) ''subscribed'' (clock w)"
  have 2: "world_ok ?w2" "r < length (subs ?w2)" "length (cells w) < length (cells ?w2)"
    using world_ok_cell(2) [OF w1(1)] w1(2,4) assms(2) by simp_all
  have rm: "room (length ms) r ?w2" using assms(7,8) w1(3) by (simp add: room_def gained_def)
  note 3 = replay_loop_eq [OF 2, of "c_topic cm" ms]
  have g: "gained r (replicate (length ms) (replay_message (c_topic cm) (length (cells w)) (clock w))) ?w2 ?w3"
    using replayed_gained [OF 2(2) rm] w1(5) by simp
  have len: "r < length (subs ?w3)" using 3 2(2) by simp
  have run: "handleClientMessage E r cm w = Some (sent r ?ack ?w3)"
    using send_to_eq [of ?w3 r ?ack] 3 len w1(5,6) by (simp add: sendAck_def)
  have full: "\<not> isClosedFlag (subs ?w3 ! r)" "\<not> has_room (subs ?w3 ! r)"
    using g w1(3) assms(7,8) by (simp_all add: gained_def has_room_def)
  have "sent r ?ack ?w3 = ?w3\<lparr>subs := (subs ?w3)[r := after_send (clock w) ?ack (subs ?w3 ! r)]\<rparr>"
    using 3 w1(5) by (simp add: sent_def)
  then show ?thesis using full len by (intro exI [of _ "sent r ?ack ?w3"] conjI run) (simp_all add: after_send_def)
qed

section \<open>A subscriber that asks for a replay\<close>

definition replay_world :: "nat \<Rightarrow> (string \<Rightarrow> blob list) world" where
  "replay_world cap = example_world\<lparr>cells := cells example_world,
     subs := [Subscriber_AddTopic ''a'' (NewSubscriber ''c1'' [] cap)],
     storage := (mem_storage 100)\<lparr>client := \<lambda>k. map (\<lambda>m. case marshal_message m of Inr j \<Rightarrow> Doc j | Inl _ \<Rightarrow> Bytes [])
       [example_message ''b'' 2, example_message ''a'' 1]\<rparr>\<rparr>"

definition replay_request :: client_message where
  "replay_request = zero_client_message\<lparr>c_type := ''subscribe'', c_topic := ''a'', c_request_id := ''r1'', c_last_n := 10\<rparr>"

lemma replay_world_ok: "world_ok (replay_world cap)" "lookup (replay_world cap) ''a'' = Some 0"
  "members (topics (replay_world cap) ! 0) = {0}"
proof -
  have "world_ok (example_world\<lparr>cells := cells example_world, subs := [Subscriber_AddTopic ''a'' (NewSubscriber ''c1'' [] cap)]\<rparr>)"
    using example_world_ok by (intro world_ok_queues) (auto simp: frame NewSubscriber_def make_chan_def sub_ok_def queue_refs_ok_def gm.ok_put gm.ok_empty)
  then show "world_ok (replay_world cap)"
    by (simp add: replay_world_def world_ok_def objects_ok_def names_ok_def links_ok_def shards_ok_def store_ok_def lookup_def)
  show "lookup (replay_world cap) ''a'' = Some 0" "members (topics (replay_world cap) ! 0) = {0}"
    using example_world_ok(2,3) by (simp_all add: replay_world_def lookup_def)
qed

lemma replay_world_replays:
  "replays example_env replay_request (replay_world cap) =
     [as_decoded (example_message ''a'' 1), as_decoded (example_message ''b'' 2)]"
proof -
  obtain j k where jk: "marshal_message (example_message ''a'' 1) = Inr j" "marshal_message (example_message ''b'' 2) = Inr k"
    using example_marshal by metis
  then show ?thesis
    by (simp add: replays_def replay_request_def zero_client_message_def Broker_GetReplayMessages_def example_env_def
        RedisStorage_GetReplayMessages_def replay_world_def mem_redis_def redis_slice_def wrap64_id
        unmarshal_marshalled mem_storage_def)
qed

lemma replay_world_ack:
  "c_type replay_request = ''subscribe''" "s_type (expected_reply example_env 0 replay_request (replay_world cap)) = ''ack''"
  "0 < length (subs (replay_world cap))"
proof -
  have c: "clientID (subs (replay_world cap) ! 0) \<in> fst (abs_topic (topics (replay_world cap) ! 0))"
    using abs_card(2) [OF replay_world_ok(1) _ replay_world_ok(2)] replay_world_ok(3) by (simp add: replay_world_def)
  then show "s_type (expected_reply example_env 0 replay_request (replay_world cap)) = ''ack''"
    using replay_world_ok(2) [of cap]
    by (simp add: expected_reply_def Let_def replay_request_def zero_client_message_def abs_broker_def ack_message_def case_prod_unfold)
qed (simp_all add: replay_request_def zero_client_message_def replay_world_def)

theorem replay_one_variable_witness:
  "\<exists>w' p. handleClientMessage example_env 0 replay_request (replay_world 100) = Some w' \<and>
     m_id (cells w' ! p) = ''b'' \<and> map s_message (queue_of (subs w' ! 0)) = [Some p, Some p, None]"
proof -
  have q: "\<not> isClosedFlag (subs (replay_world 100) ! 0)" "queue_of (subs (replay_world 100) ! 0) = []"
    "chan_cap (messageQueue (subs (replay_world 100) ! 0)) = 100"
    by (simp_all add: replay_world_def frame NewSubscriber_def make_chan_def)
  from replay_one_variable [OF replay_world_ok(1) replay_world_ack(3,1,2) replay_world_replays _ q(1)] q(2,3)
  obtain w' p where "handleClientMessage example_env 0 replay_request (replay_world 100) = Some w'"
    "cells w' ! p = as_decoded (example_message ''b'' 2)"
    "queue_of (subs w' ! 0) = replicate 2 (replay_message (c_topic replay_request) p (clock (replay_world 100))) @
       [ack_message (c_request_id replay_request) (c_topic replay_request) ''subscribed'' (clock (replay_world 100))]"
    by (auto simp: numeral_2_eq_2)
  then show ?thesis
    by (intro exI [of _ w'] exI [of _ p])
      (simp add: as_decoded_def example_message_def numeral_2_eq_2 replay_message_def ack_message_def zero_server_message_def)
qed

theorem replay_full_disconnects_witness:
  "\<exists>w'. handleClientMessage example_env 0 replay_request (replay_world 2) = Some w' \<and> isClosedFlag (subs w' ! 0)"
proof -
  have q: "\<not> isClosedFlag (subs (replay_world 2) ! 0)" "queue_of (subs (replay_world 2) ! 0) = []"
    "chan_cap (messageQueue (subs (replay_world 2) ! 0)) = 2"
    by (simp_all add: replay_world_def frame NewSubscriber_def make_chan_def)
  from replay_full_disconnects [OF replay_world_ok(1) replay_world_ack(3,1,2) replay_world_replays _ q(1)] q(2,3)
  show ?thesis by auto
qed

section \<open>Deleted topics\<close>

text \<open>
  Deleting a topic leaves its messages in Redis: when the topic is created again, a
  subscription to the new topic replays what was published to the old one.
\<close>

theorem replay_survives_deletion:
  assumes "world_ok w" "Broker_DeleteTopic n w = Some (None, w1)" "Broker_CreateTopic n w1 = (None, w2)"
  shows "Broker_GetReplayMessages R n k w2 = Broker_GetReplayMessages R n k w"
proof -
  obtain p where "lookup w n = Some p" "w1 = deleted n p w"
    using assms(2) by (auto simp: Delete_eq [OF assms(1)] split: option.splits)
  moreover from this have "w2 = created n w1"
    using assms(3) world_ok_deleted [OF assms(1)] by (auto simp: Create_eq split: if_splits)
  ultimately show ?thesis by (simp add: Broker_GetReplayMessages_def created_def deleted_def frame)
qed

end
