(* ===== verification/Api.thy ===== *)
theory Api
  imports Broker_Spec
begin

text \<open>
  \<^verbatim>\<open>internal/api\<close>: the REST handlers. A request has its method, its path, the variables mux
  took from the path, and a body: a JSON document, or what the decoder rejects. The
  response writer is net/http's: headers are set in a map, the first \<open>WriteHeader\<close> counts,
  a body without one means 200, each \<open>Encode\<close> appends a document. A writer may be wrapped
  by the logging middleware of \<^verbatim>\<open>cmd/server/main.go\<close> (\<open>rw_wrapper\<close> is its \<open>statusCode\<close>), whose
  \<open>WriteHeader\<close> is then the one a handler calls. \<open>encoding/json\<close> writes a map with its keys
  sorted. Log lines are left out.
\<close>

record http_request =
  rq_method :: string
  rq_path :: string
  rq_vars :: "(string, string) gomap"
  rq_body :: "go_error + json"

record response_writer =
  rw_header :: "(string, string) gomap"
  rw_status :: "nat option"
  rw_body :: "json list"
  rw_wrapper :: "nat option"

definition new_writer :: response_writer where
  "new_writer = \<lparr>rw_header = [], rw_status = None, rw_body = [], rw_wrapper = None\<rparr>"

definition Header_Set :: "string \<Rightarrow> string \<Rightarrow> response_writer \<Rightarrow> response_writer" where
  "Header_Set k v W = W\<lparr>rw_header := gm_put k v (rw_header W)\<rparr>"

definition http_WriteHeader :: "nat \<Rightarrow> response_writer \<Rightarrow> response_writer" where
  "http_WriteHeader c W = (case rw_status W of None \<Rightarrow> W\<lparr>rw_status := Some c\<rparr> | Some _ \<Rightarrow> W)"

definition WriteHeader :: "nat \<Rightarrow> response_writer \<Rightarrow> response_writer" where
  "WriteHeader c W =
     http_WriteHeader c (case rw_wrapper W of None \<Rightarrow> W | Some _ \<Rightarrow> W\<lparr>rw_wrapper := Some c\<rparr>)"

definition Encode :: "json \<Rightarrow> response_writer \<Rightarrow> response_writer" where
  "Encode j W = (http_WriteHeader 200 W)\<lparr>rw_body := rw_body W @ [j]\<rparr>"

text \<open>\<open>mux.Vars(request)["name"]\<close>: a missing key reads as the empty string.\<close>

definition path_name :: "http_request \<Rightarrow> string" where
  "path_name q = (case gm_get (rq_vars q) ''name'' of None \<Rightarrow> [] | Some n \<Rightarrow> n)"

section \<open>Topics\<close>

definition sendJSONResponse :: "nat \<Rightarrow> json \<Rightarrow> response_writer \<Rightarrow> response_writer" where
  "sendJSONResponse statusCode data W =
     Encode data (WriteHeader statusCode (Header_Set ''Content-Type'' ''application/json'' W))"

definition error_body :: "string \<Rightarrow> json" where
  "error_body message = JObj [(''error'', JStr message), (''success'', JBool False)]"

definition sendErrorResponse :: "nat \<Rightarrow> string \<Rightarrow> response_writer \<Rightarrow> response_writer" where
  "sendErrorResponse statusCode message W = sendJSONResponse statusCode (error_body message) W"

definition decode_body :: "http_request \<Rightarrow> create_topic_request option" where
  "decode_body q = (case rq_body q of Inl _ \<Rightarrow> None | Inr j \<Rightarrow> unmarshal_create_request j)"

definition TopicsHandler_CreateTopic ::
  "http_request \<Rightarrow> response_writer \<Rightarrow> ('r, 'a) broker_scheme \<Rightarrow> response_writer \<times> ('r, 'a) broker_scheme" where
  "TopicsHandler_CreateTopic q W w =
     (case decode_body q of
        None \<Rightarrow> (sendErrorResponse 400 ''Invalid request body'' W, w)
      | Some createRequest \<Rightarrow>
          if cr_name createRequest = [] then (sendErrorResponse 400 ''Topic name is required'' W, w)
          else case Broker_CreateTopic (cr_name createRequest) w of
            (Some err, w) \<Rightarrow>
              (if err = ''topic_already_exists'' then sendErrorResponse 409 ''Topic already exists'' W
               else if err = ErrorCodeMaxTopicsReached then sendErrorResponse 503 ''Maximum topics limit reached'' W
               else sendErrorResponse 500 err W, w)
          | (None, w) \<Rightarrow>
              (let response = \<lparr>cs_success = True, cs_name = cr_name createRequest, cs_error = []\<rparr>
               in (sendJSONResponse 201 (marshal_create_response response) W, w)))"

definition deleted_body :: "string \<Rightarrow> json" where
  "deleted_body n = JObj [(''message'', JStr ''Topic deleted successfully''), (''success'', JBool True), (''topic'', JStr n)]"

definition TopicsHandler_DeleteTopic ::
  "http_request \<Rightarrow> response_writer \<Rightarrow> ('r, 'a) broker_scheme \<Rightarrow> (response_writer \<times> ('r, 'a) broker_scheme) option" where
  "TopicsHandler_DeleteTopic q W w =
     (let n = path_name q in
      if n = [] then Some (sendErrorResponse 400 ''Topic name is required'' W, w)
      else do {
        (err, w) \<leftarrow> Broker_DeleteTopic n w;
        Some (case err of
          Some e \<Rightarrow> (if e = ''topic_not_found'' then sendErrorResponse 404 ''Topic not found'' W
                     else sendErrorResponse 500 e W, w)
        | None \<Rightarrow> (sendJSONResponse 200 (deleted_body n) W, w))
      })"

definition TopicsHandler_ListTopics :: "response_writer \<Rightarrow> ('r, 'a) broker_scheme \<Rightarrow> response_writer" where
  "TopicsHandler_ListTopics W w =
     sendJSONResponse 200 (marshal_list_response \<lparr>lt_topics = Broker_ListAllTopics w\<rparr>) W"

definition TopicsHandler_GetTopicDetails ::
  "http_request \<Rightarrow> response_writer \<Rightarrow> ('r, 'a) broker_scheme \<Rightarrow> response_writer" where
  "TopicsHandler_GetTopicDetails q W w =
     (let n = path_name q in
      if n = [] then sendErrorResponse 400 ''Topic name is required'' W
      else case Broker_GetTopic n w of
        Inl err \<Rightarrow> sendErrorResponse 404 ''Topic not found'' W
      | Inr p \<Rightarrow> sendJSONResponse 200 (marshal_topic_info (Topic_GetTopicInfo (topics w ! p))) W)"

section \<open>Statistics and health\<close>

definition StatsHandler_GetStats :: "response_writer \<Rightarrow> ('r, 'a) broker_scheme \<Rightarrow> response_writer" where
  "StatsHandler_GetStats W w =
     Encode (marshal_stats (Broker_GetStatistics w))
       (WriteHeader 200 (Header_Set ''Content-Type'' ''application/json'' W))"

text \<open>\<open>ShardStatistics\<close> has no json tags: its members have the names of the fields.\<close>

definition marshal_shard_statistics :: "shard_statistics \<Rightarrow> json" where
  "marshal_shard_statistics s = JObj [(''ShardID'', JNum (int (ss_ShardID s))), (''TopicCount'', JNum (int (ss_TopicCount s))),
     (''SubscriberCount'', JNum (int (ss_SubscriberCount s))), (''TotalMessages'', JNum (sint (ss_TotalMessages s)))]"

definition StatsHandler_GetShardStats :: "response_writer \<Rightarrow> ('r, 'a) broker_scheme \<Rightarrow> response_writer" where
  "StatsHandler_GetShardStats W w =
     (let shardStats = Broker_GetShardStatistics w;
          response = JObj [(''shard_count'', JNum (int (length shardStats))),
                           (''shards'', JArr (map marshal_shard_statistics shardStats))]
      in Encode response (WriteHeader 200 (Header_Set ''Content-Type'' ''application/json'' W)))"

definition HealthHandler_GetHealth :: "response_writer \<Rightarrow> ('r, 'a) broker_scheme \<Rightarrow> response_writer" where
  "HealthHandler_GetHealth W w =
     Encode (marshal_health (Broker_GetHealthStatus w))
       (WriteHeader 200 (Header_Set ''Content-Type'' ''application/json'' W))"

definition HealthHandler_GetReadiness :: "response_writer \<Rightarrow> response_writer" where
  "HealthHandler_GetReadiness W =
     Encode (JObj [(''ready'', JBool True), (''status'', JStr ''ok'')])
       (WriteHeader 200 (Header_Set ''Content-Type'' ''application/json'' W))"

definition HealthHandler_GetLiveness :: "response_writer \<Rightarrow> response_writer" where
  "HealthHandler_GetLiveness W =
     Encode (JObj [(''alive'', JBool True), (''status'', JStr ''ok'')])
       (WriteHeader 200 (Header_Set ''Content-Type'' ''application/json'' W))"

section \<open>What a client of the API observes\<close>

text \<open>A writer that has answered with a status and one JSON document.\<close>

definition answered :: "nat \<Rightarrow> json \<Rightarrow> response_writer \<Rightarrow> response_writer \<Rightarrow> bool" where
  "answered c j W W' \<longleftrightarrow> rw_status W' = Some c \<and> rw_body W' = rw_body W @ [j] \<and>
     rw_wrapper W' = map_option (\<lambda>_. c) (rw_wrapper W) \<and>
     rw_header W' = gm_put ''Content-Type'' ''application/json'' (rw_header W)"

lemma answered_send: "rw_status W = None \<Longrightarrow> answered c j W (sendJSONResponse c j W)"
  by (cases "rw_wrapper W")
    (simp_all add: answered_def sendJSONResponse_def Encode_def WriteHeader_def http_WriteHeader_def Header_Set_def)

lemma answered_error: "rw_status W = None \<Longrightarrow> answered c (error_body s) W (sendErrorResponse c s W)"
  by (simp add: sendErrorResponse_def answered_send)

lemma answered_encode:
  "rw_status W = None \<Longrightarrow> answered 200 j W (Encode j (WriteHeader 200 (Header_Set ''Content-Type'' ''application/json'' W)))"
  using answered_send [of W 200 j] by (simp add: sendJSONResponse_def)

text \<open>
  C27: creating a topic over REST. A body that does not decode and an empty name are 400,
  the limit of topics is 503, an existing name below the limit 409, all without a change;
  otherwise the answer is 201 with the name, and the broker has gained exactly this topic,
  without subscribers or messages. No request is answered 500, and exactly one document is
  written.
\<close>

theorem create_topic_response:
  assumes "world_ok w" "rw_status W = None"
  shows "\<exists>W' w'. TopicsHandler_CreateTopic q W w = (W', w') \<and> world_ok w' \<and>
    (case decode_body q of
       None \<Rightarrow> answered 400 (error_body ''Invalid request body'') W W' \<and> w' = w
     | Some c \<Rightarrow>
         if cr_name c = [] then answered 400 (error_body ''Topic name is required'') W W' \<and> w' = w
         else if MaxTopicsLimit \<le> card (dom (abs_broker w))
         then answered 503 (error_body ''Maximum topics limit reached'') W W' \<and> w' = w
         else if abs_broker w (cr_name c) \<noteq> None
         then answered 409 (error_body ''Topic already exists'') W W' \<and> w' = w
         else answered 201 (JObj [(''success'', JBool True), (''name'', JStr (cr_name c))]) W W' \<and>
              abs_broker w' = (abs_broker w)(cr_name c \<mapsto> ({}, 0)))"
proof (cases "decode_body q")
  case None
  then show ?thesis using assms answered_error [OF assms(2)] by (simp add: TopicsHandler_CreateTopic_def)
next
  case (Some c)
  let ?n = "cr_name c"
  have none: "abs_broker w ?n = None \<longleftrightarrow> lookup w ?n = None" by (simp add: abs_broker_def)
  consider "?n = []" | "?n \<noteq> []" "MaxTopicsLimit \<le> card (dom (lookup w))"
    | "?n \<noteq> []" "\<not> MaxTopicsLimit \<le> card (dom (lookup w))" "lookup w ?n \<noteq> None"
    | "?n \<noteq> []" "\<not> MaxTopicsLimit \<le> card (dom (lookup w))" "lookup w ?n = None" by blast
  then show ?thesis
  proof cases
    case 1
    then show ?thesis using Some assms answered_error [OF assms(2)] by (simp add: TopicsHandler_CreateTopic_def)
  next
    case 2
    then show ?thesis using Some assms answered_error [OF assms(2)]
      by (simp add: TopicsHandler_CreateTopic_def Create_eq error_code_defs)
  next
    case 3
    then show ?thesis using Some assms answered_error [OF assms(2)]
      by (simp add: TopicsHandler_CreateTopic_def Create_eq none)
  next
    case 4
    have "marshal_create_response \<lparr>cs_success = True, cs_name = ?n, cs_error = []\<rparr> =
        JObj [(''success'', JBool True), (''name'', JStr ?n)]"
      using 4(1) by (simp add: marshal_create_response_def omit_empty_def)
    moreover have "world_ok (created ?n w)" "abs_broker (created ?n w) = (abs_broker w)(?n \<mapsto> ({}, 0))"
      using 4 world_ok_created(1) [OF assms(1)] abs_created [OF assms(1)] by simp_all
    ultimately show ?thesis using Some assms 4 answered_send [OF assms(2)]
      by (simp add: TopicsHandler_CreateTopic_def Create_eq none not_le)
  qed
qed

text \<open>
  C28: deleting a topic over REST does not panic: without a name the answer is 400, for an
  unknown topic 404, without a change; otherwise 200, and the broker has lost exactly this
  topic, while every subscriber keeps its other topics and remains connected unless its
  queue was full.
\<close>

theorem delete_topic_response:
  assumes "world_ok w" "rw_status W = None"
  shows "\<exists>W' w'. TopicsHandler_DeleteTopic q W w = Some (W', w') \<and> world_ok w' \<and>
    (if path_name q = [] then answered 400 (error_body ''Topic name is required'') W W' \<and> w' = w
     else if abs_broker w (path_name q) = None then answered 404 (error_body ''Topic not found'') W W' \<and> w' = w
     else answered 200 (deleted_body (path_name q)) W W' \<and>
          abs_broker w' = (abs_broker w)(path_name q := None) \<and>
          (\<forall>r < length (subs w). gm_get (subscribedTopics (subs w' ! r)) (path_name q) = None \<and>
             (\<forall>n. n \<noteq> path_name q \<longrightarrow>
                gm_get (subscribedTopics (subs w' ! r)) n = gm_get (subscribedTopics (subs w ! r)) n) \<and>
             (has_room (subs w ! r) \<longrightarrow> \<not> isClosedFlag (subs w' ! r))))"
proof (cases "path_name q = [] \<or> lookup w (path_name q) = None")
  case True
  then show ?thesis using assms answered_error [OF assms(2)]
    by (auto simp: TopicsHandler_DeleteTopic_def Let_def Delete_eq abs_broker_def)
next
  case False
  let ?n = "path_name q"
  from False obtain p where p: "lookup w ?n = Some p" "?n \<noteq> []" by auto
  note d = world_ok_deleted [OF assms(1) p(1)]
  have run: "TopicsHandler_DeleteTopic q W w = Some (sendJSONResponse 200 (deleted_body ?n) W, deleted ?n p w)"
    using p assms(1) by (simp add: TopicsHandler_DeleteTopic_def Let_def Delete_eq)
  have "gm_get (subscribedTopics (subs (deleted ?n p w) ! r)) ?n = None \<and>
      (\<forall>n. n \<noteq> ?n \<longrightarrow> gm_get (subscribedTopics (subs (deleted ?n p w) ! r)) n = gm_get (subscribedTopics (subs w ! r)) n) \<and>
      (has_room (subs w ! r) \<longrightarrow> \<not> isClosedFlag (subs (deleted ?n p w) ! r))" if r: "r < length (subs w)" for r
  proof -
    have s: "subs (deleted ?n p w) ! r = (if r \<in> members (topics w ! p) then after_deletion ?n (clock w) (subs w ! r) else subs w ! r)"
      using r by (simp add: deleted_def frame nth_upd_at)
    have len: "r < length (subs (deleted ?n p w))" using r by (simp add: deleted_def frame)
    have "gm_get (subscribedTopics (subs (deleted ?n p w) ! r)) ?n = None"
      using links [OF d(1) len, of ?n] d(2) by simp
    moreover have "gm_ok (subscribedTopics (subs w ! r))" using world_ok_sub(1) [OF assms(1) r] by (simp add: sub_ok_def)
    ultimately show ?thesis using world_ok_sub [OF assms(1) r]
      by (auto simp: s after_deletion_ok gm.get_del after_deletion_def frame after_send_def has_room_def)
  qed
  then show ?thesis
    unfolding run using d(1) abs_deleted [OF assms(1) p(1)] answered_send [OF assms(2)] p
    by (simp add: abs_lookup)
qed

text \<open>
  C29: the details of a topic are those of the specification: 404 for an unknown topic, and
  otherwise its name, the number of its subscribers and its message count (left out when
  it is zero).
\<close>

theorem topic_details_response:
  assumes "world_ok w" "rw_status W = None" "path_name q \<noteq> []"
  shows "case abs_broker w (path_name q) of
      None \<Rightarrow> answered 404 (error_body ''Topic not found'') W (TopicsHandler_GetTopicDetails q W w)
    | Some (cs, k) \<Rightarrow> answered 200 (JObj ([(''name'', JStr (path_name q)), (''subscribers'', JNum (int (card cs)))] @
          (if k = 0 then [] else [(''message_count'', JNum (sint k))]))) W (TopicsHandler_GetTopicDetails q W w)"
proof (cases "lookup w (path_name q)")
  case None
  then show ?thesis using assms answered_error [OF assms(2)]
    by (simp add: TopicsHandler_GetTopicDetails_def Let_def GetTopic_eq world_okD abs_lookup)
next
  case (Some p)
  note p = world_ok_lookup [OF assms(1) Some]
  show ?thesis using Some p answered_send [OF assms(2)] members_card_keys [OF world_ok_topic(1) [OF assms(1) p(2)]]
    by (simp add: TopicsHandler_GetTopicDetails_def Let_def GetTopic_eq world_okD [OF assms(1)] abs_lookup abs_topic_def
        marshal_topic_info_def Topic_GetTopicInfo_def Topic_GetSubscriberCount_def Topic_GetTotalMessageCount_def omit_empty_def)
qed

section \<open>Witnesses\<close>

definition create_request :: "string \<Rightarrow> http_request" where
  "create_request n = \<lparr>rq_method = ''POST'', rq_path = ''/topics'', rq_vars = [], rq_body = Inr (JObj [(''name'', JStr n)])\<rparr>"

definition topic_request :: "string \<Rightarrow> string \<Rightarrow> http_request" where
  "topic_request m n = \<lparr>rq_method = m, rq_path = ''/topics/'' @ n, rq_vars = [(''name'', n)], rq_body = Inl ''EOF''\<rparr>"

lemma decode_create [simp]: "decode_body (create_request n) = Some \<lparr>cr_name = n\<rparr>"
  by (simp add: decode_body_def create_request_def unmarshal_create_request_def create_request_field_def key_is_def lower_def)

lemma path_name_request [simp]: "path_name (topic_request m n) = n"
  by (simp add: path_name_def topic_request_def gm_get_def)

theorem create_topic_response_witness:
  "\<exists>W' w'. TopicsHandler_CreateTopic (create_request ''news'') new_writer example_broker = (W', w') \<and>
     rw_status W' = Some 201 \<and> abs_broker w' = [''news'' \<mapsto> ({}, 0)]"
proof -
  have "rw_status new_writer = None" by (simp add: new_writer_def)
  from create_topic_response [OF example_broker_ok(1) this, of "create_request ''news''"] show ?thesis
    by (auto simp: example_broker_ok(2) MaxTopicsLimit_def answered_def)
qed

theorem delete_topic_response_witness:
  "\<exists>W' w'. TopicsHandler_DeleteTopic (topic_request ''DELETE'' ''a'') new_writer example_subscribed = Some (W', w') \<and>
     rw_status W' = Some 200 \<and> abs_broker w' ''a'' = None"
proof -
  have "rw_status new_writer = None" by (simp add: new_writer_def)
  from delete_topic_response [OF example_subscribed_ok(1) this, of "topic_request ''DELETE'' ''a''"] example_subscribed_ok(2)
  show ?thesis by (auto simp: abs_lookup answered_def)
qed

theorem topic_details_response_witness:
  "rw_status (TopicsHandler_GetTopicDetails (topic_request ''GET'' ''a'') new_writer example_subscribed) = Some 200"
proof -
  have "rw_status new_writer = None" by (simp add: new_writer_def)
  from topic_details_response [OF example_subscribed_ok(1) this, of "topic_request ''GET'' ''a''"] example_subscribed_ok(2)
  show ?thesis by (simp add: abs_lookup abs_topic_def answered_def)
qed

end
