(* ===== verification/Http_Server.thy ===== *)
theory Http_Server
  imports Api Ws_Correct
begin

text \<open>
  \<^verbatim>\<open>cmd/server/main.go\<close>: the start of the process, the routes, the two middlewares. The
  router is gorilla's mux, a parameter: a function of the routes, the method and the path;
  \<open>mux_laws\<close> states what its documentation says of it: the first route that matches path
  and method is taken, a variable in braces matches one non-empty path segment, and the
  middlewares run only around a route that matched. Reading from the network, signals and
  the shutdown are not modelled.
\<close>

section \<open>Starting\<close>

definition getEnvOrDefault :: "(string \<Rightarrow> string) \<Rightarrow> string \<Rightarrow> string \<Rightarrow> string" where
  "getEnvOrDefault getenv envKey defaultValue =
     (let v = getenv envKey in if v = [] then defaultValue else v)"

text \<open>\<open>main\<close> up to the broker; \<open>log.Fatal\<close> is \<open>None\<close>.\<close>

definition main_broker ::
  "(string \<Rightarrow> string) \<Rightarrow> 'r redis_api \<Rightarrow> (string \<Rightarrow> string \<Rightarrow> int \<Rightarrow> 'r) \<Rightarrow> time \<Rightarrow> 'r broker option" where
  "main_broker getenv R dial t =
     (let redisAddr = getEnvOrDefault getenv ''REDIS_ADDR'' [] in
      if redisAddr = [] then None
      else let redisPassword = getEnvOrDefault getenv ''REDIS_PASSWORD'' [] in
        case NewRedisStorage R dial redisAddr redisPassword 0 100 of
          Inl err \<Rightarrow> None
        | Inr redisStorage \<Rightarrow> NewBroker t (Some redisStorage))"

definition server_address :: "(string \<Rightarrow> string) \<Rightarrow> string" where
  "server_address getenv = getEnvOrDefault getenv ''SERVER_ADDRESS'' '':8080''"

section \<open>Middlewares\<close>

text \<open>
  A handler answers the request and changes the world. \<open>False\<close> says that it has not returned
  (a WebSocket connection that is still open). A middleware takes the next handler.
\<close>

type_synonym 'w http_handler = "http_request \<Rightarrow> response_writer \<Rightarrow> 'w \<Rightarrow> (bool \<times> response_writer \<times> 'w) option"

record log_line =
  ll_method :: string
  ll_path :: string
  ll_status :: nat

definition loggingMiddleware ::
  "'w http_handler \<Rightarrow> http_request \<Rightarrow> response_writer \<Rightarrow> 'w \<Rightarrow> (log_line option \<times> response_writer \<times> 'w) option" where
  "loggingMiddleware next q W w =
     (let wrappedWriter = W\<lparr>rw_wrapper := Some 200\<rparr> in do {
        (returned, W1, w) \<leftarrow> next q wrappedWriter w;
        Some (if returned then Some \<lparr>ll_method = rq_method q, ll_path = rq_path q, ll_status = the (rw_wrapper W1)\<rparr> else None,
              W1\<lparr>rw_wrapper := rw_wrapper W\<rparr>, w)
      })"

definition cors_headers :: "response_writer \<Rightarrow> response_writer" where
  "cors_headers W = Header_Set ''Access-Control-Allow-Headers'' ''Content-Type, Authorization''
     (Header_Set ''Access-Control-Allow-Methods'' ''GET, POST, DELETE, OPTIONS''
       (Header_Set ''Access-Control-Allow-Origin'' ''*'' W))"

definition corsMiddleware :: "'w http_handler \<Rightarrow> 'w http_handler" where
  "corsMiddleware next q W w =
     (let W = cors_headers W in
      if rq_method q = ''OPTIONS'' then Some (True, WriteHeader 200 W, w)
      else next q W w)"

text \<open>\<open>Hijack\<close> of the wrapper: what the wrapped writer's \<open>Hijack\<close> gives, if it has one.\<close>

definition responseWriterWrapper_Hijack :: "(go_error + 'c) option \<Rightarrow> go_error + 'c" where
  "responseWriterWrapper_Hijack h = (case h of None \<Rightarrow> Inl ''feature not supported'' | Some r \<Rightarrow> r)"

section \<open>Routes\<close>

datatype endpoint = CreateTopic | ListTopics | GetTopicDetails | DeleteTopic | GetStats | GetShardStats
  | GetHealth | GetReadiness | GetLiveness | WebSocket

record 'e route =
  rt_path :: string
  rt_methods :: "string list" \<comment> \<open>empty: every method\<close>
  rt_handler :: 'e

definition route :: "string \<Rightarrow> string list \<Rightarrow> 'e \<Rightarrow> 'e route" where
  "route p ms h = \<lparr>rt_path = p, rt_methods = ms, rt_handler = h\<rparr>"

definition server_routes :: "endpoint route list" where
  "server_routes =
     [route ''/topics'' [''POST''] CreateTopic,
      route ''/topics'' [''GET''] ListTopics,
      route ''/topics/{name}'' [''GET''] GetTopicDetails,
      route ''/topics/{name}'' [''DELETE''] DeleteTopic,
      route ''/stats'' [''GET''] GetStats,
      route ''/stats/shards'' [''GET''] GetShardStats,
      route ''/health'' [''GET''] GetHealth,
      route ''/ready'' [''GET''] GetReadiness,
      route ''/live'' [''GET''] GetLiveness,
      route ''/ws'' [] WebSocket]"

datatype 'e mux_match = Matched 'e "(string, string) gomap" | MethodMismatch | NoMatch

type_synonym 'e mux = "'e route list \<Rightarrow> string \<Rightarrow> string \<Rightarrow> 'e mux_match"

text \<open>
  The connection of a request, for the WebSocket endpoint: what hijacking the writer gives,
  whether the upgrade succeeds, and the reads it then delivers.
\<close>

record connection =
  cn_hijack :: "(go_error + unit) option"
  cn_upgrade :: "http_request \<Rightarrow> go_error + unit \<Rightarrow> bool"
  cn_reads :: "(go_error + json) list"

fun endpoint_handler :: "'r env \<Rightarrow> connection \<Rightarrow> endpoint \<Rightarrow> 'r world http_handler" where
  "endpoint_handler E cn CreateTopic q W w = (case TopicsHandler_CreateTopic q W w of (W, w) \<Rightarrow> Some (True, W, w))"
| "endpoint_handler E cn ListTopics q W w = Some (True, TopicsHandler_ListTopics W w, w)"
| "endpoint_handler E cn GetTopicDetails q W w = Some (True, TopicsHandler_GetTopicDetails q W w, w)"
| "endpoint_handler E cn DeleteTopic q W w = do { (W, w) \<leftarrow> TopicsHandler_DeleteTopic q W w; Some (True, W, w) }"
| "endpoint_handler E cn GetStats q W w = Some (True, StatsHandler_GetStats W w, w)"
| "endpoint_handler E cn GetShardStats q W w = Some (True, StatsHandler_GetShardStats W w, w)"
| "endpoint_handler E cn GetHealth q W w = Some (True, HealthHandler_GetHealth W w, w)"
| "endpoint_handler E cn GetReadiness q W w = Some (True, HealthHandler_GetReadiness W, w)"
| "endpoint_handler E cn GetLiveness q W w = Some (True, HealthHandler_GetLiveness W, w)"
| "endpoint_handler E cn WebSocket q W w = do {
     (returned, w) \<leftarrow> HandleWebSocket E (cn_upgrade cn q (responseWriterWrapper_Hijack (cn_hijack cn))) (cn_reads cn) w;
     Some (returned, W, w)
   }"

text \<open>The router with its middlewares: \<open>Inl\<close> is mux's own answer, 405 or 404.\<close>

definition router_serve :: "endpoint mux \<Rightarrow> 'r env \<Rightarrow> connection \<Rightarrow> http_request \<Rightarrow> 'r world \<Rightarrow>
    (nat + log_line option \<times> response_writer \<times> 'r world) option" where
  "router_serve M E cn q w =
     (case M server_routes (rq_method q) (rq_path q) of
        Matched h vars \<Rightarrow> map_option Inr (loggingMiddleware (corsMiddleware (endpoint_handler E cn h)) (q\<lparr>rq_vars := vars\<rparr>) new_writer w)
      | MethodMismatch \<Rightarrow> Some (Inl 405)
      | NoMatch \<Rightarrow> Some (Inl 404))"

section \<open>What mux documents\<close>

definition plain_name :: "string \<Rightarrow> bool" where
  "plain_name n \<longleftrightarrow> n \<noteq> [] \<and> CHR ''/'' \<notin> set n \<and> n \<noteq> ''.'' \<and> n \<noteq> ''..''"

text \<open>Paths that mux does not redirect to a cleaned form first.\<close>

definition clean_path :: "string \<Rightarrow> bool" where
  "clean_path p \<longleftrightarrow> (\<exists>segs. p = concat (map (\<lambda>s. CHR ''/'' # s) segs) \<and> list_all plain_name segs)"

definition mux_laws :: "endpoint mux \<Rightarrow> (string \<Rightarrow> string \<Rightarrow> (string, string) gomap option) \<Rightarrow> bool" where
  "mux_laws M tmpl \<longleftrightarrow>
     (\<forall>rs m p. clean_path p \<longrightarrow> M rs m p =
       (case find (\<lambda>r. tmpl (rt_path r) p \<noteq> None \<and> (rt_methods r = [] \<or> m \<in> set (rt_methods r))) rs of
          Some r \<Rightarrow> Matched (rt_handler r) (the (tmpl (rt_path r) p))
        | None \<Rightarrow> if \<exists>r \<in> set rs. tmpl (rt_path r) p \<noteq> None then MethodMismatch else NoMatch)) \<and>
     (\<forall>t p. CHR ''{'' \<notin> set t \<longrightarrow> tmpl t p = (if p = t then Some [] else None)) \<and>
     (\<forall>t v p. CHR ''{'' \<notin> set t \<and> CHR ''}'' \<notin> set v \<longrightarrow> tmpl (t @ ''{'' @ v @ ''}'') p =
        (if take (length t) p = t \<and> plain_name (drop (length t) p) then Some [(v, drop (length t) p)] else None))"

lemma mux_literal: "mux_laws M tmpl \<Longrightarrow> CHR ''{'' \<notin> set t \<Longrightarrow> tmpl t p = (if p = t then Some [] else None)"
  by (simp add: mux_laws_def)

lemma mux_variable:
  assumes "mux_laws M tmpl" "CHR ''{'' \<notin> set t" "CHR ''}'' \<notin> set v"
  shows "tmpl (t @ ''{'' @ v @ ''}'') p =
    (if take (length t) p = t \<and> plain_name (drop (length t) p) then Some [(v, drop (length t) p)] else None)"
  using assms unfolding mux_laws_def by blast

lemma mux_topic:
  assumes "mux_laws M tmpl"
  shows "tmpl ''/topics/{name}'' p =
    (if take 8 p = ''/topics/'' \<and> plain_name (drop 8 p) then Some [(''name'', drop 8 p)] else None)"
  using mux_variable [OF assms, of "''/topics/''" "''name''" p] by (simp add: numeral_eq_Suc)

lemma mux_first:
  assumes "mux_laws M tmpl" "clean_path p"
  shows "M rs m p =
    (case find (\<lambda>r. tmpl (rt_path r) p \<noteq> None \<and> (rt_methods r = [] \<or> m \<in> set (rt_methods r))) rs of
       Some r \<Rightarrow> Matched (rt_handler r) (the (tmpl (rt_path r) p))
     | None \<Rightarrow> if \<exists>r \<in> set rs. tmpl (rt_path r) p \<noteq> None then MethodMismatch else NoMatch)"
  using assms unfolding mux_laws_def by blast

lemma clean_paths:
  "clean_path ''/topics''" "clean_path ''/stats''" "clean_path ''/stats/shards''" "clean_path ''/health''"
  "clean_path ''/ready''" "clean_path ''/live''" "clean_path ''/ws''"
  "plain_name n \<Longrightarrow> clean_path (''/topics/'' @ n)"
proof -
  have segs: "list_all plain_name ss \<Longrightarrow> clean_path (concat (map (\<lambda>s. CHR ''/'' # s) ss))" for ss
    by (auto simp: clean_path_def)
  show "clean_path ''/topics''" "clean_path ''/stats''" "clean_path ''/stats/shards''" "clean_path ''/health''"
    "clean_path ''/ready''" "clean_path ''/live''" "clean_path ''/ws''"
    using segs [of "[''topics'']"] segs [of "[''stats'']"] segs [of "[''stats'', ''shards'']"] segs [of "[''health'']"]
      segs [of "[''ready'']"] segs [of "[''live'']"] segs [of "[''ws'']"] by (simp_all add: plain_name_def)
  show "plain_name n \<Longrightarrow> clean_path (''/topics/'' @ n)" using segs [of "[''topics'', n]"] by (simp add: plain_name_def [of "''topics''"])
qed

text \<open>Dispatch over the routes of the server, path by path.\<close>

lemma dispatch:
  assumes "mux_laws M tmpl" "clean_path p"
  shows "M server_routes m p =
    (if p = ''/topics''
     then (if m = ''POST'' then Matched CreateTopic [] else if m = ''GET'' then Matched ListTopics [] else MethodMismatch)
     else if take 8 p = ''/topics/'' \<and> plain_name (drop 8 p)
     then (if m = ''GET'' then Matched GetTopicDetails [(''name'', drop 8 p)]
           else if m = ''DELETE'' then Matched DeleteTopic [(''name'', drop 8 p)] else MethodMismatch)
     else if p = ''/stats'' then (if m = ''GET'' then Matched GetStats [] else MethodMismatch)
     else if p = ''/stats/shards'' then (if m = ''GET'' then Matched GetShardStats [] else MethodMismatch)
     else if p = ''/health'' then (if m = ''GET'' then Matched GetHealth [] else MethodMismatch)
     else if p = ''/ready'' then (if m = ''GET'' then Matched GetReadiness [] else MethodMismatch)
     else if p = ''/live'' then (if m = ''GET'' then Matched GetLiveness [] else MethodMismatch)
     else if p = ''/ws'' then Matched WebSocket [] else NoMatch)"
  by (simp add: mux_first [OF assms] server_routes_def route_def mux_literal [OF assms(1)] mux_topic [OF assms(1)])

text \<open>
  C31: the routing table. For every router that does what mux documents, each request of
  the API goes to its handler and no other, whatever the topic is called (as long as its
  name is one path segment); another method on a known path is a method mismatch.
\<close>

theorem route_table:
  assumes "mux_laws M tmpl" "plain_name n"
  shows "M server_routes m ''/topics'' =
      (if m = ''POST'' then Matched CreateTopic [] else if m = ''GET'' then Matched ListTopics [] else MethodMismatch) \<and>
    M server_routes m (''/topics/'' @ n) =
      (if m = ''GET'' then Matched GetTopicDetails [(''name'', n)]
       else if m = ''DELETE'' then Matched DeleteTopic [(''name'', n)] else MethodMismatch) \<and>
    M server_routes m ''/stats'' = (if m = ''GET'' then Matched GetStats [] else MethodMismatch) \<and>
    M server_routes m ''/stats/shards'' = (if m = ''GET'' then Matched GetShardStats [] else MethodMismatch) \<and>
    M server_routes m ''/health'' = (if m = ''GET'' then Matched GetHealth [] else MethodMismatch) \<and>
    M server_routes m ''/ready'' = (if m = ''GET'' then Matched GetReadiness [] else MethodMismatch) \<and>
    M server_routes m ''/live'' = (if m = ''GET'' then Matched GetLiveness [] else MethodMismatch) \<and>
    M server_routes m ''/ws'' = Matched WebSocket []"
proof -
  have "M server_routes m (''/topics/'' @ n) =
      (if m = ''GET'' then Matched GetTopicDetails [(''name'', n)]
       else if m = ''DELETE'' then Matched DeleteTopic [(''name'', n)] else MethodMismatch)"
    using assms(2) unfolding dispatch [OF assms(1) clean_paths(8) [OF assms(2)]] by (simp add: plain_name_def)
  then show ?thesis by (simp add: dispatch [OF assms(1)] clean_paths(1-7))
qed

section \<open>The answers of the server\<close>

lemma create_keeps:
  assumes "world_ok w" "Broker_CreateTopic n w = (e, w')"
  shows "world_ok w'"
  using assms world_ok_created(1) [OF assms(1), of n] by (auto simp: Create_eq split: if_splits)

lemma create_answers:
  assumes "world_ok w" "rw_status W = None"
  shows "\<exists>c j W' w'. TopicsHandler_CreateTopic q W w = (W', w') \<and> answered c j W W' \<and> world_ok w'"
proof (cases "decode_body q")
  case None
  then show ?thesis using assms(1) answered_error [OF assms(2)] by (auto simp: TopicsHandler_CreateTopic_def)
next
  case (Some r)
  obtain e w' where c: "Broker_CreateTopic (cr_name r) w = (e, w')" by (cases "Broker_CreateTopic (cr_name r) w")
  have err: "\<exists>c' j. answered c' j W (sendErrorResponse c s W)" for c s using answered_error [OF assms(2)] by blast
  note ok = create_keeps [OF assms(1) c]
  show ?thesis
  proof (cases "cr_name r = []")
    case True
    then show ?thesis using Some assms(1) err by (auto simp: TopicsHandler_CreateTopic_def)
  next
    case False
    show ?thesis
    proof (cases e)
      case None
      then show ?thesis using Some False c ok answered_send [OF assms(2), of 201] by (auto simp: TopicsHandler_CreateTopic_def)
    next
      case (Some x)
      then show ?thesis using \<open>decode_body q = Some r\<close> False c ok err
        by (auto simp: TopicsHandler_CreateTopic_def)
    qed
  qed
qed

lemma delete_answers:
  assumes "world_ok w" "rw_status W = None"
  shows "\<exists>c j W' w'. TopicsHandler_DeleteTopic q W w = Some (W', w') \<and> answered c j W W' \<and> world_ok w'"
  using assms answered_error [OF assms(2)] answered_send [OF assms(2)] world_ok_deleted(1) [OF assms(1)]
  by (auto simp: TopicsHandler_DeleteTopic_def Delete_eq Let_def split: option.split; fastforce)

lemma rest_answers:
  assumes "world_ok w" "rw_status W = None" "h \<noteq> WebSocket"
  shows "\<exists>c j W' w'. endpoint_handler E cn h q W w = Some (True, W', w') \<and> answered c j W W' \<and> world_ok w'"
proof (cases h)
  case CreateTopic
  then show ?thesis using create_answers [OF assms(1,2), of q] by fastforce
next
  case DeleteTopic
  then show ?thesis using delete_answers [OF assms(1,2), of q] by fastforce
next
  case GetTopicDetails
  then show ?thesis
    using assms(1) answered_error [OF assms(2), of 400] answered_error [OF assms(2), of 404] answered_send [OF assms(2), of 200]
    by (simp add: TopicsHandler_GetTopicDetails_def Let_def split: sum.split) blast
next
  case ListTopics
  then show ?thesis using assms(1) answered_send [OF assms(2), of 200] by (simp add: TopicsHandler_ListTopics_def) blast
qed (use assms answered_encode [OF assms(2)] in
     \<open>auto simp: TopicsHandler_ListTopics_def StatsHandler_GetStats_def StatsHandler_GetShardStats_def Let_def
        HealthHandler_GetHealth_def HealthHandler_GetReadiness_def HealthHandler_GetLiveness_def\<close>)

text \<open>
  C30: every REST request that is routed gets one JSON document and a status, with the CORS
  headers of the middleware on it; it does not panic, keeps the invariant, and the log line
  has the method, the path and the status that was sent.
\<close>

theorem rest_served:
  assumes "world_ok w" "M server_routes (rq_method q) (rq_path q) = Matched h vars" "h \<noteq> WebSocket" "rq_method q \<noteq> ''OPTIONS''"
  shows "\<exists>l W w' c. router_serve M E cn q w = Some (Inr (Some l, W, w')) \<and> world_ok w' \<and>
    rw_status W = Some c \<and> length (rw_body W) = 1 \<and>
    l = \<lparr>ll_method = rq_method q, ll_path = rq_path q, ll_status = c\<rparr> \<and>
    gm_get (rw_header W) ''Content-Type'' = Some ''application/json'' \<and>
    gm_get (rw_header W) ''Access-Control-Allow-Origin'' = Some ''*'' \<and>
    gm_get (rw_header W) ''Access-Control-Allow-Methods'' = Some ''GET, POST, DELETE, OPTIONS''"
proof -
  let ?W = "cors_headers (new_writer\<lparr>rw_wrapper := Some 200\<rparr>)"
  have W: "rw_status ?W = None" "rw_body ?W = []" "rw_wrapper ?W = Some 200"
    by (simp_all add: cors_headers_def Header_Set_def new_writer_def)
  obtain c j W' w' where h: "endpoint_handler E cn h (q\<lparr>rq_vars := vars\<rparr>) ?W w = Some (True, W', w')"
      "answered c j ?W W'" "world_ok w'"
    using rest_answers [OF assms(1) W(1) assms(3), of E cn "q\<lparr>rq_vars := vars\<rparr>"] by blast
  have "gm_get (rw_header W') k = (if k = ''Content-Type'' then Some ''application/json'' else gm_get (rw_header ?W) k)" for k
    using h(2) by (simp add: answered_def gm.get_put)
  moreover have "gm_get (rw_header ?W) ''Access-Control-Allow-Origin'' = Some ''*''"
    "gm_get (rw_header ?W) ''Access-Control-Allow-Methods'' = Some ''GET, POST, DELETE, OPTIONS''"
    by (simp_all add: cors_headers_def Header_Set_def gm.get_put)
  moreover have "router_serve M E cn q w = Some (Inr (Some \<lparr>ll_method = rq_method q, ll_path = rq_path q, ll_status = c\<rparr>,
      W'\<lparr>rw_wrapper := None\<rparr>, w'))"
    using assms(2,4) h W by (simp add: router_serve_def loggingMiddleware_def corsMiddleware_def Let_def answered_def new_writer_def)
  ultimately show ?thesis using h(2,3) W(2) by (simp add: answered_def)
qed

text \<open>
  C33: a CORS preflight of the API is not answered by the CORS middleware. No REST route
  accepts OPTIONS and mux runs middlewares only around a match, so the preflight of every
  REST path ends in mux's own 405 without the CORS headers; only \<^verbatim>\<open>/ws\<close>, which has no method
  restriction, gets the middleware's 200.
\<close>

theorem preflight_not_allowed:
  assumes "mux_laws M tmpl" "rq_method q = ''OPTIONS''"
    "rq_path q \<in> {''/topics'', ''/stats'', ''/stats/shards'', ''/health'', ''/ready'', ''/live''} \<or>
     (\<exists>n. plain_name n \<and> rq_path q = ''/topics/'' @ n)"
  shows "router_serve M E cn q w = Some (Inl 405)"
proof -
  have "clean_path (rq_path q)" using assms(3) clean_paths by auto
  from dispatch [OF assms(1) this, of "''OPTIONS''"] assms(3)
  have "M server_routes ''OPTIONS'' (rq_path q) = MethodMismatch" by (auto simp: plain_name_def)
  then show ?thesis using assms(2) by (simp add: router_serve_def)
qed

text \<open>
  C32: the process starts a broker exactly when \<^verbatim>\<open>REDIS_ADDR\<close> is set and Redis answers the
  first ping; this broker satisfies the invariant, has no topics, and keeps 100 messages of
  each topic, the number that fills a subscriber's queue.
\<close>

theorem main_starts:
  "(main_broker getenv R dial t \<noteq> None \<longleftrightarrow>
      getenv ''REDIS_ADDR'' \<noteq> [] \<and> rd_Ping R (dial (getenv ''REDIS_ADDR'') (getenv ''REDIS_PASSWORD'') 0) = None) \<and>
   (\<forall>w. main_broker getenv R dial t = Some w \<longrightarrow>
      world_ok w \<and> abs_broker w = (\<lambda>_. None) \<and> startTime w = t \<and> replaySize (storage w) = int SubscriberQueueSize \<and>
      client (storage w) = dial (getenv ''REDIS_ADDR'') (getenv ''REDIS_PASSWORD'') 0)"
proof -
  let ?c = "dial (getenv ''REDIS_ADDR'') (getenv ''REDIS_PASSWORD'') 0"
  let ?st = "\<lparr>client = ?c, topicPrefix = ''pubsub:topic:'', replayPrefix = ''pubsub:replay:'', replaySize = 100\<rparr>"
  have run: "main_broker getenv R dial t =
      (if getenv ''REDIS_ADDR'' = [] \<or> rd_Ping R ?c \<noteq> None then None else NewBroker t (Some ?st))"
    by (cases "getenv ''REDIS_PASSWORD'' = []")
      (simp_all add: main_broker_def getEnvOrDefault_def Let_def NewRedisStorage_def split: option.split)
  have "world_ok w \<and> abs_broker w = (\<lambda>_. None) \<and> startTime w = t \<and> storage w = ?st" if "NewBroker t (Some ?st) = Some w" for w
    using world_ok_new [OF that] that by (auto simp: abs_broker_def NewBroker_def fun_eq_iff)
  moreover have "NewBroker t (Some ?st) \<noteq> None" by (simp add: NewBroker_def)
  ultimately show ?thesis unfolding run by (auto simp: SubscriberQueueSize_def)
qed

section \<open>A router that satisfies the laws\<close>

definition example_tmpl :: "string \<Rightarrow> string \<Rightarrow> (string, string) gomap option" where
  "example_tmpl t p =
     (let lit = takeWhile (\<lambda>c. c \<noteq> CHR ''{'') t; var = takeWhile (\<lambda>c. c \<noteq> CHR ''}'') (drop (length lit + 1) t) in
      if lit = t then (if p = t then Some [] else None)
      else if take (length lit) p = lit \<and> plain_name (drop (length lit) p) then Some [(var, drop (length lit) p)] else None)"

definition example_mux :: "endpoint mux" where
  "example_mux rs m p =
     (case find (\<lambda>r. example_tmpl (rt_path r) p \<noteq> None \<and> (rt_methods r = [] \<or> m \<in> set (rt_methods r))) rs of
        Some r \<Rightarrow> Matched (rt_handler r) (the (example_tmpl (rt_path r) p))
      | None \<Rightarrow> if \<exists>r \<in> set rs. example_tmpl (rt_path r) p \<noteq> None then MethodMismatch else NoMatch)"

lemma takeWhile_upto: "c \<notin> set t \<Longrightarrow> takeWhile (\<lambda>x. x \<noteq> c) (t @ c # v) = t"
  by (induction t) auto

lemma takeWhile_none: "c \<notin> set t \<Longrightarrow> takeWhile (\<lambda>x. x \<noteq> c) t = t"
  by (induction t) auto

lemma example_mux_laws: "mux_laws example_mux example_tmpl"
  unfolding mux_laws_def
proof (intro conjI allI impI)
  fix t v p :: string assume a: "CHR ''{'' \<notin> set t \<and> CHR ''}'' \<notin> set v"
  show "example_tmpl (t @ ''{'' @ v @ ''}'') p =
      (if take (length t) p = t \<and> plain_name (drop (length t) p) then Some [(v, drop (length t) p)] else None)"
    using takeWhile_upto [of "CHR ''{''" t "v @ ''}''"] takeWhile_upto [of "CHR ''}''" v "[]"] a
    by (simp add: example_tmpl_def Let_def)
qed (simp_all add: example_mux_def example_tmpl_def takeWhile_none)

theorem route_table_witness:
  "example_mux server_routes ''DELETE'' ''/topics/news'' = Matched DeleteTopic [(''name'', ''news'')] \<and>
   example_mux server_routes ''PUT'' ''/topics'' = MethodMismatch"
proof -
  have "plain_name ''news''" by (simp add: plain_name_def)
  from route_table [OF example_mux_laws this] show ?thesis by simp
qed

definition example_connection :: connection where
  "example_connection = \<lparr>cn_hijack = None, cn_upgrade = (\<lambda>q h. False), cn_reads = []\<rparr>"

theorem rest_served_witness:
  "\<exists>l W w'. router_serve example_mux example_env example_connection (topic_request ''DELETE'' ''news'') example_world
       = Some (Inr (Some l, W, w')) \<and> rw_status W = Some (ll_status l)"
proof -
  have "example_mux server_routes ''DELETE'' (''/topics/'' @ ''news'') = Matched DeleteTopic [(''name'', ''news'')]"
    using dispatch [OF example_mux_laws clean_paths(8) [of "''news''"], of "''DELETE''"] by (simp add: plain_name_def)
  then show ?thesis
    using rest_served [where q = "topic_request ''DELETE'' ''news''" and M = example_mux and h = DeleteTopic
        and vars = "[(''name'', ''news'')]" and E = example_env and cn = example_connection, OF example_world_ok(1)]
    by (fastforce simp: topic_request_def)
qed

theorem preflight_not_allowed_witness:
  "router_serve example_mux example_env example_connection (topic_request ''OPTIONS'' ''news'') example_world = Some (Inl 405)"
  using preflight_not_allowed [OF example_mux_laws, of "topic_request ''OPTIONS'' ''news''"]
  by (simp add: topic_request_def plain_name_def)

theorem main_starts_witness:
  "\<exists>w. main_broker (\<lambda>k. ''redis:6379'') mem_redis (\<lambda>a p db. (\<lambda>_. [])) 0 = Some w \<and> world_ok w"
proof -
  have "rd_Ping mem_redis r = None" for r by (simp add: mem_redis_def)
  with main_starts [of "\<lambda>k. ''redis:6379''" mem_redis "\<lambda>a p db. (\<lambda>_. [])" 0] show ?thesis by fastforce
qed

end
