(* ===== verification/Server_Process.thy ===== *)
theory Server_Process
  imports Http_Server
begin

text \<open>
  \<^verbatim>\<open>cmd/server/main.go\<close>: the process around the router. The settings of the HTTP server, how
  the process ends, and what it logs at its start and at its end. What the listener and
  \<open>Shutdown\<close> of \<^verbatim>\<open>net/http\<close> report, and the signal, are parameters.
\<close>

record http_server =
  hs_Addr :: string
  hs_ReadTimeout :: time
  hs_WriteTimeout :: time
  hs_IdleTimeout :: time

definition new_http_server :: "(string \<Rightarrow> string) \<Rightarrow> http_server" where
  "new_http_server getenv = \<lparr>hs_Addr = server_address getenv, hs_ReadTimeout = 15 * second,
     hs_WriteTimeout = 15 * second, hs_IdleTimeout = 60 * second\<rparr>"

text \<open>The goroutine of the listener logs this before it listens; the two signs are UTF-8.\<close>

definition startup_log :: "string \<Rightarrow> bool \<Rightarrow> string list" where
  "startup_log serverAddress hasRedis =
     [''HTTP server listening on '' @ serverAddress, ''WebSocket endpoint: ws://localhost:8080/ws'',
      ''REST API endpoints:'',
      ''  POST   /topics         - Create topic'',
      ''  GET    /topics         - List topics'',
      ''  GET    /topics/{name}  - Get topic details'',
      ''  DELETE /topics/{name}  - Delete topic'',
      ''  GET    /stats          - Get statistics'',
      ''  GET    /health         - Get health status'',
      [],
      [CHR 0xF0, CHR 0x9F, CHR 0x92, CHR 0xBE] @
        (if hasRedis then '' Persistence: Redis enabled'' else '' Persistence: In-memory only''),
      [],
      [CHR 0xF0, CHR 0x9F, CHR 0x93, CHR 0xA6] @ '' SDKs available:'',
      ''  JavaScript: sdk/js/'',
      ''  Go:         sdk/go/'']"

definition setupGracefulShutdown :: "string \<Rightarrow> go_error option \<Rightarrow> ('r, 'a) broker_scheme \<Rightarrow> string list" where
  "setupGracefulShutdown sig shutdown brokerInstance =
     [''Received shutdown signal: '' @ sig, ''Starting graceful shutdown...'', ''Shutting down HTTP server...''] @
     (case shutdown of None \<Rightarrow> [] | Some err \<Rightarrow> [''HTTP server shutdown error: '' @ err]) @
     [''Server stopped gracefully'', ''Final statistics: '' @ Broker_String brokerInstance]"

text \<open>
  What happens first: the listener returns, or a signal arrives. \<open>log.Fatalf\<close> ends the process
  with status 1; \<open>main\<close> returns after the shutdown. \<open>ErrServerClosed\<close> is not an error: \<open>main\<close>
  goes on waiting (\<open>None\<close>).
\<close>

datatype first_event = ListenerReturns "go_error option" | Signal string "go_error option"

datatype process_end = FatalExit string | Returns "string list"

definition ErrServerClosed :: go_error where
  "ErrServerClosed = ''http: Server closed''"

definition main_end :: "first_event \<Rightarrow> ('r, 'a) broker_scheme \<Rightarrow> process_end option" where
  "main_end ev w = (case ev of
       ListenerReturns (Some err) \<Rightarrow>
         if err \<noteq> ErrServerClosed then Some (FatalExit (''HTTP server error: '' @ err)) else None
     | ListenerReturns None \<Rightarrow> None
     | Signal sig shutdown \<Rightarrow> Some (Returns (setupGracefulShutdown sig shutdown w)))"

text \<open>The statistics in the last line are those of the broker, whether or not \<open>Shutdown\<close> succeeded.\<close>

lemma shutdown_reports:
  assumes "main_end (Signal sig shutdown) w = Some (Returns ls)"
  shows "last ls = ''Final statistics: '' @ Broker_String w \<and> ''Server stopped gracefully'' \<in> set ls"
  using assms by (auto simp: main_end_def setupGracefulShutdown_def)

lemma final_statistics:
  assumes "world_ok w"
  shows "Broker_String w = ''Broker{topics='' @ itoa (int (card (dom (abs_broker w)))) @ '', subscribers='' @
    itoa (int (Broker_GetTotalSubscriberCount w)) @ '', uptime='' @ duration_string (clock w - startTime w) @ ''}''"
  using TotalTopicCount_card [OF world_okD(2) [OF assms]] by (simp add: Broker_String_def)

end
