(* ===== verification/Broker_Conc.thy ===== *)
theory Broker_Conc
  imports Broker_Spec
begin

text \<open>
  The broker used by several goroutines at once, at the granularity of its locks. Each call
  of \<^verbatim>\<open>internal/broker/broker.go\<close> is cut where another goroutine can get in between:
  \<open>CreateTopic\<close> reads the count of one shard after the other before it locks the shard of the
  new topic; the other calls look the topic up, give the lock of the shard back, and go on
  with the pointer they got. A shard or a topic stays locked over several actions only in
  \<open>DeleteTopic\<close>, which notifies the subscribers one by one; all other critical sections are one
  action. \<open>SendMessage\<close> is three: it reads the flag and gives the lock of the subscriber back,
  then tries to put the message into the channel, and runs the slow-consumer policy, which
  holds the lock throughout, when that is full. The Redis commands of one \<open>SaveMessage\<close> are one
  action. Between two actions, write loops, closes, new connections and the clock may change
  the subscribers and the time: \<open>others_may\<close>.
\<close>

section \<open>Goroutines\<close>

text \<open>Where a goroutine is in \<open>SendMessage\<close>: at the flag, at the \<open>select\<close>, at the slow-consumer policy.\<close>

datatype send_stage = Check | Select | Slow

datatype broker_pc =
    Finished "go_error option"    \<comment> \<open>idle, with the result of the last call\<close>
  | CountShards string nat nat    \<comment> \<open>\<open>GetTotalTopicCount\<close>: next shard, total so far\<close>
  | InsertTopic string
  | RemoveTopic string
  | CloseTopic string nat         \<comment> \<open>shard locked, at the lock of the topic\<close>
  | NotifyMembers string nat "nat server_message" send_stage "nat list"  \<comment> \<open>shard and topic locked\<close>
  | UnlistMember string nat "nat server_message" nat "nat list"          \<comment> \<open>at \<open>RemoveTopic\<close> after the send\<close>
  | ForgetTopic string            \<comment> \<open>shard locked, subscribers notified\<close>
  | FindTopic broker_op
  | JoinTopic nat nat
  | LeaveTopic nat string
  | StoreMessage string nat message
  | CountMessage nat message
  | ListMembers nat "nat server_message"
  | DeliverTo "nat server_message" send_stage "nat list"

record 'r bconc =
  bw :: "'r broker"
  bpcs :: "broker_pc list"
  locked_shards :: "nat set"
  locked_topics :: "nat set"

text \<open>An action is carried out, or waits for a lock or a call, or panics.\<close>

datatype 'r outcome = Waits | Panics | Goes "'r bconc"

definition bgoto :: "nat \<Rightarrow> broker_pc \<Rightarrow> 'r broker \<Rightarrow> 'r bconc \<Rightarrow> 'r outcome" where
  "bgoto i l w c = Goes (c\<lparr>bw := w, bpcs := (bpcs c)[i := l]\<rparr>)"

fun call_pc :: "broker_op \<Rightarrow> broker_pc" where
  "call_pc (OpCreate n) = (if n = [] then Finished (Some ''topic_name_empty'') else CountShards n 0 0)"
| "call_pc (OpDelete n) = RemoveTopic n"
| "call_pc x = FindTopic x"

fun op_topic :: "broker_op \<Rightarrow> string" where
  "op_topic (OpCreate n) = n" | "op_topic (OpDelete n) = n" | "op_topic (OpSubscribe n r) = n"
| "op_topic (OpUnsubscribe n cid) = n" | "op_topic (OpPublish n m) = n"

text \<open>Where a call goes on that has found its topic.\<close>

fun found_pc :: "broker_op \<Rightarrow> nat \<Rightarrow> broker_pc" where
  "found_pc (OpSubscribe n r) p = JoinTopic p r"
| "found_pc (OpUnsubscribe n cid) p = LeaveTopic p cid"
| "found_pc (OpPublish n m) p = StoreMessage n p m"
| "found_pc x p = Finished None"    \<comment> \<open>no other call looks up a topic first\<close>

definition put_topic :: "nat \<Rightarrow> topic \<Rightarrow> 'r broker \<Rightarrow> 'r broker" where
  [go_defs]: "put_topic p t w = w\<lparr>topics := (topics w)[p := t]\<rparr>"

definition put_shard :: "nat \<Rightarrow> shard \<Rightarrow> 'r broker \<Rightarrow> 'r broker" where
  [go_defs]: "put_shard s sh w = w\<lparr>shards := (shards w)[s := sh]\<rparr>"

definition put_sub :: "nat \<Rightarrow> subscriber \<Rightarrow> 'r broker \<Rightarrow> 'r broker" where
  [go_defs]: "put_sub r s w = w\<lparr>subs := (subs w)[r := s]\<rparr>"

text \<open>
  One action of \<open>SendMessage\<close>: the subscriber afterwards, and the stage that comes next if the
  call has not returned. A send to a closed channel is a panic.
\<close>

definition send_step :: "time \<Rightarrow> nat server_message \<Rightarrow> send_stage \<Rightarrow> subscriber \<Rightarrow> (send_stage option \<times> subscriber) option" where
  "send_step t m g s = (case g of
     Check \<Rightarrow> Some (if isClosedFlag s then None else Some Select, s)
   | Select \<Rightarrow> (case chan_try_send (messageQueue s) m of
        Sent q \<Rightarrow> Some (None, s\<lparr>messageQueue := q\<rparr>)
      | Default \<Rightarrow> Some (Some Slow, s)
      | SendPanic \<Rightarrow> None)
   | Slow \<Rightarrow> map_option (\<lambda>s. (None, s)) (Subscriber_HandleSlowConsumer t s))"

text \<open>The next action of goroutine \<open>i\<close>.\<close>

definition broker_action :: "'r redis_api \<Rightarrow> nat \<Rightarrow> 'r bconc \<Rightarrow> 'r outcome" where
  "broker_action R i c = (let w = bw c in
     case bpcs c ! i of
       Finished e \<Rightarrow> Waits
     | CountShards n k seen \<Rightarrow>
         if k < ShardCount then
           (if k \<in> locked_shards c then Waits
            else bgoto i (CountShards n (k + 1) (seen + Shard_GetTopicCount (shards w ! k))) w c)
         else if seen \<ge> MaxTopicsLimit then bgoto i (Finished (Some ErrorCodeMaxTopicsReached)) w c
         else bgoto i (InsertTopic n) w c
     | InsertTopic n \<Rightarrow> (let k = selectShardForTopic n in
         if k \<in> locked_shards c then Waits
         else case Shard_CreateTopic n (shards w ! k) w of
           (err, sh, w) \<Rightarrow> bgoto i (Finished err) (put_shard k sh w) c)
     | RemoveTopic n \<Rightarrow> (let k = selectShardForTopic n in
         if k \<in> locked_shards c then Waits
         else case Shard_GetTopic n (shards w ! k) of
           None \<Rightarrow> bgoto i (Finished (Some ''topic_not_found'')) w c
         | Some p \<Rightarrow> bgoto i (CloseTopic n p) w (c\<lparr>locked_shards := insert k (locked_shards c)\<rparr>))
     | CloseTopic n p \<Rightarrow>
         if p \<in> locked_topics c then Waits
         else bgoto i (NotifyMembers n p (deleted_message (topicName (topics w ! p)) (clock w)) Check
             (gm_vals (subscribers (topics w ! p)))) w (c\<lparr>locked_topics := insert p (locked_topics c)\<rparr>)
     | NotifyMembers n p m g rs \<Rightarrow> (case rs of
           [] \<Rightarrow> bgoto i (ForgetTopic n) (put_topic p ((topics w ! p)\<lparr>subscribers := []\<rparr>) w)
               (c\<lparr>locked_topics := locked_topics c - {p}\<rparr>)
         | r # rs' \<Rightarrow> (case send_step (clock w) m g (subs w ! r) of
             None \<Rightarrow> Panics
           | Some (Some g, s) \<Rightarrow> bgoto i (NotifyMembers n p m g rs) (put_sub r s w) c
           | Some (None, s) \<Rightarrow> bgoto i (UnlistMember n p m r rs') (put_sub r s w) c))
     | UnlistMember n p m r rs \<Rightarrow>
         bgoto i (NotifyMembers n p m Check rs) (put_sub r (Subscriber_RemoveTopic (topicName (topics w ! p)) (subs w ! r)) w) c
     | ForgetTopic n \<Rightarrow> (let k = selectShardForTopic n; sh = shards w ! k in
         bgoto i (Finished None) (put_shard k (sh\<lparr>topicsMap := gm_del n (topicsMap sh)\<rparr>) w)
           (c\<lparr>locked_shards := locked_shards c - {k}\<rparr>))
     | FindTopic x \<Rightarrow>
         if selectShardForTopic (op_topic x) \<in> locked_shards c then Waits
         else (case Broker_GetTopic (op_topic x) w of
           Inl err \<Rightarrow> bgoto i (Finished (Some err)) w c
         | Inr p \<Rightarrow> bgoto i (found_pc x p) w c)
     | JoinTopic p r \<Rightarrow>
         if p \<in> locked_topics c then Waits
         else (case Topic_AddSubscriber r (topics w ! p) w of
           (err, t, w) \<Rightarrow> bgoto i (Finished err) (put_topic p t w) c)
     | LeaveTopic p cid \<Rightarrow>
         if p \<in> locked_topics c then Waits
         else (case Topic_RemoveSubscriber cid (topics w ! p) w of
           (t, w) \<Rightarrow> bgoto i (Finished None) (put_topic p t w) c)
     | StoreMessage n p m \<Rightarrow> (case RedisStorage_SaveMessage R n m (storage w) of
           (Some err, st) \<Rightarrow> bgoto i (Finished (Some (''failed to persist message: '' @ err))) (w\<lparr>storage := st\<rparr>) c
         | (None, st) \<Rightarrow> bgoto i (CountMessage p m) (w\<lparr>storage := st\<rparr>) c)
     | CountMessage p m \<Rightarrow> (let t = topics w ! p in
         bgoto i (ListMembers p (publication t w))
           (put_topic p (t\<lparr>totalMessageCount := totalMessageCount t + 1\<rparr>) (w\<lparr>cells := cells w @ [m]\<rparr>)) c)
     | ListMembers p m \<Rightarrow>
         if p \<in> locked_topics c then Waits
         else bgoto i (DeliverTo m Check (gm_vals (subscribers (topics w ! p)))) w c
     | DeliverTo m g rs \<Rightarrow> (case rs of
           [] \<Rightarrow> bgoto i (Finished None) w c
         | r # rs' \<Rightarrow> (case send_step (clock w) m g (subs w ! r) of
             None \<Rightarrow> Panics
           | Some (Some g, s) \<Rightarrow> bgoto i (DeliverTo m g rs) (put_sub r s w) c
           | Some (None, s) \<Rightarrow> bgoto i (DeliverTo m Check rs') (put_sub r s w) c)))"

text \<open>What the rest of the process may do between two actions of the broker.\<close>

definition others_may :: "'r broker \<Rightarrow> 'r broker \<Rightarrow> bool" where
  "others_may w w' \<longleftrightarrow> (\<exists>t cs ss. w' = w\<lparr>clock := t, cells := cells w @ cs, subs := ss\<rparr> \<and>
     length (subs w) \<le> length ss \<and> distinct (map clientID ss) \<and>
     (\<forall>r < length ss. sub_ok (ss ! r) \<and> queue_refs_ok (cells w @ cs) (ss ! r)) \<and>
     (\<forall>r < length (subs w). clientID (ss ! r) = clientID (subs w ! r)))"

text \<open>Runs: an idle goroutine makes a call among \<open>A\<close>, or one takes its next action.\<close>

inductive bruns :: "'r redis_api \<Rightarrow> (broker_op \<Rightarrow> bool) \<Rightarrow> 'r bconc \<Rightarrow> 'r bconc \<Rightarrow> bool" for R A c0 where
  here: "bruns R A c0 c0"
| call: "bruns R A c0 c \<Longrightarrow> i < length (bpcs c) \<Longrightarrow> bpcs c ! i = Finished e \<Longrightarrow> A x \<Longrightarrow> op_valid x (bw c) \<Longrightarrow>
    bruns R A c0 (c\<lparr>bpcs := (bpcs c)[i := call_pc x]\<rparr>)"
| act: "bruns R A c0 c \<Longrightarrow> i < length (bpcs c) \<Longrightarrow> broker_action R i c = Goes c' \<Longrightarrow> bruns R A c0 c'"
| others: "bruns R A c0 c \<Longrightarrow> others_may (bw c) w' \<Longrightarrow> bruns R A c0 (c\<lparr>bw := w'\<rparr>)"

definition all_idle :: "'r broker \<Rightarrow> nat \<Rightarrow> 'r bconc" where
  "all_idle w K = \<lparr>bw = w, bpcs = replicate K (Finished None), locked_shards = {}, locked_topics = {}\<rparr>"

section \<open>The invariant\<close>

text \<open>The world, without the limit on the topics and the links, which need whole calls.\<close>

definition shared_ok :: "('r, 'a) broker_scheme \<Rightarrow> bool" where
  "shared_ok w \<longleftrightarrow> objects_ok w \<and> shards_ok w \<and>
     (\<forall>n p. lookup w n = Some p \<longrightarrow> n \<noteq> [] \<and> p < length (topics w) \<and> topicName (topics w ! p) = n)"

fun holds_shard :: "broker_pc \<Rightarrow> nat option" where
  "holds_shard (CloseTopic n p) = Some (selectShardForTopic n)"
| "holds_shard (NotifyMembers n p m g rs) = Some (selectShardForTopic n)"
| "holds_shard (UnlistMember n p m r rs) = Some (selectShardForTopic n)"
| "holds_shard (ForgetTopic n) = Some (selectShardForTopic n)"
| "holds_shard _ = None"

fun holds_topic :: "broker_pc \<Rightarrow> nat option" where
  "holds_topic (NotifyMembers n p m g rs) = Some p"
| "holds_topic (UnlistMember n p m r rs) = Some p"
| "holds_topic _ = None"

fun pc_ok :: "'r broker \<Rightarrow> broker_pc \<Rightarrow> bool" where
  "pc_ok w (CountShards n k seen) = (n \<noteq> [] \<and> k \<le> ShardCount)"
| "pc_ok w (InsertTopic n) = (n \<noteq> [])"
| "pc_ok w (CloseTopic n p) = (lookup w n = Some p)"
| "pc_ok w (NotifyMembers n p m g rs) = (lookup w n = Some p \<and> set rs \<subseteq> {..<length (subs w)} \<and> s_message m = None)"
| "pc_ok w (UnlistMember n p m r rs) =
    (lookup w n = Some p \<and> r < length (subs w) \<and> set rs \<subseteq> {..<length (subs w)} \<and> s_message m = None)"
| "pc_ok w (FindTopic x) = op_valid x w"
| "pc_ok w (JoinTopic p r) = (p < length (topics w) \<and> r < length (subs w))"
| "pc_ok w (LeaveTopic p cid) = (p < length (topics w))"
| "pc_ok w (StoreMessage n p m) = (p < length (topics w))"
| "pc_ok w (CountMessage p m) = (p < length (topics w))"
| "pc_ok w (ListMembers p m) = (p < length (topics w) \<and> (\<forall>q. s_message m = Some q \<longrightarrow> q < length (cells w)))"
| "pc_ok w (DeliverTo m g rs) = (set rs \<subseteq> {..<length (subs w)} \<and> (\<forall>q. s_message m = Some q \<longrightarrow> q < length (cells w)))"
| "pc_ok w _ = True"

text \<open>
  A lock is taken exactly when a goroutine is inside it, and then it is the only one:
  \<open>h\<close> tells which lock a goroutine holds, \<open>L\<close> is the set of the locks taken.
\<close>

definition excl :: "(broker_pc \<Rightarrow> nat option) \<Rightarrow> nat set \<Rightarrow> broker_pc list \<Rightarrow> bool" where
  "excl h L ps \<longleftrightarrow> (\<forall>k. k \<in> L \<longleftrightarrow> (\<exists>i < length ps. h (ps ! i) = Some k)) \<and>
     (\<forall>i < length ps. \<forall>j < length ps. \<forall>k. h (ps ! i) = Some k \<and> h (ps ! j) = Some k \<longrightarrow> i = j)"

definition bconc_ok :: "'r bconc \<Rightarrow> bool" where
  "bconc_ok c \<longleftrightarrow> shared_ok (bw c) \<and> excl holds_shard (locked_shards c) (bpcs c) \<and>
     excl holds_topic (locked_topics c) (bpcs c) \<and> (\<forall>i < length (bpcs c). pc_ok (bw c) (bpcs c ! i))"

lemma exclD:
  assumes "excl h L ps" "i < length ps" "h (ps ! i) = Some k"
  shows "k \<in> L" "j < length ps \<Longrightarrow> h (ps ! j) = Some k \<Longrightarrow> j = i"
  using assms by (auto simp: excl_def)

text \<open>One goroutine goes on, taking or giving back locks.\<close>

lemma excl_goto:
  assumes "excl h L ps" "i < length ps" "\<And>k. h l = Some k \<Longrightarrow> h (ps ! i) = Some k \<or> k \<notin> L"
  shows "excl h (L - set_option (h (ps ! i)) \<union> set_option (h l)) (ps[i := l])"
proof -
  have L: "k \<in> L \<longleftrightarrow> (\<exists>j < length ps. h (ps ! j) = Some k)" for k using assms(1) by (simp add: excl_def)
  have one: "j = j'" if "j < length ps" "j' < length ps" "h (ps ! j) = Some k" "h (ps ! j') = Some k" for j j' k
    using assms(1) that by (auto simp: excl_def)
  have "k \<in> L - set_option (h (ps ! i)) \<union> set_option (h l) \<longleftrightarrow> (\<exists>j < length ps. h (ps[i := l] ! j) = Some k)" for k
  proof (cases "h l = Some k")
    case True
    then show ?thesis using assms(2) by (auto intro!: exI [of _ i])
  next
    case False
    have "k \<in> L \<and> h (ps ! i) \<noteq> Some k \<longleftrightarrow> (\<exists>j < length ps. j \<noteq> i \<and> h (ps ! j) = Some k)"
      unfolding L using one assms(2) by blast
    moreover have "(\<exists>j < length ps. h (ps[i := l] ! j) = Some k) \<longleftrightarrow> (\<exists>j < length ps. j \<noteq> i \<and> h (ps ! j) = Some k)"
      using False assms(2) by (metis nth_list_update_eq nth_list_update_neq)
    ultimately show ?thesis using False by (simp add: elem_set)
  qed
  moreover have "j = j'" if j: "j < length ps" "j' < length ps" "h (ps[i := l] ! j) = Some k" "h (ps[i := l] ! j') = Some k" for j j' k
    using j one [OF j(1,2)] one [OF j(1) assms(2)] one [OF j(2) assms(2)] assms(3) [of k] exclD(1) [OF assms(1) j(1)]
      exclD(1) [OF assms(1) j(2)]
    by (cases "j = i"; cases "j' = i") (simp, force, force, simp)
  ultimately show ?thesis by (simp add: excl_def)
qed

text \<open>What the action of another goroutine leaves to the others.\<close>

definition grows :: "'r broker \<Rightarrow> 'r broker \<Rightarrow> bool" where
  "grows w w' \<longleftrightarrow> length (topics w) \<le> length (topics w') \<and> length (subs w) \<le> length (subs w') \<and>
     length (cells w) \<le> length (cells w')"

lemma pc_ok_keep:
  assumes "pc_ok w l" "grows w w'" "\<And>n. holds_shard l = Some (selectShardForTopic n) \<Longrightarrow> lookup w' n = lookup w n"
  shows "pc_ok w' l"
proof (cases l)
  case (FindTopic x)
  then show ?thesis using assms by (cases x) (auto simp: grows_def)
qed (use assms in \<open>force simp: grows_def\<close>)+

lemma goto_ok:
  assumes c: "bconc_ok c" "i < length (bpcs c)" and w: "shared_ok w'" "pc_ok w' l" "grows (bw c) w'"
    and "\<And>n. selectShardForTopic n \<in> locked_shards c \<Longrightarrow> holds_shard (bpcs c ! i) \<noteq> Some (selectShardForTopic n) \<Longrightarrow>
      lookup w' n = lookup (bw c) n"
    and k: "\<And>k. holds_shard l = Some k \<Longrightarrow> holds_shard (bpcs c ! i) = Some k \<or> k \<notin> locked_shards c"
      "\<And>k. holds_topic l = Some k \<Longrightarrow> holds_topic (bpcs c ! i) = Some k \<or> k \<notin> locked_topics c"
    and c': "bw c' = w'" "bpcs c' = (bpcs c)[i := l]"
      "locked_shards c' = locked_shards c - set_option (holds_shard (bpcs c ! i)) \<union> set_option (holds_shard l)"
      "locked_topics c' = locked_topics c - set_option (holds_topic (bpcs c ! i)) \<union> set_option (holds_topic l)"
  shows "bconc_ok c'"
proof -
  have ex: "excl holds_shard (locked_shards c) (bpcs c)" "excl holds_topic (locked_topics c) (bpcs c)"
    using c(1) by (simp_all add: bconc_ok_def)
  have "pc_ok w' (bpcs c ! j)" if j: "j < length (bpcs c)" "j \<noteq> i" for j
  proof (rule pc_ok_keep [OF _ w(3)])
    show "pc_ok (bw c) (bpcs c ! j)" using c(1) j by (simp add: bconc_ok_def)
    fix n assume h: "holds_shard (bpcs c ! j) = Some (selectShardForTopic n)"
    show "lookup w' n = lookup (bw c) n"
      using assms(6) [OF exclD(1) [OF ex(1) j(1) h]] exclD(2) [OF ex(1) j(1) h c(2)] j(2) by blast
  qed
  then show ?thesis
    using w(1,2) excl_goto [OF ex(1) c(2) k(1)] excl_goto [OF ex(2) c(2) k(2)] c(2)
    by (simp add: bconc_ok_def c' nth_list_update)
qed

section \<open>Changes of the world\<close>

lemma shared_okD:
  assumes "shared_ok w"
  shows "objects_ok w" "shards_ok w" "r < length (subs w) \<Longrightarrow> sub_ok (subs w ! r)"
    "r < length (subs w) \<Longrightarrow> queue_refs_ok (cells w) (subs w ! r)"
    "p < length (topics w) \<Longrightarrow> topic_ok (subs w) (topics w ! p)"
    "p < length (topics w) \<Longrightarrow> maxSubscribers (topics w ! p) = MaxSubscribersPerTopic"
    "lookup w n = Some p \<Longrightarrow> n \<noteq> [] \<and> p < length (topics w) \<and> topicName (topics w ! p) = n"
  using assms by (auto simp: shared_ok_def objects_ok_def store_ok_def)

lemma shared_ok_world: "world_ok w \<Longrightarrow> shared_ok w"
  by (auto simp: shared_ok_def world_ok_def names_ok_def)

lemma shared_relink:
  assumes "shared_ok w" "sub_ok s" "queue_refs_ok (cells w) s" "clientID s = clientID (subs w ! r)"
    "topic_ok (subs w) t" "maxSubscribers t = MaxSubscribersPerTopic" "topicName t = topicName (topics w ! p)"
  shows "shared_ok (relink r s p t w)"
proof -
  have "topicName ((topics w)[p := t] ! q) = topicName (topics w ! q)" for q
    using assms(7) by (cases "p < length (topics w)"; cases "q = p") (simp_all add: list_update_beyond)
  then show ?thesis
    using assms(1) relink_objects [OF shared_okD(1) [OF assms(1)] assms(2-6)]
    by (simp add: shared_ok_def frame) (simp add: relink_def)
qed

lemma shared_put_topic:
  assumes "shared_ok w" "p < length (topics w)" "topic_ok (subs w) t" "maxSubscribers t = MaxSubscribersPerTopic"
    "topicName t = topicName (topics w ! p)"
  shows "shared_ok (put_topic p t w)"
proof -
  have "t' \<in> set (topics w) \<or> t' = t" if "t' \<in> set ((topics w)[p := t])" for t'
    using that set_update_subset_insert [of "topics w" p t] by blast
  moreover have "topicName ((topics w)[p := t] ! q) = topicName (topics w ! q)" for q
    using assms(2,5) by (cases "q = p") auto
  ultimately show ?thesis
    using assms by (auto simp: shared_ok_def put_topic_def objects_ok_def store_ok_def frame)
qed

text \<open>What others may do covers sending to a subscriber, as well as what the rest of the process does.\<close>

lemma shared_others:
  assumes "shared_ok w" "others_may w w'"
  shows "shared_ok w'" "grows w w'" "lookup w' = lookup w"
proof -
  obtain t cs ss where w': "w' = w\<lparr>clock := t, cells := cells w @ cs, subs := ss\<rparr>" and
    ss: "length (subs w) \<le> length ss" "distinct (map clientID ss)"
      "\<And>r. r < length ss \<Longrightarrow> sub_ok (ss ! r) \<and> queue_refs_ok (cells w @ cs) (ss ! r)"
      "\<And>r. r < length (subs w) \<Longrightarrow> clientID (ss ! r) = clientID (subs w ! r)"
    using assms(2) by (auto simp: others_may_def)
  have "topic_ok ss t" if "topic_ok (subs w) t" for t
    using that ss(1,4) by (fastforce simp: topic_ok_def)
  then show "shared_ok w'"
    using assms(1) ss(2,3) by (auto simp: shared_ok_def objects_ok_def store_ok_def w' frame in_set_conv_nth)
  show "grows w w'" "lookup w' = lookup w" using ss(1) by (simp_all add: w' grows_def frame)
qed

lemma others_put_sub:
  assumes "shared_ok w" "r < length (subs w)" "sub_ok s" "queue_refs_ok (cells w) s" "clientID s = clientID (subs w ! r)"
  shows "others_may w (put_sub r s w)"
  unfolding others_may_def
proof (intro exI [of _ "clock w"] exI [of _ "(subs w)[r := s]"] exI [of _ "[]"] conjI allI impI)
  have "map clientID ((subs w)[r := s]) = map clientID (subs w)"
    using assms(5) by (metis map_update list_update_id)
  then show "distinct (map clientID ((subs w)[r := s]))"
    using shared_okD(1) [OF assms(1)] by (simp add: objects_ok_def)
qed (use assms shared_okD(3,4) [OF assms(1)] in \<open>auto simp: put_sub_def nth_list_update\<close>)

text \<open>A turn of a write loop, the closing of a subscriber and a new connection are among it.\<close>

lemma write_loop_may:
  assumes "shared_ok w" "r < length (subs w)" "writeLoop_turn W (clock w) (cells w) (subs w ! r) = Some (st, s)"
  shows "others_may w (put_sub r s w)"
proof -
  note s = shared_okD(3,4) [OF assms(1,2)]
  have "queue_refs_ok (cells w) s" using turn_refs [OF s(1) assms(3)] s(2) by (auto simp: queue_refs_ok_def)
  then show ?thesis using turn_ok [OF s(1), of W "clock w" "cells w"] assms(3)
    by (intro others_put_sub [OF assms(1,2)]) (auto simp: same_client_def)
qed

lemma close_may:
  assumes "shared_ok w" "r < length (subs w)" "Subscriber_Close (subs w ! r) = Some s"
  shows "others_may w (put_sub r s w)"
  using shared_okD(3,4) [OF assms(1,2)] assms(3)
  by (intro others_put_sub [OF assms(1,2)]) (auto simp: Close_eq sub_ok_def queue_refs_ok_def split: if_splits)

lemma connect_may:
  assumes "shared_ok w" "cid \<notin> clientID ` set (subs w)"
  shows "others_may w (w\<lparr>subs := subs w @ [NewSubscriber cid [] n]\<rparr>)"
  unfolding others_may_def
proof (intro exI [of _ "clock w"] exI [of _ "subs w @ [NewSubscriber cid [] n]"] exI [of _ "[]"] conjI allI impI)
  show "distinct (map clientID (subs w @ [NewSubscriber cid [] n]))"
    using shared_okD(1) [OF assms(1)] assms(2) by (simp add: objects_ok_def NewSubscriber_def)
qed (use shared_okD(3,4) [OF assms(1)] in \<open>auto simp: nth_append less_Suc_eq queue_refs_ok_def NewSubscriber_def make_chan_def
    sub_ok_def\<close>)

lemma shared_storage [simp]: "shared_ok (w\<lparr>storage := st\<rparr>) = shared_ok w"
  by (simp add: shared_ok_def objects_ok_def store_ok_def frame)

lemma shared_cells: "shared_ok w \<Longrightarrow> shared_ok (w\<lparr>cells := cells w @ cs\<rparr>)"
  by (auto simp: shared_ok_def objects_ok_def store_ok_def frame queue_refs_grow)

lemma shared_created:
  assumes "shared_ok w" "n \<noteq> []" "lookup w n = None"
  shows "shared_ok (created n w)" "lookup (created n w) = (lookup w)(n \<mapsto> length (topics w))" "grows w (created n w)"
proof -
  let ?w = "w\<lparr>topics := topics w @ [new_topic n]\<rparr>"
  have sh: "shards_ok ?w" using shared_okD(2) [OF assms(1)] by (simp add: frame)
  show lk: "lookup (created n w) = (lookup w)(n \<mapsto> length (topics w))"
    using set_map_put [OF sh] by (simp add: created_def frame)
  have tops: "topics (created n w) = topics w @ [new_topic n]" by (simp add: created_def frame)
  have "topic_ok (subs w) (new_topic n)" by (simp add: topic_ok_def new_topic_def MaxSubscribersPerTopic_def)
  then have "objects_ok (created n w)"
    using shared_okD(1) [OF assms(1)] by (auto simp: objects_ok_def created_def frame store_ok_def new_topic_def)
  moreover have "shards_ok (created n w)" using set_map_put [OF sh] by (simp add: created_def)
  ultimately show "shared_ok (created n w)"
    using assms(2) shared_okD(7) [OF assms(1)]
    by (auto simp: shared_ok_def lk tops nth_append new_topic_def less_Suc_eq split: if_splits)
  show "grows w (created n w)" by (simp add: grows_def created_def frame)
qed

lemma shared_forget:
  assumes "shared_ok w"
  shows "shared_ok (set_map n (gm_del n) w)" "lookup (set_map n (gm_del n) w) = (lookup w)(n := None)"
    "grows w (set_map n (gm_del n) w)"
  using set_map_del [OF shared_okD(2) [OF assms], of n] assms
  by (auto simp: shared_ok_def objects_ok_def store_ok_def grows_def frame split: if_splits)

section \<open>Every action keeps the invariant\<close>

text \<open>A goroutine that has found the flag of a subscriber unset and is at the \<open>select\<close>, overtaken by a close.\<close>

fun overtaken :: "'r broker \<Rightarrow> broker_pc \<Rightarrow> bool" where
  "overtaken w (NotifyMembers n p m Select (r # rs)) = isClosedFlag (subs w ! r)"
| "overtaken w (DeliverTo m Select (r # rs)) = isClosedFlag (subs w ! r)"
| "overtaken w _ = False"

definition acts_ok :: "'r redis_api \<Rightarrow> nat \<Rightarrow> 'r bconc \<Rightarrow> bool" where
  "acts_ok R i c \<longleftrightarrow> (case broker_action R i c of
     Waits \<Rightarrow> \<not> overtaken (bw c) (bpcs c ! i) | Panics \<Rightarrow> overtaken (bw c) (bpcs c ! i)
   | Goes c' \<Rightarrow> \<not> overtaken (bw c) (bpcs c ! i) \<and> bconc_ok c')"

lemma bconc_okD:
  assumes "bconc_ok c" "i < length (bpcs c)"
  shows "shared_ok (bw c)" "pc_ok (bw c) (bpcs c ! i)"
  using assms by (simp_all add: bconc_ok_def)

text \<open>An action that leaves the locks and the map of topics alone.\<close>

lemma unlocked_ok:
  assumes "bconc_ok c" "i < length (bpcs c)" "shared_ok w'" "pc_ok w' l" "grows (bw c) w'" "lookup w' = lookup (bw c)"
    and "holds_shard l = holds_shard (bpcs c ! i)" "holds_topic l = holds_topic (bpcs c ! i)"
  shows "bconc_ok (c\<lparr>bw := w', bpcs := (bpcs c)[i := l]\<rparr>)"
proof -
  have "excl holds_shard (locked_shards c) (bpcs c)" "excl holds_topic (locked_topics c) (bpcs c)"
    using assms(1) by (simp_all add: bconc_ok_def)
  from exclD(1) [OF this(1) assms(2)] exclD(1) [OF this(2) assms(2)]
  have "locked_shards c = locked_shards c - set_option (holds_shard (bpcs c ! i)) \<union> set_option (holds_shard l)"
    "locked_topics c = locked_topics c - set_option (holds_topic (bpcs c ! i)) \<union> set_option (holds_topic l)"
    unfolding assms(7,8) by (cases "holds_shard (bpcs c ! i)"; cases "holds_topic (bpcs c ! i)"; auto)+
  then show ?thesis using assms(6-8) by (intro goto_ok [OF assms(1-5)]) auto
qed

lemma stay_ok:
  assumes "bconc_ok c" "i < length (bpcs c)" "pc_ok (bw c) l"
    "holds_shard l = holds_shard (bpcs c ! i)" "holds_topic l = holds_topic (bpcs c ! i)"
  shows "bconc_ok (c\<lparr>bpcs := (bpcs c)[i := l]\<rparr>)"
  using unlocked_ok [OF assms(1,2) bconc_okD(1) [OF assms(1,2)] assms(3) _ _ assms(4,5)] by (simp add: grows_def)

lemma others_ok:
  assumes "bconc_ok c" "i < length (bpcs c)" "others_may (bw c) w'" "pc_ok w' l"
    "holds_shard l = holds_shard (bpcs c ! i)" "holds_topic l = holds_topic (bpcs c ! i)"
  shows "bconc_ok (c\<lparr>bw := w', bpcs := (bpcs c)[i := l]\<rparr>)"
  by (rule unlocked_ok [OF assms(1,2) shared_others(1) [OF _ assms(3)] assms(4) shared_others(2,3) [OF _ assms(3)] assms(5,6)])
    (simp_all add: bconc_okD(1) [OF assms(1,2)])

lemma send_step_ok:
  assumes "shared_ok w" "r < length (subs w)" "\<And>q. s_message m = Some q \<Longrightarrow> q < length (cells w)"
  shows "send_step (clock w) m g (subs w ! r) = None \<longleftrightarrow> g = Select \<and> isClosedFlag (subs w ! r)"
    "send_step (clock w) m g (subs w ! r) = Some (g', s) \<Longrightarrow> others_may w (put_sub r s w)"
proof -
  note s = shared_okD(3,4) [OF assms(1,2)]
  show "send_step (clock w) m g (subs w ! r) = None \<longleftrightarrow> g = Select \<and> isClosedFlag (subs w ! r)"
    using s(1) by (cases g) (simp_all add: send_step_def chan_try_send_def HandleSlowConsumer_eq sub_ok_def)
  assume step: "send_step (clock w) m g (subs w ! r) = Some (g', s)"
  have "sub_ok s \<and> queue_refs_ok (cells w) s \<and> clientID s = clientID (subs w ! r)"
    using step s assms(3) by (cases g)
      (auto simp: send_step_def HandleSlowConsumer_eq sub_ok_def queue_refs_ok_def chan_try_send_def split: if_splits)
  then show "others_may w (put_sub r s w)" by (intro others_put_sub [OF assms(1,2)]) simp_all
qed

lemma put_shard_same [simp]: "put_shard k (shards w ! k) w = w"
  by (simp add: put_shard_def)

lemmas action_simps = acts_ok_def broker_action_def Let_def bgoto_def

lemma count_action:
  assumes "bconc_ok c" "i < length (bpcs c)" "bpcs c ! i = CountShards n k seen"
  shows "acts_ok R i c"
proof -
  have "n \<noteq> []" using bconc_okD(2) [OF assms(1,2)] assms(3) by simp
  then show ?thesis
    using assms(3) by (simp add: action_simps) (auto intro!: stay_ok [OF assms(1,2)])
qed

lemma shard_creates:
  assumes "shared_ok w" "lookup w n = None"
  shows "\<exists>sh w1. Shard_CreateTopic n (shards w ! selectShardForTopic n) w = (None, sh, w1) \<and>
    put_shard (selectShardForTopic n) sh w1 = created n w"
proof -
  let ?sh = "shards w ! selectShardForTopic n"
  have "NewTopic n (replayBufferSize ?sh) (maxSubscribersPerTopic ?sh) = new_topic n"
    using shared_okD(2) [OF assms(1)] selectShard_lt [of n] by (simp add: NewTopic_def new_topic_def shards_ok_def)
  then show ?thesis
    using lookup_shard [OF shared_okD(2) [OF assms(1)], of n] assms(2)
    by (simp add: Shard_CreateTopic_def alloc_def created_def set_map_def put_shard_def Let_def)
qed

lemma insert_action:
  assumes "bconc_ok c" "i < length (bpcs c)" "bpcs c ! i = InsertTopic n"
  shows "acts_ok R i c"
proof (cases "selectShardForTopic n \<in> locked_shards c")
  case True
  then show ?thesis using assms(3) by (simp add: acts_ok_def broker_action_def)
next
  case False
  note c = bconc_okD [OF assms(1,2)]
  let ?k = "selectShardForTopic n" and ?w = "bw c"
  note sh = shared_okD(2) [OF c(1)]
  show ?thesis
  proof (cases "lookup ?w n")
    case (Some p)
    then have "Shard_CreateTopic n (shards ?w ! ?k) ?w = (Some ''topic_already_exists'', shards ?w ! ?k, ?w)"
      using lookup_shard [OF sh, of n] by (simp add: Shard_CreateTopic_def)
    then show ?thesis
      using False assms(3) by (simp add: action_simps) (auto intro!: stay_ok [OF assms(1,2)])
  next
    case None
    obtain sh w1 where create: "Shard_CreateTopic n (shards ?w ! ?k) ?w = (None, sh, w1)" "put_shard ?k sh w1 = created n ?w"
      using shard_creates [OF c(1) None] by blast
    have n: "n \<noteq> []" using c(2) assms(3) by simp
    note new = shared_created [OF c(1) n None]
    have "lookup (created n ?w) m = lookup ?w m" if "selectShardForTopic m \<in> locked_shards c" for m
      using that False new(2) by auto
    then have "bconc_ok (c\<lparr>bw := created n ?w, bpcs := (bpcs c)[i := Finished None]\<rparr>)"
      using assms(3) by (intro goto_ok [OF assms(1,2) new(1) _ new(3)]) auto
    then show ?thesis using False assms(3) by (simp add: action_simps create)
  qed
qed

lemma remove_action:
  assumes "bconc_ok c" "i < length (bpcs c)" "bpcs c ! i = RemoveTopic n"
  shows "acts_ok R i c"
proof -
  note c = bconc_okD [OF assms(1,2)]
  let ?k = "selectShardForTopic n"
  have get: "Shard_GetTopic n (shards (bw c) ! ?k) = lookup (bw c) n"
    using lookup_shard [OF shared_okD(2) [OF c(1)]] by (simp add: Shard_GetTopic_def)
  show ?thesis
  proof (cases "lookup (bw c) n")
    case None
    then show ?thesis
      using assms(3) by (simp add: action_simps get) (auto intro!: stay_ok [OF assms(1,2)])
  next
    case (Some p)
    then show ?thesis
      using assms(3) c(1) by (auto simp: action_simps get grows_def
          intro!: goto_ok [where l = "CloseTopic n p", OF assms(1,2) c(1)])
  qed
qed

lemma close_action:
  assumes "bconc_ok c" "i < length (bpcs c)" "bpcs c ! i = CloseTopic n p"
  shows "acts_ok R i c"
proof -
  note c = bconc_okD [OF assms(1,2)]
  have p: "lookup (bw c) n = Some p" using c(2) assms(3) by simp
  then have "set (gm_vals (subscribers (topics (bw c) ! p))) \<subseteq> {..<length (subs (bw c))}"
    using shared_okD(5,7) [OF c(1)] members_lt unfolding members_def by blast
  moreover have "selectShardForTopic n \<in> locked_shards c"
    using assms exclD(1) [of holds_shard "locked_shards c" "bpcs c" i] by (simp add: bconc_ok_def)
  ultimately show ?thesis
    using assms(3) p by (auto simp: action_simps grows_def deleted_message_def zero_server_message_def
        intro!: goto_ok [where l = "NotifyMembers n p (deleted_message (topicName (topics (bw c) ! p)) (clock (bw c))) Check
          (gm_vals (subscribers (topics (bw c) ! p)))", OF assms(1,2) c(1)])
qed

lemma topic_emptied: "topic_ok ss t \<Longrightarrow> topic_ok ss (t\<lparr>subscribers := []\<rparr>)"
  by (simp add: topic_ok_def)

lemma put_topic_frame [simp]:
  "subs (put_topic p t w) = subs w" "lookup (put_topic p t w) = lookup w" "cells (put_topic p t w) = cells w"
  "length (topics (put_topic p t w)) = length (topics w)" "grows w (put_topic p t w)"
  by (simp_all add: put_topic_def grows_def frame)

lemma put_sub_frame [simp]:
  "topics (put_sub r s w) = topics w" "lookup (put_sub r s w) = lookup w" "cells (put_sub r s w) = cells w"
  "length (subs (put_sub r s w)) = length (subs w)" "clock (put_sub r s w) = clock w"
  by (simp_all add: put_sub_def frame)

lemma notify_action:
  assumes "bconc_ok c" "i < length (bpcs c)" "bpcs c ! i = NotifyMembers n p m g rs"
  shows "acts_ok R i c"
proof -
  note c = bconc_okD [OF assms(1,2)]
  have pc: "lookup (bw c) n = Some p" "set rs \<subseteq> {..<length (subs (bw c))}" "s_message m = None"
    using c(2) assms(3) by simp_all
  note p = shared_okD(7) [OF c(1) pc(1)]
  show ?thesis
  proof (cases rs)
    case Nil
    have w: "shared_ok (put_topic p ((topics (bw c) ! p)\<lparr>subscribers := []\<rparr>) (bw c))"
      using p shared_okD(5,6) [OF c(1)] by (intro shared_put_topic [OF c(1)]) (simp_all add: topic_emptied)
    moreover have "selectShardForTopic n \<in> locked_shards c"
      using assms exclD(1) [of holds_shard "locked_shards c" "bpcs c" i] by (simp add: bconc_ok_def)
    ultimately show ?thesis
      using assms(3) Nil by (auto simp: action_simps intro!: goto_ok [where l = "ForgetTopic n", OF assms(1,2) w])
  next
    case (Cons r rs')
    have r: "r < length (subs (bw c))" "set rs' \<subseteq> {..<length (subs (bw c))}" using pc(2) Cons by simp_all
    then have step: "send_step (clock (bw c)) m g (subs (bw c) ! r) = None \<longleftrightarrow> overtaken (bw c) (bpcs c ! i)"
      using send_step_ok(1) [OF c(1) r(1), of m g] pc(3) assms(3) Cons by (cases g) simp_all
    have "bconc_ok (c\<lparr>bw := put_sub r s (bw c), bpcs := (bpcs c)[i := l]\<rparr>)"
      if "send_step (clock (bw c)) m g (subs (bw c) ! r) = Some (g', s)"
        "l = NotifyMembers n p m g'' rs \<or> l = UnlistMember n p m r rs'" for g' s g'' l
      using that r pc assms(3) by (intro others_ok [OF assms(1,2) send_step_ok(2) [OF c(1) r(1) _ that(1)]]) auto
    with step show ?thesis
      using assms(3) Cons by (auto simp: action_simps split: option.split)
  qed
qed

lemma unlist_action:
  assumes "bconc_ok c" "i < length (bpcs c)" "bpcs c ! i = UnlistMember n p m r rs"
  shows "acts_ok R i c"
proof -
  note c = bconc_okD [OF assms(1,2)]
  have pc: "lookup (bw c) n = Some p" "r < length (subs (bw c))" "set rs \<subseteq> {..<length (subs (bw c))}" "s_message m = None"
    using c(2) assms(3) by simp_all
  note s = shared_okD(3,4) [OF c(1) pc(2)]
  have "others_may (bw c) (put_sub r (Subscriber_RemoveTopic (topicName (topics (bw c) ! p)) (subs (bw c) ! r)) (bw c))"
    using s by (intro others_put_sub [OF c(1) pc(2)]) (simp_all add: frame queue_refs_topics)
  then show ?thesis
    using assms(3) pc by (simp add: action_simps) (auto intro!: others_ok [OF assms(1,2)])
qed

lemma forget_action:
  assumes "bconc_ok c" "i < length (bpcs c)" "bpcs c ! i = ForgetTopic n"
  shows "acts_ok R i c"
proof -
  note c = bconc_okD [OF assms(1,2)]
  let ?w = "set_map n (gm_del n) (bw c)"
  note w = shared_forget [OF c(1), of n]
  have "lookup ?w m = lookup (bw c) m" if "holds_shard (bpcs c ! i) \<noteq> Some (selectShardForTopic m)" for m
    using that w(2) assms(3) by auto
  then have "bconc_ok c'" if "bw c' = ?w" "bpcs c' = (bpcs c)[i := Finished None]"
      "locked_shards c' = locked_shards c - {selectShardForTopic n}" "locked_topics c' = locked_topics c" for c'
    using that assms(3) by (intro goto_ok [where l = "Finished None", OF assms(1,2) w(1) _ w(3)]) simp_all
  then show ?thesis using assms(3) by (simp add: action_simps put_shard_def set_map_def)
qed

lemma find_action:
  assumes "bconc_ok c" "i < length (bpcs c)" "bpcs c ! i = FindTopic x"
  shows "acts_ok R i c"
proof -
  note c = bconc_okD [OF assms(1,2)]
  have "pc_ok (bw c) (found_pc x p) \<and> holds_shard (found_pc x p) = None \<and> holds_topic (found_pc x p) = None"
    if "lookup (bw c) (op_topic x) = Some p" for p
    using that shared_okD(7) [OF c(1) that] c(2) assms(3) by (cases x) auto
  then show ?thesis
    using assms(3) GetTopic_eq [OF shared_okD(2) [OF c(1)], of "op_topic x"]
    by (simp add: action_simps split: option.splits) (auto intro!: stay_ok [OF assms(1,2)])
qed

lemma join_effect:
  assumes "shared_ok w" "p < length (topics w)" "r < length (subs w)"
  shows "\<exists>err t w1. Topic_AddSubscriber r (topics w ! p) w = (err, t, w1) \<and>
    shared_ok (put_topic p t w1) \<and> grows w (put_topic p t w1) \<and> lookup (put_topic p t w1) = lookup w"
proof -
  let ?t = "topics w ! p" and ?s = "subs w ! r"
  note t = shared_okD(5,6) [OF assms(1,2)] and s = shared_okD(3,4) [OF assms(1,3)]
  have put_same: "put_topic p ?t w = w" by (simp add: put_topic_def)
  show ?thesis
  proof (cases "gm_get (subscribers ?t) (clientID ?s) \<noteq> None \<or> int (length (subscribers ?t)) \<ge> maxSubscribers ?t")
    case True
    then show ?thesis using assms(1) by (auto simp: Topic_AddSubscriber_def Let_def put_same grows_def)
  next
    case False
    let ?t' = "?t\<lparr>subscribers := gm_put (clientID ?s) r (subscribers ?t)\<rparr>"
    have "shared_ok (relink r (Subscriber_AddTopic (topicName ?t) ?s) p ?t' w)"
      using False t s topic_ok_put [OF t(1) _ assms(3)] by (intro shared_relink [OF assms(1)]) (simp_all add: frame)
    moreover have "put_topic p ?t' (sub_update r (Subscriber_AddTopic (topicName ?t)) w) =
        relink r (Subscriber_AddTopic (topicName ?t) ?s) p ?t' w"
      by (simp add: put_topic_def sub_update_def relink_def)
    ultimately show ?thesis using False
      by (simp add: Topic_AddSubscriber_def Let_def grows_def relink_def sub_update_def frame)
  qed
qed

lemma leave_effect:
  assumes "shared_ok w" "p < length (topics w)"
  shows "\<exists>t w1. Topic_RemoveSubscriber cid (topics w ! p) w = (t, w1) \<and>
    shared_ok (put_topic p t w1) \<and> grows w (put_topic p t w1) \<and> lookup (put_topic p t w1) = lookup w"
proof (cases "gm_get (subscribers (topics w ! p)) cid")
  case None
  have put_same: "put_topic p (topics w ! p) w = w" by (simp add: put_topic_def)
  then show ?thesis using assms(1) None by (simp add: Topic_RemoveSubscriber_def grows_def)
next
  case (Some r)
  let ?t = "topics w ! p" and ?s = "subs w ! r"
  note t = shared_okD(5,6) [OF assms]
  have r: "r < length (subs w)" using t(1) Some by (auto simp: topic_ok_def)
  note s = shared_okD(3,4) [OF assms(1) r]
  let ?t' = "?t\<lparr>subscribers := gm_del cid (subscribers ?t)\<rparr>"
  have "shared_ok (relink r (Subscriber_RemoveTopic (topicName ?t) ?s) p ?t' w)"
    using t s topic_ok_del [OF t(1)] by (intro shared_relink [OF assms(1)]) (simp_all add: frame)
  moreover have "put_topic p ?t' (sub_update r (Subscriber_RemoveTopic (topicName ?t)) w) =
      relink r (Subscriber_RemoveTopic (topicName ?t) ?s) p ?t' w"
    by (simp add: put_topic_def sub_update_def relink_def)
  ultimately show ?thesis using Some
    by (simp add: Topic_RemoveSubscriber_def grows_def relink_def sub_update_def frame)
qed

lemma join_action:
  assumes "bconc_ok c" "i < length (bpcs c)" "bpcs c ! i = JoinTopic p r"
  shows "acts_ok R i c"
proof -
  note c = bconc_okD [OF assms(1,2)]
  have "p < length (topics (bw c))" "r < length (subs (bw c))" using c(2) assms(3) by simp_all
  from join_effect [OF c(1) this] obtain err t w1 where j: "Topic_AddSubscriber r (topics (bw c) ! p) (bw c) = (err, t, w1)"
    "shared_ok (put_topic p t w1)" "grows (bw c) (put_topic p t w1)" "lookup (put_topic p t w1) = lookup (bw c)"
    by blast
  then have "bconc_ok (c\<lparr>bw := put_topic p t w1, bpcs := (bpcs c)[i := Finished err]\<rparr>)"
    using assms(3) by (intro unlocked_ok [OF assms(1,2)]) simp_all
  then show ?thesis using assms(3) j(1) by (simp add: action_simps)
qed

lemma leave_action:
  assumes "bconc_ok c" "i < length (bpcs c)" "bpcs c ! i = LeaveTopic p cid"
  shows "acts_ok R i c"
proof -
  note c = bconc_okD [OF assms(1,2)]
  have "p < length (topics (bw c))" using c(2) assms(3) by simp
  from leave_effect [OF c(1) this] obtain t w1 where j: "Topic_RemoveSubscriber cid (topics (bw c) ! p) (bw c) = (t, w1)"
    "shared_ok (put_topic p t w1)" "grows (bw c) (put_topic p t w1)" "lookup (put_topic p t w1) = lookup (bw c)"
    by blast
  then have "bconc_ok (c\<lparr>bw := put_topic p t w1, bpcs := (bpcs c)[i := Finished None]\<rparr>)"
    using assms(3) by (intro unlocked_ok [OF assms(1,2)]) simp_all
  then show ?thesis using assms(3) j(1) by (simp add: action_simps)
qed

lemma store_action:
  assumes "bconc_ok c" "i < length (bpcs c)" "bpcs c ! i = StoreMessage n p m"
  shows "acts_ok R i c"
proof -
  note c = bconc_okD [OF assms(1,2)]
  have "bconc_ok (c\<lparr>bw := (bw c)\<lparr>storage := st\<rparr>, bpcs := (bpcs c)[i := l]\<rparr>)"
    if "l = CountMessage p m \<or> l = Finished e" for st l e
    using that c assms(3) by (intro unlocked_ok [OF assms(1,2)]) (auto simp: grows_def frame)
  then show ?thesis using assms(3) by (simp add: action_simps split: prod.split option.split)
qed

lemma publish_count_action:
  assumes "bconc_ok c" "i < length (bpcs c)" "bpcs c ! i = CountMessage p m"
  shows "acts_ok R i c"
proof -
  note c = bconc_okD [OF assms(1,2)]
  let ?w = "(bw c)\<lparr>cells := cells (bw c) @ [m]\<rparr>" and ?t = "topics (bw c) ! p"
  let ?w' = "put_topic p (?t\<lparr>totalMessageCount := totalMessageCount ?t + 1\<rparr>) ?w"
  have p: "p < length (topics (bw c))" using c(2) assms(3) by simp
  have "topic_ok (subs ?w) (?t\<lparr>totalMessageCount := totalMessageCount ?t + 1\<rparr>)"
    using shared_okD(5) [OF c(1) p] by (simp add: topic_ok_def)
  then have "shared_ok ?w'"
    using p shared_okD(6) [OF c(1) p] by (intro shared_put_topic [OF shared_cells [OF c(1)]]) simp_all
  moreover have "grows (bw c) ?w'" "lookup ?w' = lookup (bw c)" by (simp_all add: grows_def frame)
  moreover have "length (topics ?w') = length (topics (bw c))" by simp
  ultimately have "bconc_ok (c\<lparr>bw := ?w', bpcs := (bpcs c)[i := ListMembers p (publication ?t (bw c))]\<rparr>)"
    using p assms(3) by (intro unlocked_ok [OF assms(1,2)]) (simp_all add: publication_def)
  then show ?thesis using assms(3) by (simp add: action_simps)
qed

lemma list_action:
  assumes "bconc_ok c" "i < length (bpcs c)" "bpcs c ! i = ListMembers p m"
  shows "acts_ok R i c"
proof -
  note c = bconc_okD [OF assms(1,2)]
  have "p < length (topics (bw c))" "\<forall>q. s_message m = Some q \<longrightarrow> q < length (cells (bw c))"
    using c(2) assms(3) by simp_all
  moreover from this(1) have "set (gm_vals (subscribers (topics (bw c) ! p))) \<subseteq> {..<length (subs (bw c))}"
    using shared_okD(5) [OF c(1)] members_lt unfolding members_def by blast
  ultimately show ?thesis using assms(3) by (auto simp: action_simps intro!: stay_ok [OF assms(1,2)])
qed

lemma deliver_action:
  assumes "bconc_ok c" "i < length (bpcs c)" "bpcs c ! i = DeliverTo m g rs"
  shows "acts_ok R i c"
proof -
  note c = bconc_okD [OF assms(1,2)]
  have pc: "set rs \<subseteq> {..<length (subs (bw c))}" "\<And>q. s_message m = Some q \<Longrightarrow> q < length (cells (bw c))"
    using c(2) assms(3) by simp_all
  show ?thesis
  proof (cases rs)
    case Nil
    then show ?thesis using assms(3) by (simp add: action_simps) (auto intro!: stay_ok [OF assms(1,2)])
  next
    case (Cons r rs')
    have r: "r < length (subs (bw c))" "set rs' \<subseteq> {..<length (subs (bw c))}" using pc(1) Cons by simp_all
    then have step: "send_step (clock (bw c)) m g (subs (bw c) ! r) = None \<longleftrightarrow> overtaken (bw c) (bpcs c ! i)"
      using send_step_ok(1) [OF c(1) r(1) pc(2), where g = g] assms(3) Cons by (cases g) simp_all
    have "bconc_ok (c\<lparr>bw := put_sub r s (bw c), bpcs := (bpcs c)[i := l]\<rparr>)"
      if "send_step (clock (bw c)) m g (subs (bw c) ! r) = Some (g', s)"
        "l = DeliverTo m g'' rs \<or> l = DeliverTo m g'' rs'" for g' s g'' l
      using that r pc assms(3) by (intro others_ok [OF assms(1,2) send_step_ok(2) [OF c(1) r(1) pc(2) that(1)]]) auto
    with step show ?thesis
      using assms(3) Cons by (auto simp: action_simps split: option.split)
  qed
qed

lemma every_action:
  assumes "bconc_ok c" "i < length (bpcs c)"
  shows "acts_ok R i c"
proof (cases "bpcs c ! i")
  case (Finished e)
  then show ?thesis by (simp add: action_simps)
next
  case CountShards
  from count_action [OF assms this] show ?thesis .
next
  case InsertTopic
  from insert_action [OF assms this] show ?thesis .
next
  case RemoveTopic
  from remove_action [OF assms this] show ?thesis .
next
  case CloseTopic
  from close_action [OF assms this] show ?thesis .
next
  case NotifyMembers
  from notify_action [OF assms this] show ?thesis .
next
  case UnlistMember
  from unlist_action [OF assms this] show ?thesis .
next
  case ForgetTopic
  from forget_action [OF assms this] show ?thesis .
next
  case FindTopic
  from find_action [OF assms this] show ?thesis .
next
  case JoinTopic
  from join_action [OF assms this] show ?thesis .
next
  case LeaveTopic
  from leave_action [OF assms this] show ?thesis .
next
  case StoreMessage
  from store_action [OF assms this] show ?thesis .
next
  case CountMessage
  from publish_count_action [OF assms this] show ?thesis .
next
  case ListMembers
  from list_action [OF assms this] show ?thesis .
next
  case DeliverTo
  from deliver_action [OF assms this] show ?thesis .
qed

lemma begin_ok:
  assumes "bconc_ok c" "i < length (bpcs c)" "bpcs c ! i = Finished e" "op_valid x (bw c)"
  shows "bconc_ok (c\<lparr>bpcs := (bpcs c)[i := call_pc x]\<rparr>)"
proof (rule stay_ok [OF assms(1,2)])
  show "pc_ok (bw c) (call_pc x)" using assms(4) by (cases x) simp_all
  show "holds_shard (call_pc x) = holds_shard (bpcs c ! i)" "holds_topic (call_pc x) = holds_topic (bpcs c ! i)"
    unfolding assms(3) by (cases x; simp)+
qed

lemma others_keep:
  assumes "bconc_ok c" "others_may (bw c) w'"
  shows "bconc_ok (c\<lparr>bw := w'\<rparr>)"
proof -
  have "shared_ok (bw c)" using assms(1) by (simp add: bconc_ok_def)
  note w' = shared_others [OF this assms(2)]
  have "pc_ok w' (bpcs c ! i)" if "i < length (bpcs c)" for i
    by (rule pc_ok_keep [OF bconc_okD(2) [OF assms(1) that] w'(2)]) (simp add: w'(3))
  then show ?thesis using assms(1) w'(1) by (simp add: bconc_ok_def)
qed

lemma runs_ok: "bruns R A c0 c \<Longrightarrow> bconc_ok c0 \<Longrightarrow> bconc_ok c"
proof (induction rule: bruns.induct)
  case (act c i c')
  then show ?case using every_action [of c i R] by (simp add: acts_ok_def)
qed (simp_all add: begin_ok others_keep)

lemma action_length: "broker_action R i c = Goes c' \<Longrightarrow> length (bpcs c') = length (bpcs c)"
  by (cases "bpcs c ! i") (auto simp: broker_action_def bgoto_def Let_def split: if_splits option.splits prod.splits sum.splits list.splits)

lemma runs_length: "bruns R A c0 c \<Longrightarrow> length (bpcs c) = length (bpcs c0)"
  by (induction rule: bruns.induct) (simp_all add: action_length)

lemma idle_ok: "shared_ok w \<Longrightarrow> bconc_ok (all_idle w K)"
  by (simp add: bconc_ok_def all_idle_def excl_def)

text \<open>No goroutine gets itself to a \<open>select\<close> on a closed channel: the check of the flag sees to that.\<close>

lemma send_step_not_overtaken:
  "send_step t m g (subs w ! r) = Some (Some g', s) \<Longrightarrow> s = subs w ! r \<and> (g' = Select \<longrightarrow> \<not> isClosedFlag s)"
  by (cases g) (auto simp: send_step_def split: if_splits select_send.splits)

lemma own_action:
  assumes "broker_action R i c = Goes c'" "i < length (bpcs c)"
  shows "\<not> overtaken (bw c') (bpcs c' ! i)"
proof -
  note act = assms(1) [unfolded broker_action_def Let_def]
  have same: "put_sub r (subs w ! r) w = w" for r and w :: "'a broker" by (simp add: put_sub_def)
  show ?thesis
  proof (cases "bpcs c ! i")
    case (NotifyMembers n p m g rs)
    then show ?thesis using act assms(2)
      by (auto simp: bgoto_def same split: list.splits option.splits dest!: send_step_not_overtaken)
        (metis overtaken.simps send_stage.exhaust)+
  next
    case (DeliverTo m g rs)
    then show ?thesis using act assms(2)
      by (auto simp: bgoto_def same split: list.splits option.splits dest!: send_step_not_overtaken)
        (metis overtaken.simps send_stage.exhaust)+
  next
    case (FindTopic x)
    then show ?thesis using act assms(2)
      by (cases x) (auto simp: bgoto_def split: if_splits sum.splits)
  qed (use act assms(2) in \<open>auto simp: bgoto_def split: if_splits option.splits prod.splits\<close>)
qed

text \<open>
  C14: any number of goroutines may use the broker at once. Whatever the interleaving of their
  calls, and whatever the write loops and new connections do in between, an action panics
  in one case only: its goroutine is at the \<open>select\<close> of \<open>SendMessage\<close> and the subscriber is closed.
  No goroutine gets there by its own action; it has found the flag unset and given the lock
  back, and another has closed the subscriber since. Every topic in the map of a
  shard is found under its own name and has at most 50000 subscribers, each under its own
  id; no queue exceeds its capacity. A deletion locks its shard and its topic alone: no two
  goroutines are inside the same of these locks.
\<close>

theorem interleaved_calls:
  assumes "shared_ok w" "bruns R A (all_idle w K) c" "i < K"
  shows "(broker_action R i c = Panics \<longleftrightarrow> overtaken (bw c) (bpcs c ! i)) \<and>
    (\<forall>c'. broker_action R i c = Goes c' \<longrightarrow> \<not> overtaken (bw c') (bpcs c' ! i)) \<and>
    (\<forall>n p. lookup (bw c) n = Some p \<longrightarrow> topicName (topics (bw c) ! p) = n \<and>
       card (members (topics (bw c) ! p)) \<le> 50000 \<and> members (topics (bw c) ! p) \<subseteq> {..<length (subs (bw c))}) \<and>
    distinct (map clientID (subs (bw c))) \<and>
    (\<forall>s \<in> set (subs (bw c)). length (queue_of s) \<le> chan_cap (messageQueue s)) \<and>
    (\<forall>j < K. \<forall>k. holds_shard (bpcs c ! i) = Some k \<and> holds_shard (bpcs c ! j) = Some k \<longrightarrow> j = i) \<and>
    (\<forall>j < K. \<forall>p. holds_topic (bpcs c ! i) = Some p \<and> holds_topic (bpcs c ! j) = Some p \<longrightarrow> j = i)"
proof -
  have c: "bconc_ok c" using runs_ok [OF assms(2) idle_ok [OF assms(1)]] .
  then have w: "shared_ok (bw c)" and ex: "excl holds_shard (locked_shards c) (bpcs c)" "excl holds_topic (locked_topics c) (bpcs c)"
    by (simp_all add: bconc_ok_def)
  have len: "length (bpcs c) = K" using runs_length [OF assms(2)] by (simp add: all_idle_def)
  have "broker_action R i c = Panics \<longleftrightarrow> overtaken (bw c) (bpcs c ! i)"
    using every_action [OF c, of i R] assms(3) len by (auto simp: acts_ok_def split: outcome.splits)
  moreover have "topicName (topics (bw c) ! p) = n \<and> card (members (topics (bw c) ! p)) \<le> 50000 \<and>
      members (topics (bw c) ! p) \<subseteq> {..<length (subs (bw c))}" if "lookup (bw c) n = Some p" for n p
  proof -
    have p: "p < length (topics (bw c))" "topicName (topics (bw c) ! p) = n" using shared_okD(7) [OF w that] by simp_all
    note t = shared_okD(5,6) [OF w p(1)]
    then show ?thesis
      using p(2) members_lt [OF t(1)] card_members [OF t(1)] by (auto simp: topic_ok_def MaxSubscribersPerTopic_def)
  qed
  moreover have "distinct (map clientID (subs (bw c)))" "\<forall>s \<in> set (subs (bw c)). length (queue_of s) \<le> chan_cap (messageQueue s)"
    using shared_okD(1) [OF w] by (auto simp: objects_ok_def store_ok_def sub_ok_def)
  moreover have "j = i" if "j < K" "h (bpcs c ! i) = Some k" "h (bpcs c ! j) = Some k" "excl h L (bpcs c)" for h L j k
    using exclD(2) [OF that(4) _ that(2) _ that(3)] that(1) assms(3) len by simp
  moreover have "\<not> overtaken (bw c') (bpcs c' ! i)" if "broker_action R i c = Goes c'" for c'
    using own_action [OF that] assms(3) len by simp
  ultimately show ?thesis using ex by blast
qed

text \<open>A broker with a topic and two goroutines, of which one deletes the topic and one creates another.\<close>

definition two_calls :: "(string \<Rightarrow> blob list) bconc" where
  "two_calls = (all_idle example_subscribed 2)\<lparr>bpcs := [RemoveTopic ''a'', CountShards ''b'' 0 0]\<rparr>"

lemma two_calls_run: "bruns mem_redis (\<lambda>_. True) (all_idle example_subscribed 2) two_calls"
proof -
  let ?c = "all_idle example_subscribed 2"
  have pcs: "bpcs ?c = [Finished None, Finished None]" by (simp add: all_idle_def numeral_2_eq_2)
  have "bruns mem_redis (\<lambda>_. True) ?c (?c\<lparr>bpcs := (bpcs ?c)[0 := call_pc (OpDelete ''a'')]\<rparr>)"
    by (rule bruns.call [OF bruns.here, where e = None]) (simp_all add: pcs)
  from bruns.call [OF this, of 1 None "OpCreate ''b''"] show ?thesis by (simp add: pcs two_calls_def)
qed

theorem interleaved_calls_witness:
  "broker_action mem_redis 1 two_calls \<noteq> Panics \<and> card (members (topics (bw two_calls) ! 0)) \<le> 50000"
  using interleaved_calls [OF shared_ok_world [OF example_subscribed_ok(1)] two_calls_run, of 1] example_subscribed_ok(2)
  by (simp add: two_calls_def all_idle_def)

section \<open>Waiting\<close>

lemma waits_for:
  assumes "broker_action R i c = Waits"
  shows "(\<exists>e. bpcs c ! i = Finished e) \<or> locked_topics c \<noteq> {} \<and> holds_topic (bpcs c ! i) = None \<or>
    locked_shards c \<noteq> {} \<and> holds_shard (bpcs c ! i) = None"
  using assms by (cases "bpcs c ! i")
    (auto simp: broker_action_def bgoto_def Let_def split: if_splits option.splits prod.splits sum.splits list.splits)

text \<open>
  While a deletion notifies the members of its topic, no other call gets past the lock of the
  shard, whatever topic it is for.
\<close>

lemma deletion_blocks_shard:
  assumes "bconc_ok c" "i < length (bpcs c)" "bpcs c ! i = NotifyMembers n p m g rs"
    and "bpcs c ! j = FindTopic x" "selectShardForTopic (op_topic x) = selectShardForTopic n"
  shows "broker_action R j c = Waits"
  using assms exclD(1) [of holds_shard "locked_shards c" "bpcs c" i] by (simp add: bconc_ok_def broker_action_def Let_def)

text \<open>
  C18: no deadlock. A deletion takes the lock of a topic while it holds the lock of a shard,
  and everybody waits for one lock at most: as long as some call has not returned, some
  goroutine can take its next action, or is at the send to a closed channel of C14.
\<close>

theorem broker_no_deadlock:
  assumes "shared_ok w" "bruns R A (all_idle w K) c" "i < K" "\<And>e. bpcs c ! i \<noteq> Finished e"
  shows "\<exists>j < K. (\<exists>c'. broker_action R j c = Goes c') \<or> overtaken (bw c) (bpcs c ! j)"
proof -
  have c: "bconc_ok c" using runs_ok [OF assms(2) idle_ok [OF assms(1)]] .
  have len: "length (bpcs c) = K" using runs_length [OF assms(2)] by (simp add: all_idle_def)
  have ex: "k \<in> locked_shards c \<longleftrightarrow> (\<exists>j < K. holds_shard (bpcs c ! j) = Some k)"
    "k \<in> locked_topics c \<longleftrightarrow> (\<exists>j < K. holds_topic (bpcs c ! j) = Some k)" for k
    using c len by (simp_all add: bconc_ok_def excl_def)
  have goes: "(\<exists>c'. broker_action R j c = Goes c') \<or> overtaken (bw c) (bpcs c ! j) \<or> broker_action R j c = Waits" if "j < K" for j
    using every_action [OF c, of j R] that len by (cases "broker_action R j c") (auto simp: acts_ok_def)
  show ?thesis
  proof (cases "locked_topics c = {}")
    case False
    then obtain p j where j: "j < K" "holds_topic (bpcs c ! j) = Some p" using ex(2) by blast
    then have "holds_shard (bpcs c ! j) \<noteq> None" "\<And>e. bpcs c ! j \<noteq> Finished e" by (cases "bpcs c ! j"; simp)+
    then show ?thesis using goes [OF j(1)] waits_for [of R j c] j by auto
  next
    case no_topic: True
    show ?thesis
    proof (cases "locked_shards c = {}")
      case False
      then obtain k j where j: "j < K" "holds_shard (bpcs c ! j) = Some k" using ex(1) by blast
      then have "\<And>e. bpcs c ! j \<noteq> Finished e" by (cases "bpcs c ! j"; simp)
      then show ?thesis using goes [OF j(1)] waits_for [of R j c] j no_topic by auto
    next
      case True
      then show ?thesis using goes [OF assms(3)] waits_for [of R i c] assms(3,4) no_topic by auto
    qed
  qed
qed

theorem broker_no_deadlock_witness:
  "\<exists>j < 2. \<exists>c'. broker_action mem_redis j two_calls = Goes c'"
proof -
  have "\<not> overtaken (bw two_calls) (bpcs two_calls ! j)" if "j < 2" for j
    using that by (auto simp: two_calls_def less_2_cases_iff)
  then show ?thesis
    using broker_no_deadlock [OF shared_ok_world [OF example_subscribed_ok(1)] two_calls_run, of 1]
    by (auto simp: two_calls_def)
qed

end
