(* ===== verification/Broker_Alone.thy ===== *)
theory Broker_Alone
  imports Broker_Conc
begin

text \<open>
  A goroutine that runs a call of the broker without interruption does exactly what the
  sequential model of the call does: the actions of \<open>Broker_Conc\<close> refine the operations of
  \<open>Broker\<close>, for every kind of call and every outcome.
\<close>

definition solo :: "'r redis_api \<Rightarrow> nat \<Rightarrow> 'r bconc \<Rightarrow> 'r bconc \<Rightarrow> bool" where
  "solo R i = (\<lambda>c c'. broker_action R i c = Goes c')\<^sup>*\<^sup>*"

lemma solo_refl [simp]: "solo R i c c"
  by (simp add: solo_def)

lemma solo_step: "broker_action R i c = Goes c1 \<Longrightarrow> solo R i c1 c2 \<Longrightarrow> solo R i c c2"
  unfolding solo_def by (rule converse_rtranclp_into_rtranclp)

lemma solo_trans: "solo R i c c1 \<Longrightarrow> solo R i c1 c2 \<Longrightarrow> solo R i c c2"
  by (simp add: solo_def)

lemma solo_runs: "solo R i c c' \<Longrightarrow> bruns R A c0 c \<Longrightarrow> i < length (bpcs c) \<Longrightarrow> bruns R A c0 c'"
  unfolding solo_def
proof (induction rule: rtranclp_induct)
  case (step c1 c2)
  have "length (bpcs c1) = length (bpcs c)"
    using step.hyps(1) by (induction rule: rtranclp_induct) (simp_all add: action_length)
  then show ?case using step bruns.act [of R A c0 c1 i c2] by simp
qed

text \<open>No lock is taken and goroutine \<open>i\<close> is at \<open>l\<close>; where it gets to.\<close>

definition at_pc :: "nat \<Rightarrow> broker_pc \<Rightarrow> 'r bconc \<Rightarrow> bool" where
  "at_pc i l c \<longleftrightarrow> i < length (bpcs c) \<and> bpcs c ! i = l"

definition free :: "'r bconc \<Rightarrow> bool" where
  "free c \<longleftrightarrow> locked_shards c = {} \<and> locked_topics c = {}"

definition reaches :: "'r redis_api \<Rightarrow> nat \<Rightarrow> 'r bconc \<Rightarrow> broker_pc \<Rightarrow> 'r broker \<Rightarrow> bool" where
  "reaches R i c l w \<longleftrightarrow> solo R i c (c\<lparr>bw := w, bpcs := (bpcs c)[i := l]\<rparr>)"

lemma reaches_here: "at_pc i l c \<Longrightarrow> reaches R i c l (bw c)"
  by (auto simp: reaches_def at_pc_def)

lemma reaches_step:
  assumes "broker_action R i c = Goes (c\<lparr>bw := w, bpcs := (bpcs c)[i := l]\<rparr>)"
    "reaches R i (c\<lparr>bw := w, bpcs := (bpcs c)[i := l]\<rparr>) l' w'"
  shows "reaches R i c l' w'"
  using solo_step [OF assms(1)] assms(2) by (simp add: reaches_def)

lemma reaches_last: "broker_action R i c = Goes (c\<lparr>bw := w, bpcs := (bpcs c)[i := l]\<rparr>) \<Longrightarrow> reaches R i c l w"
  using solo_step [OF _ solo_refl] by (simp add: reaches_def)

lemma reaches_via:
  assumes "reaches R i c l w" "i < length (bpcs c)"
    "\<And>c1. c1 = c\<lparr>bw := w, bpcs := (bpcs c)[i := l]\<rparr> \<Longrightarrow> reaches R i c1 l' w'"
  shows "reaches R i c l' w'"
  using assms(3) [OF refl] assms(1) by (simp add: reaches_def) (rule solo_trans)

lemma at_goto [simp]: "at_pc i l (c\<lparr>bw := w, bpcs := (bpcs c)[i := l']\<rparr>) = (i < length (bpcs c) \<and> l = l')"
  by (auto simp: at_pc_def)

lemma free_goto [simp]: "free (c\<lparr>bw := w, bpcs := ps\<rparr>) = free c"
  by (simp add: free_def)

text \<open>
  The actions of one \<open>SendMessage\<close> to \<open>r\<close>, wherever the call stands: \<open>F\<close> is the place of the
  goroutine at each stage, \<open>l\<close> where it goes on.
\<close>

lemma stages_alone:
  assumes at: "at_pc i (F Check) c"
    and send: "Subscriber_SendMessage (clock (bw c)) m (subs (bw c) ! r) = Some (ok, s)"
    and stay: "\<And>c1 g g' s. at_pc i (F g) c1 \<Longrightarrow> send_step (clock (bw c1)) m g (subs (bw c1) ! r) = Some (Some g', s) \<Longrightarrow>
      broker_action R i c1 = Goes (c1\<lparr>bw := put_sub r s (bw c1), bpcs := (bpcs c1)[i := F g']\<rparr>)"
    and leave: "\<And>c1 g s. at_pc i (F g) c1 \<Longrightarrow> send_step (clock (bw c1)) m g (subs (bw c1) ! r) = Some (None, s) \<Longrightarrow>
      broker_action R i c1 = Goes (c1\<lparr>bw := put_sub r s (bw c1), bpcs := (bpcs c1)[i := l]\<rparr>)"
  shows "reaches R i c l (put_sub r s (bw c))"
proof -
  have same: "put_sub r (subs w ! r) w = w" for w :: "'r broker" by (simp add: put_sub_def)
  have i: "i < length (bpcs c)" using at by (simp add: at_pc_def)
  have last: "reaches R i c1 l (put_sub r s (bw c1))"
    if "at_pc i (F g) c1" "send_step (clock (bw c1)) m g (subs (bw c1) ! r) = Some (None, s)" for c1 g s
    using leave [OF that] by (rule reaches_last)
  let ?c1 = "c\<lparr>bw := bw c, bpcs := (bpcs c)[i := F Select]\<rparr>"
  let ?c2 = "?c1\<lparr>bw := bw ?c1, bpcs := (bpcs ?c1)[i := F Slow]\<rparr>"
  have at1: "at_pc i (F Select) ?c1" and at2: "at_pc i (F Slow) ?c2" using i by (simp_all add: at_pc_def)
  show ?thesis
  proof (cases "isClosedFlag (subs (bw c) ! r)")
    case True
    then show ?thesis using send last [OF at] by (simp add: Subscriber_SendMessage_def send_step_def)
  next
    case False
    have 1: "broker_action R i c = Goes ?c1"
      using stay [OF at, of Select "subs (bw c) ! r"] False by (simp add: send_step_def same)
    have "reaches R i ?c1 l (put_sub r s (bw ?c1))"
    proof (cases "chan_try_send (messageQueue (subs (bw c) ! r)) m")
      case (Sent q)
      then show ?thesis using send False last [OF at1, of s] by (auto simp: Subscriber_SendMessage_def send_step_def)
    next
      case Default
      then have slow: "Subscriber_HandleSlowConsumer (clock (bw c)) (subs (bw c) ! r) = Some s"
        using send False by (auto simp: Subscriber_SendMessage_def split: bind_splits)
      have 2: "broker_action R i ?c1 = Goes ?c2"
        using stay [OF at1, of Slow "subs (bw c) ! r"] Default by (simp add: send_step_def same)
      have "reaches R i ?c2 l (put_sub r s (bw ?c2))" using slow last [OF at2] by (simp add: send_step_def)
      then show ?thesis using reaches_step [OF 2] by simp
    qed (use send False in \<open>simp add: Subscriber_SendMessage_def\<close>)
    then show ?thesis using reaches_step [OF 1] by simp
  qed
qed

lemma deliver_one:
  assumes "at_pc i (DeliverTo m Check (r # rs)) c" "Subscriber_SendMessage (clock (bw c)) m (subs (bw c) ! r) = Some (ok, s)"
  shows "reaches R i c (DeliverTo m Check rs) (put_sub r s (bw c))"
  by (rule stages_alone [where F = "\<lambda>g. DeliverTo m g (r # rs)", OF assms])
    (simp_all add: broker_action_def at_pc_def bgoto_def)

lemma notify_one:
  assumes "at_pc i (NotifyMembers n p m Check (r # rs)) c"
    "notify_deleted (clock (bw c)) m (topicName (topics (bw c) ! p)) (subs (bw c) ! r) = Some (k, s)" "r < length (subs (bw c))"
  shows "reaches R i c (NotifyMembers n p m Check rs) (put_sub r s (bw c))"
proof -
  let ?n = "topicName (topics (bw c) ! p)"
  obtain ok s1 where s1: "Subscriber_SendMessage (clock (bw c)) m (subs (bw c) ! r) = Some (ok, s1)"
    "s = Subscriber_RemoveTopic ?n s1"
    using assms(2) by (auto simp: notify_deleted_def split: bind_splits)
  have "reaches R i c (UnlistMember n p m r rs) (put_sub r s1 (bw c))"
    by (rule stages_alone [where F = "\<lambda>g. NotifyMembers n p m g (r # rs)", OF assms(1) s1(1)])
      (simp_all add: broker_action_def at_pc_def bgoto_def)
  then show ?thesis
  proof (rule reaches_via)
    show "i < length (bpcs c)" using assms(1) by (simp add: at_pc_def)
    then show "reaches R i c1 (NotifyMembers n p m Check rs) (put_sub r s (bw c))"
      if "c1 = c\<lparr>bw := put_sub r s1 (bw c), bpcs := (bpcs c)[i := UnlistMember n p m r rs]\<rparr>" for c1
      using that assms(3) s1(2) by (intro reaches_last) (simp add: broker_action_def bgoto_def put_sub_def)
  qed
qed

lemma deliver_alone:
  assumes "at_pc i (DeliverTo m Check rs) c" "store_loop (deliver (clock (bw c)) m) rs (subs (bw c)) = Some (k, ss)"
  shows "reaches R i c (Finished None) ((bw c)\<lparr>subs := ss\<rparr>)"
  using assms
proof (induction rs arbitrary: c k)
  case Nil
  then show ?case
    by (intro reaches_last) (auto simp: broker_action_def at_pc_def bgoto_def)
next
  case (Cons r rs)
  from Cons.prems(2) obtain b s k' where s: "deliver (clock (bw c)) m (subs (bw c) ! r) = Some (b, s)"
    and rest: "store_loop (deliver (clock (bw c)) m) rs ((subs (bw c))[r := s]) = Some (k', ss)"
    by (auto split: bind_splits)
  from s obtain ok where "Subscriber_SendMessage (clock (bw c)) m (subs (bw c) ! r) = Some (ok, s)"
    by (auto simp: deliver_def split: bind_splits)
  from deliver_one [OF Cons.prems(1) this] show ?case
  proof (rule reaches_via)
    show i: "i < length (bpcs c)" using Cons.prems(1) by (simp add: at_pc_def)
    fix c1 assume c1: "c1 = c\<lparr>bw := put_sub r s (bw c), bpcs := (bpcs c)[i := DeliverTo m Check rs]\<rparr>"
    have "reaches R i c1 (Finished None) ((bw c1)\<lparr>subs := ss\<rparr>)"
      using i rest by (intro Cons.IH) (simp_all add: c1 put_sub_def)
    then show "reaches R i c1 (Finished None) ((bw c)\<lparr>subs := ss\<rparr>)" by (simp add: c1 put_sub_def)
  qed
qed

text \<open>The loop of a deletion, with both locks held.\<close>

lemma notify_alone:
  assumes "at_pc i (NotifyMembers n p m Check rs) c" "topicName (topics (bw c) ! p) = tn" "set rs \<subseteq> {..<length (subs (bw c))}"
    "store_loop (notify_deleted (clock (bw c)) m tn) rs (subs (bw c)) = Some (k, ss)"
  shows "reaches R i c (NotifyMembers n p m Check []) ((bw c)\<lparr>subs := ss\<rparr>)"
  using assms
proof (induction rs arbitrary: c k)
  case Nil
  then show ?case using reaches_here [of i "NotifyMembers n p m Check []" c R] by auto
next
  case (Cons r rs)
  obtain b s where s: "notify_deleted (clock (bw c)) m tn (subs (bw c) ! r) = Some (b, s)"
    using Cons.prems(4) by (auto split: bind_splits)
  then obtain k' where rest: "store_loop (notify_deleted (clock (bw c)) m tn) rs ((subs (bw c))[r := s]) = Some (k', ss)"
    using Cons.prems(4) by (auto split: bind_splits)
  have "reaches R i c (NotifyMembers n p m Check rs) (put_sub r s (bw c))"
    using notify_one [OF Cons.prems(1)] s Cons.prems(2,3) by auto
  then show ?case
  proof (rule reaches_via)
    show i: "i < length (bpcs c)" using Cons.prems(1) by (simp add: at_pc_def)
    fix c1 assume c1: "c1 = c\<lparr>bw := put_sub r s (bw c), bpcs := (bpcs c)[i := NotifyMembers n p m Check rs]\<rparr>"
    have "reaches R i c1 (NotifyMembers n p m Check []) ((bw c1)\<lparr>subs := ss\<rparr>)"
      using i rest Cons.prems(2,3) by (intro Cons.IH) (simp_all add: c1 put_sub_def)
    then show "reaches R i c1 (NotifyMembers n p m Check []) ((bw c)\<lparr>subs := ss\<rparr>)" by (simp add: c1 put_sub_def)
  qed
qed

lemma count_alone:
  assumes "at_pc i (CountShards n k seen) c" "k \<le> ShardCount" "locked_shards c = {}" "length (shards (bw c)) = ShardCount"
  shows "reaches R i c (CountShards n ShardCount
    (seen + sum_list (map Shard_GetTopicCount (drop k (shards (bw c)))))) (bw c)"
  using assms
proof (induction "ShardCount - k" arbitrary: k seen c)
  case 0
  then show ?case using reaches_here [of i "CountShards n k seen" c R] by simp
next
  case (Suc d)
  let ?seen = "seen + Shard_GetTopicCount (shards (bw c) ! k)"
  let ?c = "c\<lparr>bw := bw c, bpcs := (bpcs c)[i := CountShards n (Suc k) ?seen]\<rparr>"
  have k: "k < ShardCount" "drop k (shards (bw c)) = shards (bw c) ! k # drop (Suc k) (shards (bw c))"
    using Suc.hyps(2) Suc.prems(4) by (simp_all add: Cons_nth_drop_Suc)
  have go: "broker_action R i c = Goes ?c"
    using Suc.prems(1,3) k(1) by (simp add: broker_action_def at_pc_def bgoto_def)
  have "reaches R i ?c (CountShards n ShardCount
      (?seen + sum_list (map Shard_GetTopicCount (drop (Suc k) (shards (bw ?c)))))) (bw ?c)"
    using Suc.hyps(2) Suc.prems k(1) by (intro Suc.hyps(1) [of "Suc k" ?seen ?c]) (simp_all add: at_pc_def)
  then show ?case using k(2) by (intro reaches_step [OF go]) (simp add: add.assoc)
qed

section \<open>Each call\<close>

lemma create_counted:
  assumes "at_pc i (CountShards n 0 0) c" "locked_shards c = {}" "length (shards (bw c)) = ShardCount"
    "Broker_GetTotalTopicCount (bw c) < MaxTopicsLimit"
  shows "reaches R i c (InsertTopic n) (bw c)"
proof (rule reaches_via [OF count_alone [OF assms(1) _ assms(2,3)]])
  show "i < length (bpcs c)" using assms(1) by (simp add: at_pc_def)
  then show "reaches R i c1 (InsertTopic n) (bw c)"
    if "c1 = c\<lparr>bw := bw c, bpcs := (bpcs c)[i := CountShards n ShardCount
      (0 + sum_list (map Shard_GetTopicCount (drop 0 (shards (bw c)))))]\<rparr>" for c1
    using that assms(4) by (intro reaches_last)
      (simp add: broker_action_def bgoto_def Broker_GetTotalTopicCount_def foldl_add_sum_list)
qed simp

lemma create_alone:
  assumes "at_pc i (call_pc (OpCreate n)) c" "free c" "length (shards (bw c)) = ShardCount"
    "Broker_CreateTopic n (bw c) = (err, w')"
  shows "reaches R i c (Finished err) w'"
proof (cases "n = []")
  case True
  then show ?thesis using assms reaches_here [of i "call_pc (OpCreate n)" c R] by (simp add: Broker_CreateTopic_def)
next
  case n: False
  have i: "i < length (bpcs c)" and pc: "at_pc i (CountShards n 0 0) c" using assms(1) n by (simp_all add: at_pc_def)
  have free: "locked_shards c = {}" using assms(2) by (simp add: free_def)
  show ?thesis
  proof (cases "Broker_GetTotalTopicCount (bw c) \<ge> MaxTopicsLimit")
    case True
    show ?thesis
    proof (rule reaches_via [OF count_alone [OF pc _ free assms(3)] i])
      show "reaches R i c1 (Finished err) w'" if "c1 = c\<lparr>bw := bw c, bpcs := (bpcs c)[i := CountShards n ShardCount
          (0 + sum_list (map Shard_GetTopicCount (drop 0 (shards (bw c)))))]\<rparr>" for c1
        using that True n i assms(4) by (intro reaches_last)
          (simp add: broker_action_def bgoto_def Broker_CreateTopic_def Broker_GetTotalTopicCount_def foldl_add_sum_list)
    qed simp
  next
    case False
    then have "reaches R i c (InsertTopic n) (bw c)" using create_counted [OF pc free assms(3)] by simp
    then show ?thesis
    proof (rule reaches_via [OF _ i])
      show "reaches R i c1 (Finished err) w'" if "c1 = c\<lparr>bw := bw c, bpcs := (bpcs c)[i := InsertTopic n]\<rparr>" for c1
        using that False n i free assms(4) by (intro reaches_last)
          (auto simp: broker_action_def bgoto_def Broker_CreateTopic_def Let_def put_shard_def split: prod.splits)
    qed
  qed
qed

lemma find_alone:
  assumes "at_pc i (FindTopic x) c" "free c"
  shows "Broker_GetTopic (op_topic x) (bw c) = Inl err \<Longrightarrow> reaches R i c (Finished (Some err)) (bw c)"
    "Broker_GetTopic (op_topic x) (bw c) = Inr p \<Longrightarrow> reaches R i c (found_pc x p) (bw c)"
  using assms by (auto intro!: reaches_last simp: broker_action_def bgoto_def at_pc_def free_def)

lemma find_then:
  assumes "at_pc i (FindTopic x) c" "free c" "Broker_GetTopic (op_topic x) (bw c) = Inr p"
    "broker_action R i (c\<lparr>bpcs := (bpcs c)[i := found_pc x p]\<rparr>) = Goes (c\<lparr>bpcs := (bpcs c)[i := l], bw := w'\<rparr>)"
  shows "reaches R i c l w'"
proof (rule reaches_via [OF find_alone(2) [OF assms(1-3)]])
  show "i < length (bpcs c)" using assms(1) by (simp add: at_pc_def)
  show "reaches R i c1 l w'" if "c1 = c\<lparr>bw := bw c, bpcs := (bpcs c)[i := found_pc x p]\<rparr>" for c1
    using assms(4) that by (intro reaches_last) simp
qed

lemma subscribe_alone:
  assumes "at_pc i (call_pc (OpSubscribe n r)) c" "free c" "Broker_SubscribeToTopic n r (bw c) = (err, w')"
  shows "reaches R i c (Finished err) w'"
proof (cases "Broker_GetTopic n (bw c)")
  case (Inl e)
  then show ?thesis using find_alone(1) [of i "OpSubscribe n r" c] assms by (auto simp: Broker_SubscribeToTopic_def)
next
  case (Inr p)
  then show ?thesis using assms
    by (intro find_then [where x = "OpSubscribe n r" and p = p])
      (auto simp: Broker_SubscribeToTopic_def broker_action_def bgoto_def at_pc_def free_def put_topic_def split: prod.splits)
qed

lemma unsubscribe_alone:
  assumes "at_pc i (call_pc (OpUnsubscribe n cid)) c" "free c" "Broker_UnsubscribeFromTopic n cid (bw c) = (err, w')"
  shows "reaches R i c (Finished err) w'"
proof (cases "Broker_GetTopic n (bw c)")
  case (Inl e)
  then show ?thesis using find_alone(1) [of i "OpUnsubscribe n cid" c] assms by (auto simp: Broker_UnsubscribeFromTopic_def)
next
  case (Inr p)
  then show ?thesis using assms
    by (intro find_then [where x = "OpUnsubscribe n cid" and p = p])
      (auto simp: Broker_UnsubscribeFromTopic_def broker_action_def bgoto_def at_pc_def free_def put_topic_def split: prod.splits)
qed

text \<open>A publication with its topic found: stored, counted, listed, delivered.\<close>

lemma fan_out_alone:
  assumes "at_pc i (CountMessage p m) c" "locked_topics c = {}"
    "Topic_PublishMessage m (topics (bw c) ! p) (bw c) = Some (k, t, w1)"
  shows "reaches R i c (Finished None) (put_topic p t w1)"
proof -
  let ?t = "topics (bw c) ! p" and ?pub = "publication (topics (bw c) ! p) (bw c)"
  let ?w = "put_topic p (?t\<lparr>totalMessageCount := totalMessageCount ?t + 1\<rparr>) ((bw c)\<lparr>cells := cells (bw c) @ [m]\<rparr>)"
  have i: "i < length (bpcs c)" using assms(1) by (simp add: at_pc_def)
  obtain ss where ss: "store_loop (deliver (clock (bw c)) ?pub) (gm_vals (subscribers ?t)) (subs (bw c)) = Some (k, ss)"
    "t = ?t\<lparr>totalMessageCount := totalMessageCount ?t + 1\<rparr>" "w1 = (bw c)\<lparr>cells := cells (bw c) @ [m], subs := ss\<rparr>"
    using assms(3) by (auto simp: Topic_PublishMessage_def Let_def alloc_def publication_def split: bind_splits)
  have vals: "gm_vals (subscribers (topics ?w ! p)) = gm_vals (subscribers ?t)"
    by (cases "p < length (topics (bw c))") (simp_all add: put_topic_def list_update_beyond)
  have "reaches R i c (ListMembers p ?pub) ?w"
    using assms(1) by (intro reaches_last) (simp add: broker_action_def bgoto_def at_pc_def Let_def)
  then show ?thesis
  proof (rule reaches_via [OF _ i])
    fix c1 assume c1: "c1 = c\<lparr>bw := ?w, bpcs := (bpcs c)[i := ListMembers p ?pub]\<rparr>"
    have "reaches R i c1 (DeliverTo ?pub Check (gm_vals (subscribers ?t))) (bw c1)"
      using i assms(2) vals by (intro reaches_last) (simp add: c1 broker_action_def bgoto_def)
    then show "reaches R i c1 (Finished None) (put_topic p t w1)"
    proof (rule reaches_via)
      show "i < length (bpcs c1)" using i by (simp add: c1)
      fix c2 assume c2: "c2 = c1\<lparr>bw := bw c1, bpcs := (bpcs c1)[i := DeliverTo ?pub Check (gm_vals (subscribers ?t))]\<rparr>"
      have "reaches R i c2 (Finished None) ((bw c2)\<lparr>subs := ss\<rparr>)"
        using ss(1) i by (intro deliver_alone [where k = k]) (simp_all add: c2 c1 at_pc_def put_topic_def del: put_topic_frame)
      moreover have "put_topic p t w1 = (bw c2)\<lparr>subs := ss\<rparr>" by (simp add: c2 c1 ss(2,3) put_topic_def)
      ultimately show "reaches R i c2 (Finished None) (put_topic p t w1)" by simp
    qed
  qed
qed

lemma publish_alone:
  assumes "at_pc i (call_pc (OpPublish n m)) c" "free c" "Broker_PublishMessage R n m (bw c) = Some (err, w')"
  shows "reaches R i c (Finished err) w'"
proof (cases "Broker_GetTopic n (bw c)")
  case (Inl e)
  then show ?thesis using find_alone(1) [of i "OpPublish n m" c] assms by (auto simp: Broker_PublishMessage_def)
next
  case (Inr p)
  have i: "i < length (bpcs c)" using assms(1) by (simp add: at_pc_def)
  obtain e st where save: "RedisStorage_SaveMessage R n m (storage (bw c)) = (e, st)" by fastforce
  show ?thesis
  proof (cases e)
    case (Some x)
    then show ?thesis using assms Inr save
      by (intro find_then [where x = "OpPublish n m" and p = p])
        (auto simp: Broker_PublishMessage_def broker_action_def bgoto_def at_pc_def)
  next
    case None
    then have "reaches R i c (CountMessage p m) ((bw c)\<lparr>storage := st\<rparr>)" using assms Inr save
      by (intro find_then [where x = "OpPublish n m" and p = p]) (auto simp: broker_action_def bgoto_def at_pc_def)
    then show ?thesis
    proof (rule reaches_via [OF _ i])
      fix c1 assume c1: "c1 = c\<lparr>bw := (bw c)\<lparr>storage := st\<rparr>, bpcs := (bpcs c)[i := CountMessage p m]\<rparr>"
      obtain k t w1 where t: "Topic_PublishMessage m (topics (bw c1) ! p) (bw c1) = Some (k, t, w1)"
        "err = None" "w' = put_topic p t w1"
        using assms(3) Inr save None by (auto simp: c1 Broker_PublishMessage_def put_topic_def split: bind_splits)
      show "reaches R i c1 (Finished err) w'"
        unfolding t(2,3) using i assms(2) by (intro fan_out_alone [OF _ _ t(1)]) (simp_all add: c1 free_def)
    qed
  qed
qed

text \<open>No call of the sequential model panics.\<close>

lemma shared_step:
  assumes "shared_ok w"
  shows "\<exists>err w'. broker_step R x w = Some (err, w')"
proof (cases x)
  case (OpDelete n)
  have get: "gm_get (topicsMap (shards w ! selectShardForTopic n)) n = lookup w n"
    using lookup_shard [OF shared_okD(2) [OF assms]] .
  show ?thesis
  proof (cases "lookup w n")
    case (Some p)
    have "store_ok w" "topic_ok (subs w) (topics w ! p)"
      using shared_okD(1) [OF assms] shared_okD(5,7) [OF assms] Some by (simp_all add: objects_ok_def)
    from CloseAll_eq [OF this] show ?thesis
      using OpDelete Some get by (simp add: Broker_DeleteTopic_def Shard_DeleteTopic_def Let_def)
  qed (simp add: OpDelete get Broker_DeleteTopic_def Shard_DeleteTopic_def Let_def)
next
  case (OpPublish n m)
  show ?thesis
  proof (cases "lookup w n")
    case (Some p)
    have "store_ok (w\<lparr>storage := st\<rparr>)" "topic_ok (subs (w\<lparr>storage := st\<rparr>)) (topics w ! p)" for st
      using shared_okD(1) [OF assms] shared_okD(5,7) [OF assms] Some by (simp_all add: objects_ok_def store_ok_def)
    from PublishMessage_eq [OF this] show ?thesis
      using OpPublish Some by (simp add: Broker_PublishMessage_def GetTopic_eq [OF shared_okD(2) [OF assms]] Let_def split: prod.split option.split)
  qed (simp add: OpPublish Broker_PublishMessage_def GetTopic_eq [OF shared_okD(2) [OF assms]])
qed (metis broker_step.simps surj_pair)+

lemma delete_alone:
  assumes "at_pc i (call_pc (OpDelete n)) c" "free c" "Broker_DeleteTopic n (bw c) = Some (err, w')"
    "shared_ok (bw c)"
  shows "solo R i c (c\<lparr>bw := w', bpcs := (bpcs c)[i := Finished err]\<rparr>)"
proof -
  let ?k = "selectShardForTopic n" and ?w = "bw c"
  have i: "i < length (bpcs c)" "bpcs c ! i = RemoveTopic n" using assms(1) by (simp_all add: at_pc_def)
  have f: "locked_shards c = {}" "locked_topics c = {}" using assms(2) by (simp_all add: free_def)
  have k: "?k < length (shards ?w)" using selectShard_lt [of n] shards_len [OF shared_okD(2) [OF assms(4)]] by simp
  show ?thesis
  proof (cases "Shard_GetTopic n (shards ?w ! ?k)")
    case None
    then have "broker_action R i c = Goes (c\<lparr>bw := w', bpcs := (bpcs c)[i := Finished err]\<rparr>)"
      using i f assms(3) by (simp add: broker_action_def bgoto_def Let_def Broker_DeleteTopic_def Shard_DeleteTopic_def
          Shard_GetTopic_def)
    then show ?thesis by (rule solo_step) simp
  next
    case (Some p)
    let ?t = "topics ?w ! p"
    let ?m = "deleted_message (topicName ?t) (clock ?w)"
    have "lookup ?w n = Some p" using Some lookup_shard [OF shared_okD(2) [OF assms(4)], of n] by (simp add: Shard_GetTopic_def)
    then have mem: "set (gm_vals (subscribers ?t)) \<subseteq> {..<length (subs ?w)}"
      using shared_okD(5,7) [OF assms(4)] members_lt unfolding members_def by blast
    obtain k ss where ss: "store_loop (notify_deleted (clock ?w) ?m (topicName ?t)) (gm_vals (subscribers ?t)) (subs ?w) = Some (k, ss)"
      "err = None" "w' = put_shard ?k ((shards ?w ! ?k)\<lparr>topicsMap := gm_del n (topicsMap (shards ?w ! ?k))\<rparr>)
        (put_topic p (?t\<lparr>subscribers := []\<rparr>) (?w\<lparr>subs := ss\<rparr>))"
      using assms(3) Some by (auto simp: Broker_DeleteTopic_def Shard_DeleteTopic_def Shard_GetTopic_def
          Topic_CloseAllSubscribers_def Let_def put_shard_def put_topic_def split: bind_splits)
    define c1 where "c1 = c\<lparr>bpcs := (bpcs c)[i := CloseTopic n p], locked_shards := {?k}\<rparr>"
    define c2 where "c2 = c\<lparr>bpcs := (bpcs c)[i := NotifyMembers n p ?m Check (gm_vals (subscribers ?t))],
      locked_shards := {?k}, locked_topics := {p}\<rparr>"
    define c3 where "c3 = c2\<lparr>bw := (bw c2)\<lparr>subs := ss\<rparr>, bpcs := (bpcs c2)[i := NotifyMembers n p ?m Check []]\<rparr>"
    define c4 where "c4 = c1\<lparr>bw := put_topic p (?t\<lparr>subscribers := []\<rparr>) (?w\<lparr>subs := ss\<rparr>), bpcs := (bpcs c)[i := ForgetTopic n]\<rparr>"
    note cs = c1_def c2_def c3_def c4_def
    have steps: "broker_action R i c = Goes c1" "broker_action R i c1 = Goes c2"
      using i f Some by (simp_all add: broker_action_def bgoto_def Let_def cs)
    have "reaches R i c2 (NotifyMembers n p ?m Check []) ((bw c2)\<lparr>subs := ss\<rparr>)"
      using ss(1) i mem by (intro notify_alone [where k = k and tn = "topicName ?t"]) (simp_all add: c2_def at_pc_def)
    then have loop: "solo R i c2 c3" by (simp add: reaches_def c3_def)
    have "broker_action R i c3 = Goes c4" using i f by (simp add: broker_action_def bgoto_def cs)
    moreover have "broker_action R i c4 = Goes (c\<lparr>bw := w', bpcs := (bpcs c)[i := Finished err]\<rparr>)"
      using i f k by (simp add: broker_action_def bgoto_def Let_def cs ss(2,3)) (simp add: put_topic_def)
    ultimately have "solo R i c3 (c\<lparr>bw := w', bpcs := (bpcs c)[i := Finished err]\<rparr>)" by (rule solo_step [OF _ solo_step]) simp
    then show ?thesis by (rule solo_step [OF steps(1) solo_step [OF steps(2) solo_trans [OF loop]]])
  qed
qed

text \<open>
  C15: a call that runs alone, with no lock taken, comes to its end, and the broker and the
  result are those of the sequential operation. So the interleaved model adds interleavings
  to the sequential one and nothing else.
\<close>

theorem call_alone:
  assumes "shared_ok (bw c)" "locked_shards c = {}" "locked_topics c = {}" "i < length (bpcs c)"
    "bpcs c ! i = call_pc x" "op_valid x (bw c)"
  shows "\<exists>err w'. broker_step R x (bw c) = Some (err, w') \<and>
    (\<lambda>c c'. broker_action R i c = Goes c')\<^sup>*\<^sup>* c (c\<lparr>bw := w', bpcs := (bpcs c)[i := Finished err]\<rparr>)"
proof -
  have pc: "at_pc i (call_pc x) c" "free c" using assms by (simp_all add: at_pc_def free_def)
  have len: "length (shards (bw c)) = ShardCount" using shared_okD(2) [OF assms(1)] by (rule shards_len)
  obtain err w' where step: "broker_step R x (bw c) = Some (err, w')"
    using shared_step [OF assms(1)] by blast
  have "solo R i c (c\<lparr>bw := w', bpcs := (bpcs c)[i := Finished err]\<rparr>)"
  proof (cases x)
    case (OpDelete n)
    then show ?thesis using delete_alone [of i n c err w'] pc step assms(1) by simp
  qed (use pc step create_alone [OF _ _ len] subscribe_alone unsubscribe_alone publish_alone in \<open>auto simp: reaches_def\<close>)
  with step show ?thesis by (auto simp: solo_def)
qed

theorem call_alone_witness:
  "\<exists>err w'. broker_step mem_redis (OpDelete ''a'') example_subscribed = Some (err, w') \<and>
     (\<lambda>c c'. broker_action mem_redis 0 c = Goes c')\<^sup>*\<^sup>* ((all_idle example_subscribed 1)\<lparr>bpcs := [RemoveTopic ''a'']\<rparr>)
       ((all_idle w' 1)\<lparr>bpcs := [Finished err]\<rparr>)"
  using call_alone [of "(all_idle example_subscribed 1)\<lparr>bpcs := [RemoveTopic ''a'']\<rparr>" 0 "OpDelete ''a''" mem_redis]
    shared_ok_world [OF example_subscribed_ok(1)] by (simp add: all_idle_def)

end
