(* ===== verification/Broker_Race.thy ===== *)
theory Broker_Race
  imports Broker_Alone
begin

text \<open>
  What the interleaving of calls costs. \<open>CreateTopic\<close> compares a count it has read shard by
  shard, before it locks anything, with the limit: several goroutines can pass together, and
  the number of topics can exceed the limit by the number of goroutines less one, and no
  more. \<open>SubscribeToTopic\<close> goes on with a pointer whose topic may have been deleted in between.
\<close>

section \<open>How far the topic limit can be exceeded\<close>

definition shard_counts :: "('r, 'a) broker_scheme \<Rightarrow> nat list" where
  "shard_counts w = map Shard_GetTopicCount (shards w)"

lemma count_sum: "Broker_GetTotalTopicCount w = sum_list (shard_counts w)"
  by (simp add: Broker_GetTotalTopicCount_def shard_counts_def foldl_add_sum_list)

text \<open>A creator that has passed the check, or would if nobody else did anything.\<close>

fun may_insert :: "nat list \<Rightarrow> broker_pc \<Rightarrow> bool" where
  "may_insert cs (CountShards n k seen) = (seen + sum_list (drop k cs) < MaxTopicsLimit)"
| "may_insert cs (InsertTopic n) = True"
| "may_insert cs _ = False"

fun deleting :: "broker_pc \<Rightarrow> bool" where
  "deleting (RemoveTopic n) = True" | "deleting (CloseTopic n p) = True"
| "deleting (NotifyMembers n p m g rs) = True" | "deleting (UnlistMember n p m r rs) = True" | "deleting (ForgetTopic n) = True"
| "deleting (FindTopic x) = (\<exists>n. x = OpDelete n)"
| "deleting _ = False"

definition creators :: "nat list \<Rightarrow> broker_pc list \<Rightarrow> nat set" where
  "creators cs ps = {i. i < length ps \<and> may_insert cs (ps ! i)}"

lemma finite_creators [simp]: "finite (creators cs ps)"
  by (simp add: creators_def)

lemma card_creators: "card (creators cs ps) \<le> length ps"
proof -
  have "creators cs ps \<subseteq> {..<length ps}" by (auto simp: creators_def)
  then show ?thesis using card_mono [of "{..<length ps}" "creators cs ps"] by simp
qed

text \<open>Topics that others add only take permission away from a creator.\<close>

lemma sum_list_le: "list_all2 (\<le>) xs ys \<Longrightarrow> sum_list xs \<le> sum_list (ys :: nat list)"
  by (induction rule: list_all2_induct) simp_all

lemma may_insert_mono: "list_all2 (\<le>) cs cs' \<Longrightarrow> may_insert cs' l \<Longrightarrow> may_insert cs l"
proof (cases l)
  case (CountShards n k seen)
  assume "list_all2 (\<le>) cs cs'" "may_insert cs' l"
  then show ?thesis
    using CountShards sum_list_le [OF list_all2_dropI [of "(\<le>)" cs cs' k]] by simp
qed simp_all

lemma counts_frame [frame]:
  "shard_counts (w\<lparr>clock := t\<rparr>) = shard_counts w" "shard_counts (w\<lparr>cells := cs\<rparr>) = shard_counts w"
  "shard_counts (w\<lparr>subs := ss\<rparr>) = shard_counts w" "shard_counts (w\<lparr>topics := ts\<rparr>) = shard_counts w"
  "shard_counts (w\<lparr>storage := st\<rparr>) = shard_counts w"
  by (simp_all add: shard_counts_def)

text \<open>The one action without deletions that changes a map: it adds one topic to one shard.\<close>

lemma insert_counts:
  assumes "shared_ok w" "Shard_CreateTopic n (shards w ! selectShardForTopic n) w = (err, sh, w1)"
  defines "w' \<equiv> put_shard (selectShardForTopic n) sh w1" and "k \<equiv> selectShardForTopic n"
  shows "k < length (shard_counts w)" "shard_counts w' = shard_counts w \<or>
    shard_counts w' = (shard_counts w)[k := Suc (shard_counts w ! k)]"
proof -
  have k: "k < length (shards w)" using shards_len [OF shared_okD(2) [OF assms(1)]] selectShard_lt [of n] by (simp add: k_def)
  then show "k < length (shard_counts w)" by (simp add: shard_counts_def)
  have ok: "gm_ok (topicsMap (shards w ! k))"
  proof -
    have "placed selectShardForTopic ShardCount (map topicsMap (shards w))"
      using shared_okD(2) [OF assms(1)] by (simp add: shards_ok_def)
    then have "gm_ok (map topicsMap (shards w) ! k)" using selectShard_lt [of n] unfolding placed_def k_def by blast
    then show ?thesis using k by simp
  qed
  show "shard_counts w' = shard_counts w \<or> shard_counts w' = (shard_counts w)[k := Suc (shard_counts w ! k)]"
  proof (cases "gm_get (topicsMap (shards w ! k)) n")
    case None
    let ?sh = "(shards w ! k)\<lparr>topicsMap := gm_put n (length (topics w)) (topicsMap (shards w ! k))\<rparr>"
    have "shards w' = (shards w)[k := ?sh]"
      using assms(2) None by (auto simp: Shard_CreateTopic_def Let_def alloc_def w'_def k_def put_shard_def)
    moreover have "Shard_GetTopicCount ?sh = Suc (shard_counts w ! k)"
      using gm.len_put [OF ok] None k by (simp add: Shard_GetTopicCount_def shard_counts_def)
    ultimately show ?thesis by (simp add: shard_counts_def map_update)
  next
    case (Some p)
    then have "w' = w" using assms(2) by (auto simp: Shard_CreateTopic_def w'_def k_def)
    then show ?thesis by simp
  qed
qed

lemma action_counts:
  assumes "shared_ok (bw c)" "i < length (bpcs c)" "\<not> deleting (bpcs c ! i)" "broker_action R i c = Goes c'"
  shows "\<exists>l. bpcs c' = (bpcs c)[i := l] \<and> \<not> deleting l \<and>
    (shard_counts (bw c') = shard_counts (bw c) \<and> (may_insert (shard_counts (bw c)) l \<longrightarrow> may_insert (shard_counts (bw c)) (bpcs c ! i)) \<or>
     (\<exists>n k. bpcs c ! i = InsertTopic n \<and> (\<exists>e. l = Finished e) \<and> k < length (shard_counts (bw c)) \<and>
        shard_counts (bw c') = (shard_counts (bw c))[k := Suc (shard_counts (bw c) ! k)]))"
proof (cases "bpcs c ! i")
  case (CountShards n k seen)
  have "k < ShardCount \<Longrightarrow> drop k (shard_counts (bw c)) = Shard_GetTopicCount (shards (bw c) ! k) # drop (Suc k) (shard_counts (bw c))"
    using shards_len [OF shared_okD(2) [OF assms(1)]] by (simp add: shard_counts_def Cons_nth_drop_Suc [symmetric])
  then show ?thesis using assms(4) CountShards shards_len [OF shared_okD(2) [OF assms(1)]]
    by (auto simp: broker_action_def bgoto_def Let_def shard_counts_def split: if_splits)
next
  case (InsertTopic n)
  obtain err sh w1 where s: "Shard_CreateTopic n (shards (bw c) ! selectShardForTopic n) (bw c) = (err, sh, w1)"
    by (metis surj_pair)
  let ?k = "selectShardForTopic n"
  have c': "c' = c\<lparr>bw := put_shard ?k sh w1, bpcs := (bpcs c)[i := Finished err]\<rparr>"
    using assms(4) InsertTopic s by (auto simp: broker_action_def bgoto_def Let_def split: if_splits)
  show ?thesis using insert_counts [OF assms(1) s] InsertTopic
    by (intro exI [of _ "Finished err"]) (auto simp: c')
next
  case (FindTopic x)
  then show ?thesis using assms(3,4)
    by (cases x) (auto simp: broker_action_def bgoto_def Let_def split: if_splits sum.splits)
qed (use assms(3,4) in \<open>auto simp: broker_action_def bgoto_def Let_def Topic_AddSubscriber_def Topic_RemoveSubscriber_def
    put_topic_def put_sub_def sub_update_def frame split: if_splits option.splits prod.splits list.splits\<close>)

text \<open>The budget: topics that exist, and creators that may still add one.\<close>

definition budget_ok :: "'r bconc \<Rightarrow> bool" where
  "budget_ok c \<longleftrightarrow> (\<forall>i < length (bpcs c). \<not> deleting (bpcs c ! i)) \<and>
     sum_list (shard_counts (bw c)) + card (creators (shard_counts (bw c)) (bpcs c)) < MaxTopicsLimit + length (bpcs c)"

lemma creators_goto:
  assumes "may_insert cs l \<Longrightarrow> may_insert cs (ps ! i)"
  shows "creators cs (ps[i := l]) \<subseteq> creators cs ps"
proof
  fix j assume "j \<in> creators cs (ps[i := l])"
  then show "j \<in> creators cs ps" using assms by (cases "j = i") (auto simp: creators_def)
qed

lemma budget_action:
  assumes "shared_ok (bw c)" "budget_ok c" "i < length (bpcs c)" "broker_action R i c = Goes c'"
  shows "budget_ok c'"
proof -
  let ?cs = "shard_counts (bw c)" and ?cs' = "shard_counts (bw c')"
  have d: "\<And>j. j < length (bpcs c) \<Longrightarrow> \<not> deleting (bpcs c ! j)" using assms(2) by (simp add: budget_ok_def)
  obtain l where l: "bpcs c' = (bpcs c)[i := l]" "\<not> deleting l" and
    cases: "?cs' = ?cs \<and> (may_insert ?cs l \<longrightarrow> may_insert ?cs (bpcs c ! i)) \<or>
      (\<exists>n k. bpcs c ! i = InsertTopic n \<and> (\<exists>e. l = Finished e) \<and> k < length ?cs \<and> ?cs' = ?cs[k := Suc (?cs ! k)])"
    using action_counts [OF assms(1,3) d [OF assms(3)] assms(4)] by blast
  have nd: "\<not> deleting (bpcs c' ! j)" if "j < length (bpcs c')" for j
    using that l d [of j] by (cases "j = i") simp_all
  have "sum_list ?cs' + card (creators ?cs' (bpcs c')) \<le> sum_list ?cs + card (creators ?cs (bpcs c))"
    using cases
  proof
    assume "?cs' = ?cs \<and> (may_insert ?cs l \<longrightarrow> may_insert ?cs (bpcs c ! i))"
    then show ?thesis using creators_goto [of ?cs l "bpcs c" i] by (simp add: l card_mono)
  next
    assume "\<exists>n k. bpcs c ! i = InsertTopic n \<and> (\<exists>e. l = Finished e) \<and> k < length ?cs \<and> ?cs' = ?cs[k := Suc (?cs ! k)]"
    then obtain n k e where k: "bpcs c ! i = InsertTopic n" "l = Finished e" "k < length ?cs" "?cs' = ?cs[k := Suc (?cs ! k)]"
      by blast
    have i: "i \<in> creators ?cs (bpcs c)" using assms(3) k(1) by (simp add: creators_def)
    have le: "list_all2 (\<le>) ?cs ?cs'" using k(3) by (auto simp: k(4) list_all2_conv_all_nth nth_list_update)
    have "creators ?cs' (bpcs c') \<subseteq> creators ?cs (bpcs c) - {i}"
    proof
      fix j assume "j \<in> creators ?cs' (bpcs c')"
      then show "j \<in> creators ?cs (bpcs c) - {i}"
        using may_insert_mono [OF le] assms(3) by (cases "j = i") (auto simp: creators_def l(1) k(2))
    qed
    then have "card (creators ?cs' (bpcs c')) \<le> card (creators ?cs (bpcs c)) - 1"
      using card_mono [of "creators ?cs (bpcs c) - {i}"] i by simp
    moreover have "sum_list ?cs' = Suc (sum_list ?cs)" using k(3) by (simp add: k(4) sum_list_update)
    moreover have "card (creators ?cs (bpcs c)) > 0" using i by (auto simp: card_gt_0_iff)
    ultimately show ?thesis by simp
  qed
  then show ?thesis using assms(2) nd by (simp add: budget_ok_def l(1))
qed

lemma budget_call:
  assumes "budget_ok c" "i < length (bpcs c)" "bpcs c ! i = Finished e" "\<And>n. x \<noteq> OpDelete n"
  shows "budget_ok (c\<lparr>bpcs := (bpcs c)[i := call_pc x]\<rparr>)"
proof -
  let ?cs = "shard_counts (bw c)" and ?ps = "(bpcs c)[i := call_pc x]"
  have "\<not> deleting (call_pc x)" using assms(4) by (cases x) auto
  then have nd: "\<not> deleting (?ps ! j)" if "j < length (bpcs c)" for j
    using that assms(1) by (cases "j = i") (simp_all add: budget_ok_def)
  have "sum_list ?cs + card (creators ?cs ?ps) < MaxTopicsLimit + length (bpcs c)"
  proof (cases "sum_list ?cs < MaxTopicsLimit")
    case True
    then show ?thesis using card_creators [of ?cs ?ps] by simp
  next
    case False
    then have "\<not> may_insert ?cs (call_pc x)" by (cases x) auto
    then have "card (creators ?cs ?ps) \<le> card (creators ?cs (bpcs c))"
      by (intro card_mono creators_goto) simp_all
    then show ?thesis using assms(1) by (simp add: budget_ok_def)
  qed
  then show ?thesis using nd by (simp add: budget_ok_def)
qed

lemma budget_runs:
  "bruns R A c0 c \<Longrightarrow> bconc_ok c0 \<Longrightarrow> budget_ok c0 \<Longrightarrow> (\<And>n. \<not> A (OpDelete n)) \<Longrightarrow> bconc_ok c \<and> budget_ok c"
proof (induction rule: bruns.induct)
  case (call c i e x)
  then have "x \<noteq> OpDelete n" for n by blast
  then show ?case using call begin_ok [of c i e x] budget_call [of c i e x] by simp
next
  case (act c i c')
  then have "bconc_ok c'" using every_action [of c i R] by (simp add: acts_ok_def)
  then show ?case using act budget_action [of c i R c'] bconc_okD(1) [of c i] by simp
next
  case (others c w')
  then have "shard_counts w' = shard_counts (bw c)" by (auto simp: others_may_def frame)
  then show ?case using others others_keep [of c w'] by (simp add: budget_ok_def)
qed simp

text \<open>
  C16: the topic limit under concurrency. As long as nobody deletes topics, \<open>K\<close> goroutines can
  bring the broker to fewer than \<open>10000 + K\<close> topics, however their calls of \<open>CreateTopic\<close>
  interleave: each can pass the check once with a count that is out of date.
\<close>

theorem topic_limit_bound:
  assumes "shared_ok w" "Broker_GetTotalTopicCount w \<le> MaxTopicsLimit" "0 < K" "bruns R A (all_idle w K) c"
    "\<And>n. \<not> A (OpDelete n)"
  shows "Broker_GetTotalTopicCount (bw c) < 10000 + K"
proof -
  have "creators (shard_counts w) (replicate K (Finished None)) = {}" by (auto simp: creators_def)
  then have "budget_ok (all_idle w K)" using assms(2,3) by (simp add: budget_ok_def all_idle_def count_sum)
  from budget_runs [OF assms(4) idle_ok [OF assms(1)] this assms(5)] runs_length [OF assms(4)]
  show ?thesis by (simp add: budget_ok_def count_sum MaxTopicsLimit_def all_idle_def)
qed

theorem topic_limit_bound_witness:
  "Broker_GetTotalTopicCount (bw ((all_idle example_broker 3)\<lparr>bpcs := (bpcs (all_idle example_broker 3))[0 := CountShards ''a'' 0 0]\<rparr>)) < 10003"
proof -
  let ?c = "all_idle example_broker 3"
  have run: "bruns mem_redis (\<lambda>x. x = OpCreate ''a'') ?c (?c\<lparr>bpcs := (bpcs ?c)[0 := call_pc (OpCreate ''a'')]\<rparr>)"
    by (rule bruns.call [OF bruns.here, where e = None]) (simp_all add: all_idle_def)
  have "Broker_GetTotalTopicCount example_broker \<le> MaxTopicsLimit"
    using TotalTopicCount_card [OF world_okD(2) [OF example_broker_ok(1)]] example_broker_ok(2) by simp
  from topic_limit_bound [OF shared_ok_world [OF example_broker_ok(1)] this _ run] show ?thesis by simp
qed

text \<open>The bound is reached: all creators count before any of them inserts.\<close>

lemma all_counted:
  assumes "shared_ok w" "Broker_GetTotalTopicCount w < MaxTopicsLimit" "\<And>n. n \<in> set ns \<Longrightarrow> n \<noteq> []" "j \<le> length ns"
  shows "bruns R (\<lambda>x. \<exists>n. x = OpCreate n) (all_idle w (length ns))
    ((all_idle w (length ns))\<lparr>bpcs := map InsertTopic (take j ns) @ replicate (length ns - j) (Finished None)\<rparr>)"
  using assms(4)
proof (induction j)
  case 0
  have "(all_idle w (length ns))\<lparr>bpcs := replicate (length ns) (Finished None)\<rparr> = all_idle w (length ns)"
    by (simp add: all_idle_def)
  then show ?case using bruns.here by simp
next
  case (Suc j)
  let ?c = "(all_idle w (length ns))\<lparr>bpcs := map InsertTopic (take j ns) @ replicate (length ns - j) (Finished None)\<rparr>"
  let ?n = "ns ! j"
  have j: "j < length ns" "?n \<noteq> []" using Suc.prems assms(3) by simp_all
  let ?c1 = "?c\<lparr>bpcs := (bpcs ?c)[j := CountShards ?n 0 0]\<rparr>"
  have "bruns R (\<lambda>x. \<exists>n. x = OpCreate n) (all_idle w (length ns)) (?c\<lparr>bpcs := (bpcs ?c)[j := call_pc (OpCreate ?n)]\<rparr>)"
    by (rule bruns.call [where e = None]) (use Suc j in \<open>auto simp: nth_append all_idle_def\<close>)
  then have c1: "bruns R (\<lambda>x. \<exists>n. x = OpCreate n) (all_idle w (length ns)) ?c1" using j(2) by simp
  have len: "length (bpcs ?c) = length ns" using j(1) by simp
  have "reaches R j ?c1 (InsertTopic ?n) (bw ?c1)"
    using j(1) len shards_len [OF shared_okD(2) [OF assms(1)]] assms(2)
    by (intro create_counted) (simp_all add: at_pc_def all_idle_def)
  then have "solo R j ?c1 (?c1\<lparr>bpcs := (bpcs ?c1)[j := InsertTopic ?n]\<rparr>)" by (simp add: reaches_def)
  from solo_runs [OF this c1] j(1) len
  have "bruns R (\<lambda>x. \<exists>n. x = OpCreate n) (all_idle w (length ns)) (?c\<lparr>bpcs := (bpcs ?c)[j := InsertTopic ?n]\<rparr>)" by simp
  moreover have "(bpcs ?c)[j := InsertTopic ?n] = map InsertTopic (take (Suc j) ns) @ replicate (length ns - Suc j) (Finished None)"
  proof -
    have "length ns - j = Suc (length ns - Suc j)" using j(1) by simp
    then show ?thesis using j(1) by (simp add: list_update_append take_Suc_conv_app_nth del: replicate_Suc)
        (simp add: all_idle_def)
  qed
  ultimately show ?case by simp
qed

lemma insert_new:
  assumes "shared_ok (bw c)" "lookup (bw c) n = None" "bpcs c ! i = InsertTopic n" "locked_shards c = {}"
  shows "broker_action R i c = Goes (c\<lparr>bw := created n (bw c), bpcs := (bpcs c)[i := Finished None]\<rparr>)"
  using shard_creates [OF assms(1,2)] assms(3,4) by (auto simp: broker_action_def bgoto_def Let_def)

lemma all_inserted:
  assumes "shared_ok w" "distinct ns" "\<And>n. n \<in> set ns \<Longrightarrow> n \<noteq> [] \<and> lookup w n = None"
    and "bruns R A c0 ((all_idle w (length ns))\<lparr>bpcs := map InsertTopic ns\<rparr>)" "j \<le> length ns"
  shows "\<exists>w'. bruns R A c0 ((all_idle w' (length ns))\<lparr>bpcs := replicate j (Finished None) @ map InsertTopic (drop j ns)\<rparr>) \<and>
    shared_ok w' \<and> dom (lookup w') = dom (lookup w) \<union> set (take j ns)"
  using assms(5)
proof (induction j)
  case 0
  then show ?case using assms(1,4) by auto
next
  case (Suc j)
  then obtain w' where w': "bruns R A c0 ((all_idle w' (length ns))\<lparr>bpcs := replicate j (Finished None) @ map InsertTopic (drop j ns)\<rparr>)"
    "shared_ok w'" "dom (lookup w') = dom (lookup w) \<union> set (take j ns)" by auto
  let ?c = "(all_idle w' (length ns))\<lparr>bpcs := replicate j (Finished None) @ map InsertTopic (drop j ns)\<rparr>"
  let ?n = "ns ! j"
  have j: "j < length ns" using Suc.prems by simp
  have fresh: "lookup w' ?n = None" "?n \<noteq> []"
  proof -
    have "?n \<notin> set (take j ns)" using j assms(2) by (auto simp: in_set_conv_nth nth_eq_iff_index_eq)
    then show "lookup w' ?n = None" "?n \<noteq> []" using w'(3) assms(3) [of ?n] j by auto
  qed
  have "broker_action R j ?c = Goes (?c\<lparr>bw := created ?n (bw ?c), bpcs := (bpcs ?c)[j := Finished None]\<rparr>)"
    using j fresh(1) w'(2) by (intro insert_new) (simp_all add: nth_append all_idle_def)
  from bruns.act [OF w'(1) _ this] j
  have "bruns R A c0 ((all_idle (created ?n w') (length ns))\<lparr>bpcs := (bpcs ?c)[j := Finished None]\<rparr>)"
    by (simp add: all_idle_def)
  moreover have "(bpcs ?c)[j := Finished None] = replicate (Suc j) (Finished None) @ map InsertTopic (drop (Suc j) ns)"
    using j by (simp add: list_update_append Cons_nth_drop_Suc [symmetric] replicate_app_Cons_same)
  moreover note new = shared_created [OF w'(2) fresh(2,1)]
  have "dom (lookup (created ?n w')) = dom (lookup w) \<union> set (take (Suc j) ns)"
    unfolding new(2) using w'(3) j by (simp add: take_Suc_conv_app_nth)
  moreover note new(1)
  ultimately show ?case by (intro exI [of _ "created ?n w'"] conjI) simp_all
qed

lemma TotalTopicCount_shared: "shared_ok w \<Longrightarrow> Broker_GetTotalTopicCount w = card (dom (lookup w))"
  by (rule TotalTopicCount_card [OF shared_okD(2)])

lemma finite_shared: "shared_ok w \<Longrightarrow> finite (dom (lookup w))"
  using router.finite_flat [of "map topicsMap (shards w)"] shared_okD(2) [of w] by (simp add: shards_ok_def lookup_def)

lemma creates_alone:
  fixes w :: "'r broker"
  assumes "shared_ok w" "n \<noteq> []" "lookup w n = None" "card (dom (lookup w)) < MaxTopicsLimit"
  shows "Broker_CreateTopic n w = (None, created n w)"
  using shard_creates [OF assms(1,3)] assms(2,4) TotalTopicCount_shared [OF assms(1)]
  by (auto simp: Broker_CreateTopic_def Let_def put_shard_def)

text \<open>
  C19: the limit is not kept. With one topic left to the limit, as many goroutines as one
  likes, each creating a topic of its own, can all succeed: they pass the check in turn
  before the first of them inserts. Then there are \<open>9999 + K\<close> topics, exactly the bound.
\<close>

theorem topic_limit_exceeded:
  assumes "shared_ok w" "Broker_GetTotalTopicCount w = 9999"
    and "distinct ns" "\<And>n. n \<in> set ns \<Longrightarrow> n \<noteq> [] \<and> \<not> Broker_TopicExists n w"
  shows "\<exists>c. bruns R (\<lambda>x. \<exists>n. x = OpCreate n) (all_idle w (length ns)) c \<and>
    (\<forall>i < length ns. bpcs c ! i = Finished None) \<and> (\<forall>n \<in> set ns. Broker_TopicExists n (bw c)) \<and>
    Broker_GetTotalTopicCount (bw c) = 9999 + length ns"
proof -
  have fresh: "n \<noteq> [] \<and> lookup w n = None" if "n \<in> set ns" for n
    using assms(4) [OF that] TopicExists_eq [OF shared_okD(2) [OF assms(1)], of n] by simp
  have "bruns R (\<lambda>x. \<exists>n. x = OpCreate n) (all_idle w (length ns)) ((all_idle w (length ns))\<lparr>bpcs := map InsertTopic ns\<rparr>)"
    using all_counted [OF assms(1) _ _ order_refl, of ns R] assms(2) fresh by (simp add: MaxTopicsLimit_def)
  from all_inserted [OF assms(1,3) fresh this order_refl] obtain w' where
    w': "bruns R (\<lambda>x. \<exists>n. x = OpCreate n) (all_idle w (length ns)) (all_idle w' (length ns))"
      "shared_ok w'" "dom (lookup w') = dom (lookup w) \<union> set ns"
    by (auto simp: all_idle_def)
  have "dom (lookup w) \<inter> set ns = {}" using fresh by (auto simp: dom_def)
  then have "card (dom (lookup w')) = 9999 + length ns"
    using w'(3) assms(2) TotalTopicCount_shared [OF assms(1)] finite_shared [OF assms(1)] distinct_card [OF assms(3)]
    by (simp add: card_Un_disjoint)
  moreover have "Broker_TopicExists n w'" if "n \<in> set ns" for n
    using that w'(3) TopicExists_eq [OF shared_okD(2) [OF w'(2)], of n] by auto
  ultimately show ?thesis
    using w'(1) TotalTopicCount_shared [OF w'(2)] by (intro exI [of _ "all_idle w' (length ns)"]) (simp add: all_idle_def)
qed

text \<open>A broker with 9999 topics.\<close>

lemma many_topics:
  "k \<le> MaxTopicsLimit \<Longrightarrow> \<exists>w :: (string \<Rightarrow> blob list) broker. world_ok w \<and> dom (lookup w) = (\<lambda>i. replicate (Suc i) CHR ''a'') ` {..<k}"
proof (induction k)
  case 0
  then show ?case using example_broker_ok(1,2) by (intro exI [of _ example_broker]) simp
next
  case (Suc k)
  then obtain w :: "(string \<Rightarrow> blob list) broker" where
    w: "world_ok w" "dom (lookup w) = (\<lambda>i. replicate (Suc i) CHR ''a'') ` {..<k}" by auto
  let ?n = "replicate (Suc k) CHR ''a''"
  have "card (dom (lookup w)) \<le> k" unfolding w(2) using card_image_le [of "{..<k}"] by simp
  moreover have "?n \<notin> dom (lookup w)" unfolding w(2) by (auto dest: arg_cong [where f = length])
  ultimately have "world_ok (created ?n w)" "lookup (created ?n w) = (lookup w)(?n \<mapsto> length (topics w))"
    using Suc.prems world_ok_created [OF w(1), of ?n] by (simp_all add: domIff)
  note new = this
  have "dom (lookup (created ?n w)) = (\<lambda>i. replicate (Suc i) CHR ''a'') ` {..<Suc k}"
    unfolding new(2) using w(2) by (simp add: lessThan_Suc)
  then show ?case using new(1) by blast
qed

theorem topic_limit_exceeded_witness:
  "\<exists>(w :: (string \<Rightarrow> blob list) broker) c. Broker_GetTotalTopicCount w = 9999 \<and>
     bruns mem_redis (\<lambda>x. \<exists>n. x = OpCreate n) (all_idle w 2) c \<and> Broker_GetTotalTopicCount (bw c) = 10001"
proof -
  obtain w :: "(string \<Rightarrow> blob list) broker" where
    w: "world_ok w" "dom (lookup w) = (\<lambda>i. replicate (Suc i) CHR ''a'') ` {..<9999}"
    using many_topics [of 9999] by (auto simp: MaxTopicsLimit_def)
  have "inj_on (\<lambda>i. replicate (Suc i) CHR ''a'') {..<9999}" by (auto intro!: inj_onI dest: arg_cong [where f = length])
  then have count: "Broker_GetTotalTopicCount w = 9999"
    using TotalTopicCount_card [OF world_okD(2) [OF w(1)]] card_image by (fastforce simp: w(2))
  have "''x'' \<notin> dom (lookup w)" "''y'' \<notin> dom (lookup w)" unfolding w(2) by auto
  then have "n \<noteq> [] \<and> \<not> Broker_TopicExists n w" if "n \<in> set [''x'', ''y'']" for n
    using that TopicExists_eq [OF world_okD(2) [OF w(1)]] by auto
  from topic_limit_exceeded [OF shared_ok_world [OF w(1)] count _ this, of "[''x'', ''y'']" mem_redis] count
  show ?thesis by (auto simp: numeral_2_eq_2)
qed

section \<open>Subscribing to a topic that is being deleted\<close>

lemma lookup_put_sub [simp]: "lookup (sub_update r f w) = lookup w"
  by (simp add: sub_update_def frame)

text \<open>Subscriber \<open>r\<close> joins the emptied topic \<open>p\<close>, which no shard knows any more.\<close>

definition orphaned :: "string \<Rightarrow> nat \<Rightarrow> nat \<Rightarrow> 'r broker \<Rightarrow> 'r broker" where
  "orphaned n p r w = relink r (Subscriber_AddTopic n (subs w ! r)) p
     ((topics w ! p)\<lparr>subscribers := [(clientID (subs w ! r), r)]\<rparr>) w"

lemma join_emptied:
  assumes "subscribers (topics w ! p) = []" "0 < maxSubscribers (topics w ! p)" "topicName (topics w ! p) = n"
    "p \<notin> locked_topics c" "bw c = w" "bpcs c ! i = JoinTopic p r"
  shows "broker_action R i c = Goes (c\<lparr>bw := orphaned n p r w, bpcs := (bpcs c)[i := Finished None]\<rparr>)"
  using assms by (simp add: broker_action_def bgoto_def Topic_AddSubscriber_def gm_get_def gm_put_def Let_def
      Subscriber_GetClientID_def sub_update_def put_topic_def orphaned_def relink_def)

lemma deleted_topic:
  assumes "world_ok w" "lookup w n = Some p"
  shows "lookup (deleted n p w) n = None" "subscribers (topics (deleted n p w) ! p) = []"
    "maxSubscribers (topics (deleted n p w) ! p) = MaxSubscribersPerTopic" "topicName (topics (deleted n p w) ! p) = n"
    "p < length (topics (deleted n p w))" "length (subs (deleted n p w)) = length (subs w)"
  using world_ok_deleted(2) [OF assms] world_ok_lookup [OF assms] world_ok_topic(2) [OF assms(1)]
  by (simp_all add: deleted_def frame)

text \<open>The schedule of the race: goroutine 0 finds the topic, goroutine 1 deletes it, goroutine 0 joins it.\<close>

lemma orphan_run:
  assumes "world_ok w" "lookup w n = Some p" "r < length (subs w)"
  shows "bruns R (\<lambda>x. x = OpSubscribe n r \<or> x = OpDelete n) (all_idle w 2)
    ((all_idle (orphaned n p r (deleted n p w)) 2)\<lparr>bpcs := [Finished None, Finished None]\<rparr>)"
proof -
  let ?A = "\<lambda>x. x = OpSubscribe n r \<or> x = OpDelete n"
  let ?c0 = "all_idle w 2" and ?d = "deleted n p w"
  let ?o = "orphaned n p r ?d"
  note d = deleted_topic [OF assms(1,2)]
  have sh: "shards_ok w" using world_okD(2) assms(1) by blast
  have pcs: "bpcs ?c0 = [Finished None, Finished None]" by (simp add: all_idle_def numeral_2_eq_2)
  \<comment> \<open>goroutine 0 finds the topic\<close>
  have "bruns R ?A ?c0 (?c0\<lparr>bpcs := (bpcs ?c0)[0 := call_pc (OpSubscribe n r)]\<rparr>)"
    by (rule bruns.call [OF bruns.here, where e = None]) (use assms(3) in \<open>simp_all add: pcs all_idle_def\<close>)
  then have "bruns R ?A ?c0 (?c0\<lparr>bpcs := [FindTopic (OpSubscribe n r), Finished None]\<rparr>)" by (simp add: pcs)
  from bruns.act [OF this, where i = 0 and c' = "?c0\<lparr>bpcs := [JoinTopic p r, Finished None]\<rparr>"]
  have "bruns R ?A ?c0 (?c0\<lparr>bpcs := [JoinTopic p r, Finished None]\<rparr>)"
    using assms(2) GetTopic_eq [OF sh, of n] by (simp add: broker_action_def bgoto_def all_idle_def)
  \<comment> \<open>goroutine 1 deletes it\<close>
  from bruns.call [OF this, where i = 1 and x = "OpDelete n" and e = None]
  have run: "bruns R ?A ?c0 (?c0\<lparr>bpcs := [JoinTopic p r, RemoveTopic n]\<rparr>)" by simp
  have "Broker_DeleteTopic n w = Some (None, ?d)" using Delete_eq [OF assms(1), of n] assms(2) by simp
  then have "solo R 1 (?c0\<lparr>bpcs := [JoinTopic p r, RemoveTopic n]\<rparr>)
      ((all_idle ?d 2)\<lparr>bpcs := [JoinTopic p r, Finished None]\<rparr>)"
    using delete_alone [of 1 n "?c0\<lparr>bpcs := [JoinTopic p r, RemoveTopic n]\<rparr>" None ?d R] shared_ok_world [OF assms(1)]
    by (simp add: at_pc_def free_def all_idle_def)
  from solo_runs [OF this run]
  have "bruns R ?A ?c0 ((all_idle ?d 2)\<lparr>bpcs := [JoinTopic p r, Finished None]\<rparr>)" by simp
  \<comment> \<open>goroutine 0 joins what it found\<close>
  note found = this
  have join: "broker_action R 0 ((all_idle ?d 2)\<lparr>bpcs := [JoinTopic p r, Finished None]\<rparr>) =
      Goes ((all_idle ?o 2)\<lparr>bpcs := [Finished None, Finished None]\<rparr>)"
    using join_emptied [of ?d p n "(all_idle ?d 2)\<lparr>bpcs := [JoinTopic p r, Finished None]\<rparr>" 0 r R] d
    by (simp add: all_idle_def MaxSubscribersPerTopic_def)
  show "bruns R ?A ?c0 ((all_idle ?o 2)\<lparr>bpcs := [Finished None, Finished None]\<rparr>)"
    by (rule bruns.act [OF found _ join]) simp
qed

text \<open>What it leaves: the topic is gone, the client lists it, and creating it again does not bring the client back.\<close>

lemma orphan_left:
  assumes "world_ok w" "lookup w n = Some p" "r < length (subs w)"
  defines "x \<equiv> orphaned n p r (deleted n p w)"
  shows "lookup x n = None" "shards_ok x" "r < length (subs x)" "n \<in> set (Subscriber_GetSubscribedTopics (subs x ! r))"
    and "card (dom (lookup x)) < MaxTopicsLimit"
proof -
  let ?d = "deleted n p w"
  note d = deleted_topic [OF assms(1,2)]
  have sh: "shards_ok ?d" using world_okD(2) world_ok_deleted(1) [OF assms(1,2)] by blast
  show o: "lookup x n = None" "shards_ok x" "r < length (subs x)"
    using d(1,6) sh assms(3) by (simp_all add: x_def orphaned_def frame)
  show "n \<in> set (Subscriber_GetSubscribedTopics (subs x ! r))"
    using assms(3) d(6) by (simp add: x_def orphaned_def relink_nth Subscriber_GetSubscribedTopics_def frame gm.set_keys_put)
  have "lookup x = lookup ?d" by (simp add: x_def orphaned_def frame)
  moreover have "card (dom (lookup w)) \<le> MaxTopicsLimit" "finite (dom (lookup w))"
    using world_okD(4) [OF assms(1)] finite_lookup [OF assms(1)] by simp_all
  ultimately show "card (dom (lookup x)) < MaxTopicsLimit"
    using world_ok_deleted(2) [OF assms(1,2)] card_Diff1_less [of "dom (lookup w)" n] assms(2) by (auto simp: domI)
qed

lemma created_empty:
  fixes x :: "'r broker"
  assumes "shared_ok x" "n \<noteq> []" "lookup x n = None" "card (dom (lookup x)) < MaxTopicsLimit"
  shows "Broker_CreateTopic n x = (None, created n x)" "Broker_GetTopic n (created n x) = Inr (length (topics x))"
    and "members (topics (created n x) ! length (topics x)) = {}" "subs (created n x) = subs x"
proof -
  show "Broker_CreateTopic n x = (None, created n x)" by (rule creates_alone [OF assms])
  show "Broker_GetTopic n (created n x) = Inr (length (topics x))"
    using GetTopic_eq [OF shared_okD(2) [OF shared_created(1) [OF assms(1-3)]], of n] shared_created(2) [OF assms(1-3)] by simp
  show "members (topics (created n x) ! length (topics x)) = {}" "subs (created n x) = subs x"
    by (simp_all add: created_def frame members_def gm_vals_def new_topic_def)
qed

text \<open>
  C20: a subscription that races with the deletion of its topic. The goroutine of the
  subscriber has looked the topic up when another deletes it; both calls report success. From
  then on the client lists a topic that does not exist, and unsubscribing reports
  TOPIC_NOT_FOUND without taking it from the list; and when the topic is created again, the
  client, which still lists it, is not among its members, so that no message reaches it.
\<close>

theorem orphan_subscription:
  assumes "world_ok w" "lookup w n = Some p" "r < length (subs w)"
  shows "\<exists>c w'. bruns R (\<lambda>x. x = OpSubscribe n r \<or> x = OpDelete n) (all_idle w 2) c \<and>
    bpcs c = [Finished None, Finished None] \<and>
    \<not> Broker_TopicExists n (bw c) \<and> n \<in> set (Subscriber_GetSubscribedTopics (subs (bw c) ! r)) \<and>
    Broker_UnsubscribeFromTopic n (clientID (subs w ! r)) (bw c) = (Some ErrorCodeTopicNotFound, bw c) \<and>
    Broker_CreateTopic n (bw c) = (None, w') \<and>
    n \<in> set (Subscriber_GetSubscribedTopics (subs w' ! r)) \<and>
    (\<exists>q. Broker_GetTopic n w' = Inr q \<and> r \<notin> members (topics w' ! q))"
proof -
  let ?o = "orphaned n p r (deleted n p w)"
  note run = orphan_run [OF assms, of R] and o = orphan_left [OF assms]
  have "shared_ok ?o"
    using runs_ok [OF run idle_ok [OF shared_ok_world [OF assms(1)]]] by (simp add: bconc_ok_def all_idle_def)
  note new = created_empty [OF this world_ok_lookup(1) [OF assms(1,2)] o(1,5)]
  show ?thesis
    using run o(4) new TopicExists_eq [OF o(2), of n] o(1) GetTopic_eq [OF o(2), of n]
    by (intro exI [of _ "(all_idle ?o 2)\<lparr>bpcs := [Finished None, Finished None]\<rparr>"] exI [of _ "created n ?o"])
      (simp add: all_idle_def Broker_UnsubscribeFromTopic_def)
qed

theorem orphan_subscription_witness:
  "\<exists>c. bruns mem_redis (\<lambda>x. x = OpSubscribe ''a'' 0 \<or> x = OpDelete ''a'') (all_idle example_subscribed 2) c \<and>
     \<not> Broker_TopicExists ''a'' (bw c) \<and> ''a'' \<in> set (Subscriber_GetSubscribedTopics (subs (bw c) ! 0))"
  using orphan_subscription [OF example_subscribed_ok(1,2), of 0 mem_redis] example_subscribed_ok by auto

section \<open>The send that is overtaken\<close>

text \<open>
  The panic that \<open>Broker_Conc.interleaved_calls\<close> leaves does happen: a publication has passed the
  check of \<open>SendMessage\<close> for an open subscriber when the connection of that subscriber ends, and
  its \<open>Close\<close> closes the channel.
\<close>

definition single :: "'r broker \<Rightarrow> broker_pc \<Rightarrow> 'r bconc" where
  "single w l = (all_idle w 1)\<lparr>bpcs := [l]\<rparr>"

lemma single_act:
  assumes "bruns R A c0 (single w l)" "broker_action R 0 (single w l) = Goes (single w' l')"
  shows "bruns R A c0 (single w' l')"
  by (rule bruns.act [OF assms(1) _ assms(2)]) (simp add: single_def)

theorem publish_can_panic:
  assumes "shared_ok w" "lookup w n = Some p" "gm_vals (subscribers (topics w ! p)) = r # rs" "\<not> isClosedFlag (subs w ! r)"
    "RedisStorage_SaveMessage R n m (storage w) = (None, st)"
  shows "\<exists>c. bruns R (\<lambda>x. x = OpPublish n m) (all_idle w 1) c \<and> broker_action R 0 c = Panics"
proof -
  let ?A = "\<lambda>x. x = OpPublish n m" and ?t = "topics w ! p"
  let ?w1 = "w\<lparr>storage := st\<rparr>"
  let ?w2 = "put_topic p (?t\<lparr>totalMessageCount := totalMessageCount ?t + 1\<rparr>) (?w1\<lparr>cells := cells w @ [m]\<rparr>)"
  let ?e = "publication ?t w"
  have p: "p < length (topics w)" using shared_okD(7) [OF assms(1,2)] by simp
  note act_simps = single_def all_idle_def broker_action_def bgoto_def Let_def
  have "bruns R ?A (all_idle w 1) ((all_idle w 1)\<lparr>bpcs := (bpcs (all_idle w 1))[0 := call_pc (OpPublish n m)]\<rparr>)"
    by (rule bruns.call [OF bruns.here, where e = None]) (simp_all add: all_idle_def)
  then have "bruns R ?A (all_idle w 1) (single w (FindTopic (OpPublish n m)))" by (simp add: single_def all_idle_def)
  then have "bruns R ?A (all_idle w 1) (single w (StoreMessage n p m))"
    by (rule single_act) (simp add: act_simps GetTopic_eq [OF shared_okD(2) [OF assms(1)]] assms(2))
  then have "bruns R ?A (all_idle w 1) (single ?w1 (CountMessage p m))"
    by (rule single_act) (simp add: act_simps assms(5))
  then have "bruns R ?A (all_idle w 1) (single ?w2 (ListMembers p ?e))"
    by (rule single_act) (simp add: act_simps publication_def)
  then have "bruns R ?A (all_idle w 1) (single ?w2 (DeliverTo ?e Check (r # rs)))"
    by (rule single_act) (simp add: act_simps put_topic_def p assms(3))
  then have run: "bruns R ?A (all_idle w 1) (single ?w2 (DeliverTo ?e Select (r # rs)))"
    by (rule single_act) (simp add: act_simps send_step_def put_sub_def put_topic_def assms(4))
  have ok: "bconc_ok (single ?w2 (DeliverTo ?e Select (r # rs)))"
    using runs_ok [OF run idle_ok [OF assms(1)]] .
  then have w2: "shared_ok ?w2" and r: "r < length (subs ?w2)" by (simp_all add: bconc_ok_def single_def all_idle_def)
  obtain s where s: "Subscriber_Close (subs ?w2 ! r) = Some s" "isClosedFlag s" "chan_closed (messageQueue s)"
    using shared_okD(3) [OF w2 r] by (auto simp: Close_eq sub_ok_def)
  let ?w3 = "put_sub r s ?w2"
  have "bruns R ?A (all_idle w 1) ((single ?w2 (DeliverTo ?e Select (r # rs)))\<lparr>bw := ?w3\<rparr>)"
    by (rule bruns.others [OF run]) (use close_may [OF w2 r s(1)] in \<open>simp add: single_def all_idle_def\<close>)
  moreover have "broker_action R 0 ((single ?w2 (DeliverTo ?e Select (r # rs)))\<lparr>bw := ?w3\<rparr>) = Panics"
    using s(3) r by (simp add: act_simps send_step_def chan_try_send_def put_sub_def)
  ultimately show ?thesis by blast
qed

end
