(* ===== verification/Server_Machine.thy ===== *)
theory Server_Machine
  imports Http_Server
begin

text \<open>
  The whole server as a state machine: the world, the connections whose read loop runs and
  the subscribers whose write loop runs. An event is one turn of one goroutine: a client
  connects, a request is read and handled, a read fails and the connection is cleaned up,
  a write loop takes its next message, a REST request is served, time passes, another
  client of Redis changes it. Every order of events is a run. The turns do not overlap: each
  is carried out from start to end before the next begins. What goroutines can do to each
  other inside a turn is in \<open>Broker_Conc\<close>, \<open>Broker_Race\<close> and \<open>Subscriber_Conc\<close>.
\<close>

record 'r config =
  cf_world :: "'r world"
  cf_reading :: "nat set"
  cf_writing :: "nat set"

datatype 'r event = EvConnect | EvRequest nat client_message | EvReadFails nat | EvWriter nat
  | EvRest connection endpoint http_request | EvTick nat | EvRedis 'r

text \<open>\<open>None\<close> is a panic. Accepting a connection starts its two loops.\<close>

fun server_step :: "'r env \<Rightarrow> 'r event \<Rightarrow> 'r config \<Rightarrow> 'r config option" where
  "server_step E EvConnect c =
     (let (r, w) = connect E (cf_world c) in
      Some (c\<lparr>cf_world := set_read_deadline r w, cf_reading := insert r (cf_reading c),
              cf_writing := insert r (cf_writing c)\<rparr>))"
| "server_step E (EvRequest r cm) c = do {
     w \<leftarrow> handleClientMessage E r cm (set_read_deadline r (cf_world c));
     Some (c\<lparr>cf_world := w\<rparr>)
   }"
| "server_step E (EvReadFails r) c = do {
     w \<leftarrow> cleanupSubscriber r (cf_world c);
     Some (c\<lparr>cf_world := w, cf_reading := cf_reading c - {r}\<rparr>)
   }"
| "server_step E (EvWriter r) c = (let w = cf_world c in do {
     (st, s) \<leftarrow> writeLoop_turn (ws_writes E) (clock w) (cells w) (subs w ! r);
     Some (c\<lparr>cf_world := w\<lparr>subs := (subs w)[r := s]\<rparr>,
             cf_writing := (if st = Terminated then cf_writing c - {r} else cf_writing c)\<rparr>)
   })"
| "server_step E (EvRest cn h q) c = do {
     (_, _, w) \<leftarrow> endpoint_handler E cn h q new_writer (cf_world c);
     Some (c\<lparr>cf_world := w\<rparr>)
   }"
| "server_step E (EvTick d) c = Some (c\<lparr>cf_world := (cf_world c)\<lparr>clock := clock (cf_world c) + int d\<rparr>\<rparr>)"
| "server_step E (EvRedis r) c =
     Some (c\<lparr>cf_world := (cf_world c)\<lparr>storage := (storage (cf_world c))\<lparr>client := r\<rparr>\<rparr>\<rparr>)"

fun enabled :: "'r event \<Rightarrow> 'r config \<Rightarrow> bool" where
  "enabled (EvRequest r cm) c = (r \<in> cf_reading c)"
| "enabled (EvReadFails r) c = (r \<in> cf_reading c)"
| "enabled (EvWriter r) c = (r \<in> cf_writing c)"
| "enabled (EvRest cn h q) c = (h \<noteq> WebSocket)"
| "enabled _ c = True"

definition initial :: "'r broker \<Rightarrow> 'r config" where
  "initial b = \<lparr>cf_world = broker.extend b \<lparr>ulid_draws = 0\<rparr>, cf_reading = {}, cf_writing = {}\<rparr>"

inductive reachable :: "'r env \<Rightarrow> 'r config \<Rightarrow> bool" for E where
  start: "NewBroker t (Some st) = Some b \<Longrightarrow> reachable E (initial b)"
| step: "reachable E c \<Longrightarrow> enabled ev c \<Longrightarrow> server_step E ev c = Some c' \<Longrightarrow> reachable E c'"

section \<open>The invariant\<close>

text \<open>Two draws of the ULID generator differ, as its documentation says.\<close>

definition ulid_unique :: "'r env \<Rightarrow> bool" where
  "ulid_unique E \<longleftrightarrow> (\<forall>i j t t'. ulid E i t = ulid E j t' \<longrightarrow> i = j)"

definition ids_drawn :: "'r env \<Rightarrow> 'r world \<Rightarrow> bool" where
  "ids_drawn E w \<longleftrightarrow> (\<forall>r < length (subs w). \<exists>k < ulid_draws w. \<exists>t. clientID (subs w ! r) = ulid E k t)"

definition config_ok :: "'r env \<Rightarrow> 'r config \<Rightarrow> bool" where
  "config_ok E c \<longleftrightarrow> world_ok (cf_world c) \<and> ids_drawn E (cf_world c) \<and>
     cf_reading c \<union> cf_writing c \<subseteq> {..<length (subs (cf_world c))} \<and>
     (\<forall>r < length (subs (cf_world c)). let s = subs (cf_world c) ! r in
        chan_cap (messageQueue s) = SubscriberQueueSize \<and>
        (r \<notin> cf_reading c \<longrightarrow> isClosedFlag s \<and> subscribedTopics s = []) \<and>
        (r \<notin> cf_writing c \<longrightarrow> isClosedFlag s))"

text \<open>
  What an event may do to a subscriber: it stays who it is, a closed one stays closed, and
  one without topics gains none unless its read loop runs.
\<close>

definition calm :: "subscriber \<Rightarrow> subscriber \<Rightarrow> bool" where
  "calm s s' \<longleftrightarrow> same_client s s' \<and> (isClosedFlag s \<longrightarrow> isClosedFlag s') \<and>
     (subscribedTopics s = [] \<longrightarrow> subscribedTopics s' = [])"

lemma calm_kept: "sub_kept True s s' \<Longrightarrow> calm s s'"
  by (simp add: calm_def sub_kept_def)

lemma config_okD:
  assumes "config_ok E c"
  shows "world_ok (cf_world c)" "r \<in> cf_reading c \<Longrightarrow> r < length (subs (cf_world c))"
    "r \<in> cf_writing c \<Longrightarrow> r < length (subs (cf_world c))"
  using assms by (auto simp: config_ok_def)

text \<open>An event that adds no subscriber keeps the invariant if it is calm except for \<open>X\<close>.\<close>

lemma config_ok_world:
  assumes "config_ok E c" "world_ok w'" "length (subs w') = length (subs (cf_world c))"
    "ulid_draws (cf_world c) \<le> ulid_draws w'"
    and s: "\<And>q. q < length (subs w') \<Longrightarrow> sub_kept False (subs (cf_world c) ! q) (subs w' ! q)"
      "\<And>q. q < length (subs w') \<Longrightarrow> q \<notin> cf_reading c \<Longrightarrow> calm (subs (cf_world c) ! q) (subs w' ! q)"
    and loops: "R \<subseteq> cf_reading c" "T \<subseteq> cf_writing c"
      "\<And>q. q \<in> cf_reading c - R \<Longrightarrow> isClosedFlag (subs w' ! q) \<and> subscribedTopics (subs w' ! q) = []"
      "\<And>q. q \<in> cf_writing c - T \<Longrightarrow> isClosedFlag (subs w' ! q)"
  shows "config_ok E (c\<lparr>cf_world := w', cf_reading := R, cf_writing := T\<rparr>)"
proof -
  have "ids_drawn E w'"
    unfolding ids_drawn_def
  proof (intro allI impI)
    fix r assume r: "r < length (subs w')"
    then obtain k t where "k < ulid_draws (cf_world c)" "clientID (subs (cf_world c) ! r) = ulid E k t"
      using assms(1,3) by (auto simp: config_ok_def ids_drawn_def)
    then show "\<exists>k < ulid_draws w'. \<exists>t. clientID (subs w' ! r) = ulid E k t"
      using s(1) [OF r] assms(4) by (auto simp: sub_kept_def same_client_def intro!: exI [of _ k])
  qed
  moreover have "chan_cap (messageQueue (subs w' ! r)) = SubscriberQueueSize \<and>
      (r \<notin> R \<longrightarrow> isClosedFlag (subs w' ! r) \<and> subscribedTopics (subs w' ! r) = []) \<and> (r \<notin> T \<longrightarrow> isClosedFlag (subs w' ! r))"
    if r: "r < length (subs w')" for r
  proof -
    have old: "chan_cap (messageQueue (subs (cf_world c) ! r)) = SubscriberQueueSize"
      "r \<notin> cf_reading c \<longrightarrow> isClosedFlag (subs (cf_world c) ! r) \<and> subscribedTopics (subs (cf_world c) ! r) = []"
      "r \<notin> cf_writing c \<longrightarrow> isClosedFlag (subs (cf_world c) ! r)"
      using assms(1,3) r by (auto simp: config_ok_def Let_def)
    then show ?thesis using s [OF r] loops(3,4) [of r]
      by (cases "r \<in> cf_reading c"; cases "r \<in> cf_writing c") (auto simp: sub_kept_def same_client_def calm_def)
  qed
  ultimately show ?thesis using assms(1-3) loops(1,2) by (auto simp: config_ok_def Let_def)
qed

section \<open>Every event keeps it\<close>

text \<open>What is to be shown of an event: no panic, and the invariant afterwards.\<close>

definition event_ok :: "'r env \<Rightarrow> 'r event \<Rightarrow> 'r config \<Rightarrow> bool" where
  "event_ok E ev c \<longleftrightarrow> (\<exists>c'. server_step E ev c = Some c' \<and> config_ok E c')"

lemma deadline_ok:
  assumes "world_ok w" "r < length (subs w)"
  shows "world_ok (set_read_deadline r w)" "kept r w (set_read_deadline r w)"
    "length (subs (set_read_deadline r w)) = length (subs w)"
proof -
  let ?s = "conn_do [SetReadDeadline (clock w + 5 * minute)] (subs w ! r)"
  have "world_ok (w\<lparr>cells := cells w, subs := (subs w)[r := ?s]\<rparr>)"
    using assms(2) world_ok_sub [OF assms(1)]
    by (intro world_ok_queues [OF assms(1)]) (auto simp: nth_list_update conn_do_def sub_ok_def queue_refs_ok_def)
  then show "world_ok (set_read_deadline r w)" by (simp add: set_read_deadline_def sub_update_def)
  show "kept r w (set_read_deadline r w)" "length (subs (set_read_deadline r w)) = length (subs w)"
    using assms(2) by (auto simp: set_read_deadline_def sub_update_def kept_def nth_list_update conn_do_def sub_kept_def same_client_def)
qed

lemma kept_ok:
  assumes "config_ok E c" "r \<in> cf_reading c" "world_ok w'" "kept r (cf_world c) w'"
    and "R = cf_reading c \<or> R = cf_reading c - {r} \<and> isClosedFlag (subs w' ! r) \<and> subscribedTopics (subs w' ! r) = []"
  shows "config_ok E (c\<lparr>cf_world := w', cf_reading := R\<rparr>)"
proof -
  have k: "sub_kept (q \<noteq> r) (subs (cf_world c) ! q) (subs w' ! q)" if "q < length (subs w')" for q
    using assms(4) that by (simp add: kept_def)
  have "config_ok E (c\<lparr>cf_world := w', cf_reading := R, cf_writing := cf_writing c\<rparr>)"
  proof (rule config_ok_world [OF assms(1,3)])
    fix q assume q: "q < length (subs w')"
    show "sub_kept False (subs (cf_world c) ! q) (subs w' ! q)" using k [OF q] by (simp add: sub_kept_def)
    show "calm (subs (cf_world c) ! q) (subs w' ! q)" if "q \<notin> cf_reading c"
    proof -
      have "q \<noteq> r" using that assms(2) by blast
      then show ?thesis using k [OF q] by (simp add: calm_kept)
    qed
  qed (use assms(4,5) in \<open>auto simp: kept_def\<close>)
  then show ?thesis by simp
qed

lemma request_ok:
  assumes "config_ok E c" "r \<in> cf_reading c"
  shows "event_ok E (EvRequest r cm) c"
proof -
  note w = config_okD(1) [OF assms(1)] and r = config_okD(2) [OF assms]
  note d = deadline_ok [OF w r]
  have "r < length (subs (set_read_deadline r (cf_world c)))" using d(3) r by simp
  from client_served [OF d(1) this, of E cm] obtain w' where
    w': "handleClientMessage E r cm (set_read_deadline r (cf_world c)) = Some w'" "world_ok w'"
      "kept r (set_read_deadline r (cf_world c)) w'"
    by (auto simp: served_def)
  have "config_ok E (c\<lparr>cf_world := w', cf_reading := cf_reading c\<rparr>)"
    by (rule kept_ok [OF assms w'(2) kept_trans [OF d(2) w'(3)]]) simp
  then show ?thesis using w'(1) by (simp add: event_ok_def)
qed

lemma read_fails_ok:
  assumes "config_ok E c" "r \<in> cf_reading c"
  shows "event_ok E (EvReadFails r) c"
proof -
  obtain w' where w': "cleanupSubscriber r (cf_world c) = Some w'" "world_ok w'" "kept r (cf_world c) w'"
      "isClosedFlag (subs w' ! r)" "subscribedTopics (subs w' ! r) = []"
    using cleanup_full [OF config_okD(1) [OF assms(1)] config_okD(2) [OF assms]] by blast
  have "config_ok E (c\<lparr>cf_world := w', cf_reading := cf_reading c - {r}\<rparr>)"
    by (rule kept_ok [OF assms w'(2,3)]) (simp add: w'(4,5))
  then show ?thesis using w'(1) by (simp add: event_ok_def)
qed

lemma writer_ok:
  assumes "config_ok E c" "r \<in> cf_writing c"
  shows "event_ok E (EvWriter r) c"
proof -
  let ?w = "cf_world c"
  note w = config_okD(1) [OF assms(1)] and r = config_okD(3) [OF assms]
  note s = world_ok_sub [OF w r]
  obtain st s' where t: "writeLoop_turn (ws_writes E) (clock ?w) (cells ?w) (subs ?w ! r) = Some (st, s')"
      "sub_ok s'" "same_client (subs ?w ! r) s'" "subscribedTopics s' = subscribedTopics (subs ?w ! r)"
      "st = Terminated \<longrightarrow> isClosedFlag s'"
    using turn_ok [OF s(1)] by blast
  note refs = turn_refs [OF s(1) t(1)]
  let ?w' = "?w\<lparr>subs := (subs ?w)[r := s']\<rparr>"
  let ?T = "if st = Terminated then cf_writing c - {r} else cf_writing c"
  have ok: "world_ok (?w\<lparr>cells := cells ?w, subs := (subs ?w)[r := s']\<rparr>)"
    using r t(2-4) refs s(2) world_ok_sub [OF w]
    by (intro world_ok_queues [OF w]) (auto simp: nth_list_update same_client_def queue_refs_ok_def)
  have calm: "sub_kept b (subs ?w ! q) (subs ?w' ! q)" if "q < length (subs ?w')" for b q
    using that r t(3,4) refs by (auto simp: sub_kept_def nth_list_update same_client_def)
  have "config_ok E (c\<lparr>cf_world := ?w', cf_reading := cf_reading c, cf_writing := ?T\<rparr>)"
  proof (rule config_ok_world [OF assms(1)])
    show "world_ok ?w'" using ok by simp
  qed (use calm [THEN calm_kept] calm r t(5) in \<open>auto split: if_splits\<close>)
  then show ?thesis using t(1) by (simp add: event_ok_def Let_def)
qed

text \<open>A REST request leaves the subscribers alone but for the members of a deleted topic.\<close>

lemma rest_subs:
  assumes "world_ok w" "h \<noteq> WebSocket" "endpoint_handler E cn h q W w = Some (b, W', w')"
  shows "w' = w \<or> (\<exists>n. w' = created n w) \<or> (\<exists>n p. lookup w n = Some p \<and> w' = deleted n p w)"
proof (cases h)
  case CreateTopic
  then show ?thesis using assms by (auto simp: TopicsHandler_CreateTopic_def Create_eq Let_def split: option.splits if_splits)
next
  case DeleteTopic
  then show ?thesis using assms by (auto simp: TopicsHandler_DeleteTopic_def Delete_eq Let_def split: option.splits if_splits)
qed (use assms in auto)

lemma rest_calm:
  assumes "world_ok w" "w' = w \<or> (\<exists>n. w' = created n w) \<or> (\<exists>n p. lookup w n = Some p \<and> w' = deleted n p w)"
  shows "length (subs w') = length (subs w) \<and> ulid_draws w' = ulid_draws w \<and>
    (\<forall>q < length (subs w). sub_kept False (subs w ! q) (subs w' ! q) \<and> calm (subs w ! q) (subs w' ! q))"
proof -
  consider "subs w' = subs w" "ulid_draws w' = ulid_draws w"
    | n p where "lookup w n = Some p" "w' = deleted n p w"
    using assms(2) by (auto simp: created_def set_map_def Let_def)
  then show ?thesis
  proof cases
    case 1
    then show ?thesis by (simp add: calm_def)
  next
    case 2
    have "sub_kept False (subs w ! q) (after_deletion n (clock w) (subs w ! q)) \<and>
        calm (subs w ! q) (after_deletion n (clock w) (subs w ! q))" if "q < length (subs w)" for q
      by (auto simp: sub_kept_def calm_def same_client_def after_deletion_def frame after_send_def gm_del_def)
    then show ?thesis using 2
      by (auto simp: deleted_def frame nth_upd_at calm_def) (auto simp: set_map_def Let_def)
  qed
qed

lemma config_ok_calm:
  assumes "config_ok E c" "world_ok w'" "length (subs w') = length (subs (cf_world c))" "ulid_draws w' = ulid_draws (cf_world c)"
    "\<And>q. q < length (subs w') \<Longrightarrow> sub_kept False (subs (cf_world c) ! q) (subs w' ! q) \<and> calm (subs (cf_world c) ! q) (subs w' ! q)"
  shows "config_ok E (c\<lparr>cf_world := w'\<rparr>)"
proof -
  have "config_ok E (c\<lparr>cf_world := w', cf_reading := cf_reading c, cf_writing := cf_writing c\<rparr>)"
    by (rule config_ok_world [OF assms(1-3)]) (use assms(4,5) in auto)
  then show ?thesis by simp
qed

lemma rest_ok:
  assumes "config_ok E c" "h \<noteq> WebSocket"
  shows "event_ok E (EvRest cn h q) c"
proof -
  note w = config_okD(1) [OF assms(1)]
  obtain W' w' where h: "endpoint_handler E cn h q new_writer (cf_world c) = Some (True, W', w')" "world_ok w'"
    using rest_answers [OF w _ assms(2), of new_writer E cn q] by (auto simp: new_writer_def)
  note calm = rest_calm [OF w rest_subs [OF w assms(2) h(1)]]
  have "config_ok E (c\<lparr>cf_world := w'\<rparr>)"
    by (rule config_ok_calm [OF assms(1) h(2)]) (use calm in auto)
  then show ?thesis using h(1) by (simp add: event_ok_def)
qed

lemma quiet_ok:
  assumes "config_ok E c"
  shows "event_ok E (EvTick d) c" "event_ok E (EvRedis r) c"
proof -
  note w = config_okD(1) [OF assms]
  have "config_ok E (c\<lparr>cf_world := (cf_world c)\<lparr>clock := clock (cf_world c) + int d\<rparr>\<rparr>)"
    by (rule config_ok_calm [OF assms]) (use w in \<open>simp_all add: calm_def\<close>)
  then show "event_ok E (EvTick d) c" by (simp add: event_ok_def)
  have "config_ok E (c\<lparr>cf_world := (cf_world c)\<lparr>storage := (storage (cf_world c))\<lparr>client := r\<rparr>\<rparr>\<rparr>)"
    by (rule config_ok_calm [OF assms]) (use w in \<open>simp_all add: calm_def\<close>)
  then show "event_ok E (EvRedis r) c" by (simp add: event_ok_def)
qed

text \<open>A new connection has an id that no subscriber has, as the generator does not repeat.\<close>

lemma connect_ok:
  assumes "ulid_unique E" "config_ok E c"
  shows "event_ok E EvConnect c"
proof -
  let ?w = "cf_world c" let ?r = "length (subs ?w)"
  let ?id = "ulid E (ulid_draws ?w) (clock ?w)"
  let ?s = "NewSubscriber ?id [] SubscriberQueueSize"
  let ?w1 = "?w\<lparr>ulid_draws := Suc (ulid_draws ?w), subs := subs ?w @ [?s]\<rparr>"
  note w = config_okD(1) [OF assms(2)]
  have drawn: "\<exists>k < ulid_draws ?w. \<exists>t. clientID (subs ?w ! r) = ulid E k t" if "r < ?r" for r
    using assms(2) that by (auto simp: config_ok_def ids_drawn_def)
  have fresh: "?id \<notin> clientID ` set (subs ?w)"
  proof
    assume "?id \<in> clientID ` set (subs ?w)"
    then obtain r where r: "r < ?r" "clientID (subs ?w ! r) = ?id" by (auto simp: in_set_conv_nth image_iff)
    from drawn [OF r(1)] obtain k t where "k < ulid_draws ?w" "ulid E k t = ?id" using r(2) by metis
    then show False using assms(1) unfolding ulid_unique_def by (metis less_irrefl)
  qed
  have "world_ok ((?w\<lparr>ulid_draws := Suc (ulid_draws ?w)\<rparr>)\<lparr>subs := subs (?w\<lparr>ulid_draws := Suc (ulid_draws ?w)\<rparr>) @ [?s]\<rparr>)"
    by (rule world_ok_connect) (use w fresh in \<open>simp_all add: frame\<close>, simp_all add: NewSubscriber_def make_chan_def)
  then have w1: "world_ok ?w1" by simp
  have r: "?r < length (subs ?w1)" by simp
  note d = deadline_ok [OF w1 r]
  let ?w2 = "set_read_deadline ?r ?w1"
  have "server_step E EvConnect c = Some (c\<lparr>cf_world := ?w2, cf_reading := insert ?r (cf_reading c), cf_writing := insert ?r (cf_writing c)\<rparr>)"
    by (simp add: connect_def generateClientID_def alloc_def Let_def)
  moreover have s1: "subs ?w1 ! q = (if q = ?r then ?s else subs ?w ! q)" if "q \<le> ?r" for q
    using that by (auto simp: nth_append)
  have s2: "subs ?w2 ! q = (if q = ?r then conn_do [SetReadDeadline (clock ?w + 5 * minute)] ?s else subs ?w ! q)" if "q \<le> ?r" for q
    using that by (auto simp: set_read_deadline_def sub_update_def nth_append nth_list_update)
  have draws: "ulid_draws ?w2 = Suc (ulid_draws ?w)" by (simp add: set_read_deadline_def sub_update_def)
  have id2: "clientID (subs ?w2 ! ?r) = ?id" unfolding s2 [OF order_refl] by (simp add: conn_do_def NewSubscriber_def)
  have "ids_drawn E ?w2"
    unfolding ids_drawn_def
  proof (intro allI impI)
    fix q assume "q < length (subs ?w2)"
    then consider "q = ?r" | "q < ?r" using d(3) by fastforce
    then show "\<exists>k < ulid_draws ?w2. \<exists>t. clientID (subs ?w2 ! q) = ulid E k t"
    proof cases
      case 1
      then show ?thesis using id2 draws by (metis lessI)
    next
      case 2
      then show ?thesis using drawn [OF 2] s2 [of q] draws by (metis less_SucI less_imp_le nat_less_le)
    qed
  qed
  moreover have "chan_cap (messageQueue (subs ?w2 ! q)) = SubscriberQueueSize \<and>
      (q \<notin> insert ?r (cf_reading c) \<longrightarrow> isClosedFlag (subs ?w2 ! q) \<and> subscribedTopics (subs ?w2 ! q) = []) \<and>
      (q \<notin> insert ?r (cf_writing c) \<longrightarrow> isClosedFlag (subs ?w2 ! q))" if "q \<le> ?r" for q
    using assms(2) that unfolding s2 [OF that]
    by (cases "q = ?r") (auto simp: config_ok_def Let_def conn_do_def NewSubscriber_def make_chan_def)
  moreover have "cf_reading c \<union> cf_writing c \<subseteq> {..<?r}" using assms(2) by (simp add: config_ok_def)
  ultimately show ?thesis
    using d(1,3) by (auto simp: event_ok_def config_ok_def Let_def less_Suc_eq_le)
qed

lemma every_event_ok: "ulid_unique E \<Longrightarrow> config_ok E c \<Longrightarrow> enabled ev c \<Longrightarrow> event_ok E ev c"
  by (cases ev) (simp_all add: connect_ok request_ok read_fails_ok writer_ok rest_ok quiet_ok)

lemma initial_ok:
  assumes "NewBroker t (Some st) = Some b"
  shows "config_ok E (initial b)"
  using world_ok_new [OF assms] by (simp add: config_ok_def initial_def frame ids_drawn_def)

lemma reachable_ok: "reachable E c \<Longrightarrow> ulid_unique E \<Longrightarrow> config_ok E c"
proof (induction rule: reachable.induct)
  case (step c ev c')
  then show ?case using every_event_ok by (fastforce simp: event_ok_def)
qed (rule initial_ok)

section \<open>What holds of every run\<close>

text \<open>
  C10: one turn at a time, the server does not panic. In every state that turns which do not
  overlap lead to from a new broker, whatever clients and REST callers send, whatever Redis
  and the connections answer and in whatever order the turns come, the next turn is carried
  out to its end. Assumed besides: no ULID is drawn twice, and their source of entropy does
  not fail. So a panic of the server takes two goroutines inside their turns at once; that
  this can happen, at one place in \<open>SendMessage\<close>, is in \<open>Subscriber_Conc\<close> and \<open>Broker_Conc\<close>.
\<close>

theorem serial_turns_never_panic:
  assumes "ulid_unique E" "reachable E c" "enabled ev c"
  shows "\<exists>c'. server_step E ev c = Some c' \<and> reachable E c'"
proof -
  obtain c' where "server_step E ev c = Some c'"
    using every_event_ok [OF assms(1) reachable_ok [OF assms(2,1)] assms(3)] by (auto simp: event_ok_def)
  with reachable.step [OF assms(2,3)] show ?thesis by blast
qed

lemma listed_iff:
  assumes "world_ok w" "r < length (subs w)"
  shows "n \<in> set (Subscriber_GetSubscribedTopics (subs w ! r)) \<longleftrightarrow>
    (\<exists>cs k. abs_broker w n = Some (cs, k) \<and> clientID (subs w ! r) \<in> cs)"
proof -
  have "n \<in> set (Subscriber_GetSubscribedTopics (subs w ! r)) \<longleftrightarrow> (\<exists>p. lookup w n = Some p \<and> r \<in> members (topics w ! p))"
    using links [OF assms, of n] by (simp add: Subscriber_GetSubscribedTopics_def gm.keys_get)
  also have "\<dots> \<longleftrightarrow> (\<exists>p. lookup w n = Some p \<and> clientID (subs w ! r) \<in> fst (abs_topic (topics w ! p)))"
    using key_in_abs(1) [OF assms] by blast
  also have "\<dots> \<longleftrightarrow> (\<exists>cs k. abs_broker w n = Some (cs, k) \<and> clientID (subs w ! r) \<in> cs)"
    by (auto simp: abs_broker_def abs_topic_def)
  finally show ?thesis .
qed

lemma topic_bounds:
  assumes "world_ok w" "abs_broker w n = Some (cs, k)"
  shows "int (card cs) \<le> MaxSubscribersPerTopic \<and> cs \<subseteq> clientID ` set (subs w)"
proof -
  obtain p where p: "lookup w n = Some p" "cs = set (gm_keys (subscribers (topics w ! p)))"
    using assms(2) by (auto simp: abs_broker_def abs_topic_def)
  note t = world_ok_topic [OF assms(1) world_ok_lookup(2) [OF assms(1) p(1)]]
  have "x \<in> clientID ` set (subs w)" if "x \<in> cs" for x
  proof -
    obtain r where "gm_get (subscribers (topics w ! p)) x = Some r" using \<open>x \<in> cs\<close> by (auto simp: p(2) gm.keys_get)
    then have "r < length (subs w)" "clientID (subs w ! r) = x" using t(1) by (auto simp: topic_ok_def)
    then show ?thesis by force
  qed
  then show ?thesis using t members_card_keys [OF t(1)] by (auto simp: p(2) topic_ok_def)
qed

text \<open>
  As long as turns do not overlap, the limits and the consistency of the server hold exactly:
  at most 10000 topics, at most 50000 subscribers in each, at most 100 messages in each queue;
  every subscriber of a topic is a client that has connected, and a client lists a topic
  exactly if the topic lists the client. When calls overlap, \<open>Broker_Conc.interleaved_calls\<close> and
  \<open>Broker_Race.topic_limit_bound\<close> say what remains, and \<open>Broker_Race\<close> what does not.
\<close>

theorem serial_limits:
  assumes "ulid_unique E" "reachable E c"
  shows "card (dom (abs_broker (cf_world c))) \<le> 10000 \<and>
    (\<forall>n cs k. abs_broker (cf_world c) n = Some (cs, k) \<longrightarrow>
       card cs \<le> 50000 \<and> cs \<subseteq> clientID ` set (subs (cf_world c))) \<and>
    (\<forall>r < length (subs (cf_world c)). length (queue_of (subs (cf_world c) ! r)) \<le> 100 \<and>
       (\<forall>n. n \<in> set (Subscriber_GetSubscribedTopics (subs (cf_world c) ! r)) \<longleftrightarrow>
          (\<exists>cs k. abs_broker (cf_world c) n = Some (cs, k) \<and> clientID (subs (cf_world c) ! r) \<in> cs)))"
proof -
  let ?w = "cf_world c"
  note ok = reachable_ok [OF assms(2,1)]
  note w = config_okD(1) [OF ok]
  have "length (queue_of (subs ?w ! r)) \<le> 100" if "r < length (subs ?w)" for r
  proof -
    have "chan_cap (messageQueue (subs ?w ! r)) = SubscriberQueueSize" using ok that by (simp add: config_ok_def Let_def)
    then show ?thesis using world_ok_sub(1) [OF w that] by (simp add: sub_ok_def SubscriberQueueSize_def)
  qed
  moreover have "card cs \<le> 50000 \<and> cs \<subseteq> clientID ` set (subs ?w)" if "abs_broker ?w n = Some (cs, k)" for n cs k
    using topic_bounds [OF w that] by (simp add: MaxSubscribersPerTopic_def)
  ultimately show ?thesis using world_okD(4) [OF w] listed_iff [OF w] by (simp add: MaxTopicsLimit_def)
qed

text \<open>
  C12: a connection that has ended leaves nothing behind: once the read loop of a client
  has ended, its subscriber is closed and is in no topic, and stays so; and as long as a
  subscriber is open, its write loop is running.
\<close>

theorem ended_connections:
  assumes "ulid_unique E" "reachable E c" "r < length (subs (cf_world c))"
  shows "(r \<notin> cf_reading c \<longrightarrow> isClosedFlag (subs (cf_world c) ! r) \<and>
      (\<forall>n cs k. abs_broker (cf_world c) n = Some (cs, k) \<longrightarrow> clientID (subs (cf_world c) ! r) \<notin> cs)) \<and>
    (\<not> isClosedFlag (subs (cf_world c) ! r) \<longrightarrow> r \<in> cf_writing c \<and> r \<in> cf_reading c)"
proof -
  note ok = reachable_ok [OF assms(2,1)]
  note l = listed_iff [OF config_okD(1) [OF ok] assms(3)]
  have s: "r \<notin> cf_reading c \<Longrightarrow> isClosedFlag (subs (cf_world c) ! r) \<and> subscribedTopics (subs (cf_world c) ! r) = []"
    "r \<notin> cf_writing c \<Longrightarrow> isClosedFlag (subs (cf_world c) ! r)"
    using ok assms(3) by (simp_all add: config_ok_def Let_def)
  have "clientID (subs (cf_world c) ! r) \<notin> cs" if "r \<notin> cf_reading c" "abs_broker (cf_world c) n = Some (cs, k)" for n cs k
    using l [of n] s(1) [OF that(1)] that(2) by (auto simp: Subscriber_GetSubscribedTopics_def gm_keys_def)
  with s show ?thesis by blast
qed

section \<open>A reachable state\<close>

definition connected_config :: "(string \<Rightarrow> blob list) config" where
  "connected_config = the (server_step example_env EvConnect (initial example_broker))"

lemma example_unique: "ulid_unique example_env"
  by (simp add: ulid_unique_def example_env_def)

lemma connected_reachable: "reachable example_env connected_config" "cf_reading connected_config = {0}"
  "length (subs (cf_world connected_config)) = 1"
proof -
  have "event_ok example_env EvConnect (initial example_broker)"
    by (rule connect_ok [OF example_unique initial_ok [OF example_broker_new]])
  then have "server_step example_env EvConnect (initial example_broker) = Some connected_config"
    by (auto simp: event_ok_def connected_config_def)
  from reachable.step [OF reachable.start [OF example_broker_new] _ this]
  show "reachable example_env connected_config" by simp
  show "cf_reading connected_config = {0}" "length (subs (cf_world connected_config)) = 1"
    using example_broker_ok(3) by (simp_all add: connected_config_def initial_def connect_def generateClientID_def
        alloc_def Let_def frame set_read_deadline_def sub_update_def broker.defs)
qed

theorem serial_turns_never_panic_witness:
  "\<exists>c'. server_step example_env (EvRequest 0 example_request) connected_config = Some c'"
proof -
  have "enabled (EvRequest 0 example_request) connected_config" by (simp add: connected_reachable)
  from serial_turns_never_panic [OF example_unique connected_reachable(1) this] show ?thesis by blast
qed

theorem ended_connections_witness:
  "\<exists>c'. server_step example_env (EvReadFails 0) connected_config = Some c' \<and> reachable example_env c' \<and>
     isClosedFlag (subs (cf_world c') ! 0)"
proof -
  have "event_ok example_env (EvReadFails 0) connected_config"
    using reachable_ok [OF connected_reachable(1) example_unique] by (intro read_fails_ok) (simp_all add: connected_reachable)
  then obtain c' where c': "server_step example_env (EvReadFails 0) connected_config = Some c'" by (auto simp: event_ok_def)
  moreover have r: "reachable example_env c'"
    by (rule reachable.step [OF connected_reachable(1) _ c']) (simp add: connected_reachable)
  moreover have "length (subs (cf_world c')) = 1 \<and> 0 \<notin> cf_reading c'"
  proof -
    obtain w' where "cleanupSubscriber 0 (cf_world connected_config) = Some w'" "length (subs w') = length (subs (cf_world connected_config))"
      using cleanup_full [of "cf_world connected_config" 0] kept_len connected_reachable
        config_okD(1) [OF reachable_ok [OF connected_reachable(1) example_unique]] by (metis zero_less_one)
    then show ?thesis using c' connected_reachable(3) by auto
  qed
  ultimately show ?thesis using ended_connections [OF example_unique r, of 0] by auto
qed

end
