(* ===== verification/Frames.thy ===== *)
theory Frames
  imports Server_Machine
begin

text \<open>
  The type of the protocol: which frames the server may send. \<open>frame_ok\<close> says what the fields
  of a \<open>model.ServerMessage\<close> (\<^verbatim>\<open>internal/model/protocol.go\<close>) are for each message type; every
  frame in a queue of the server, and every frame written to a connection, has this type in
  every reachable state.
\<close>

definition plain :: "'p server_message \<Rightarrow> bool" where
  "plain m \<longleftrightarrow> s_message m = None \<and> s_error m = None"

text \<open>An event carries a message and a topic, an error carries its error, nothing else does.\<close>

definition frame_ok :: "'p server_message \<Rightarrow> bool" where
  "frame_ok m \<longleftrightarrow>
     (s_type m = ''message'' \<and> s_topic m \<noteq> [] \<and> s_message m \<noteq> None \<and> s_error m = None \<and> s_info m = [] \<and> s_request_id m = [] \<or>
      s_type m = ''ack'' \<and> s_topic m \<noteq> [] \<and> plain m \<and> s_info m \<in> {''subscribed'', ''unsubscribed'', ''published''} \<or>
      s_type m = ''error'' \<and> s_topic m = [] \<and> s_message m = None \<and> s_info m = [] \<and>
        (\<exists>e. s_error m = Some e \<and> e_code e \<in> {ErrorCodeInvalidMessage, ErrorCodeTopicNotFound, ErrorCodeInternalError, ErrorCodeSlowConsumer}) \<or>
      s_type m = ''pong'' \<and> s_topic m = [] \<and> plain m \<and> s_info m = [] \<or>
      s_type m = ''info'' \<and> s_topic m \<noteq> [] \<and> plain m \<and> s_info m = ''topic_deleted'' \<and> s_request_id m = [])"

lemma frame_ok_deref [simp]: "frame_ok (deref cs m) = frame_ok m"
  by (simp add: frame_ok_def deref_def plain_def)

lemma frame_ok_reply [simp]:
  "n \<noteq> [] \<Longrightarrow> info \<in> {''subscribed'', ''unsubscribed'', ''published''} \<Longrightarrow> frame_ok (ack_message req n info t)"
  "code \<in> {ErrorCodeInvalidMessage, ErrorCodeTopicNotFound, ErrorCodeInternalError} \<Longrightarrow> frame_ok (error_message req code text t)"
  "frame_ok (pong_message req t)" "frame_ok (slow_consumer_message t)"
  by (auto simp: frame_ok_def plain_def ack_message_def error_message_def pong_message_def slow_consumer_message_def
      zero_server_message_def)

lemma frame_ok_event [simp]:
  "n \<noteq> [] \<Longrightarrow> frame_ok (replay_message n p t)" "topicName T \<noteq> [] \<Longrightarrow> frame_ok (publication T w)"
  "n \<noteq> [] \<Longrightarrow> frame_ok (deleted_message n t)"
  by (simp_all add: frame_ok_def plain_def replay_message_def publication_def deleted_message_def zero_server_message_def)

section \<open>Frames of a subscriber\<close>

definition frames_ok :: "subscriber \<Rightarrow> bool" where
  "frames_ok s \<longleftrightarrow> (\<forall>m \<in> set (queue_of s). frame_ok m) \<and> (\<forall>f. WriteJSON f \<in> set (WebsocketConnection s) \<longrightarrow> frame_ok f)"

definition world_frames_ok :: "('r, 'a) broker_scheme \<Rightarrow> bool" where
  "world_frames_ok w \<longleftrightarrow> (\<forall>s \<in> set (subs w). frames_ok s)"

lemma world_frames_nth: "world_frames_ok w \<longleftrightarrow> (\<forall>r < length (subs w). frames_ok (subs w ! r))"
  by (simp add: world_frames_ok_def all_set_conv_all_nth)

lemma frames_ok_new [simp]: "frames_ok (NewSubscriber cid [] n)"
  by (simp add: frames_ok_def NewSubscriber_def make_chan_def)

lemma frames_ok_topics [simp]:
  "frames_ok (Subscriber_AddTopic n s) = frames_ok s" "frames_ok (Subscriber_RemoveTopic n s) = frames_ok s"
  by (simp_all add: frames_ok_def frame)

lemma frames_ok_conn: "frames_ok s \<Longrightarrow> (\<And>f. WriteJSON f \<in> set cs \<Longrightarrow> frame_ok f) \<Longrightarrow> frames_ok (conn_do cs s)"
  by (auto simp: frames_ok_def conn_do_def)

lemma frames_ok_send: "frames_ok s \<Longrightarrow> frame_ok m \<Longrightarrow> frames_ok (after_send t m s)"
  by (auto simp: frames_ok_def after_send_def)

lemma frames_ok_close: "frames_ok s \<Longrightarrow> Subscriber_Close s = Some s' \<Longrightarrow> frames_ok s'"
  by (auto simp: frames_ok_def Subscriber_Close_def conn_do_def chan_close_def Let_def split: if_splits bind_splits)

lemma frames_ok_turn:
  assumes "frames_ok s" "sub_ok s" "writeLoop_turn W t cs s = Some (st, s')"
  shows "frames_ok s'"
proof (cases "chan_buf (messageQueue s)")
  case Nil
  then show ?thesis using assms(1,3)
    by (auto simp: writeLoop_turn_def chan_recv_cases intro: frames_ok_conn split: if_splits)
next
  case (Cons m ms)
  have w: "frames_ok (turn_write t cs m ms s)"
    using assms(1) Cons by (auto simp: frames_ok_def turn_write_def written_def)
  show ?thesis using assms(3) frames_ok_close [OF w] w
    by (auto simp: turn_cons [OF Cons] intro!: frames_ok_conn split: option.splits bind_splits)
qed

section \<open>Frames of the world\<close>

lemma world_frames_upd:
  assumes "world_frames_ok w" "frames_ok s"
  shows "world_frames_ok (w\<lparr>subs := (subs w)[r := s]\<rparr>)"
  using assms set_update_subset_insert [of "subs w" r s] by (auto simp: world_frames_ok_def)

lemma world_frames_subs: "world_frames_ok w \<Longrightarrow> subs w' = subs w \<Longrightarrow> world_frames_ok w'"
  by (simp add: world_frames_ok_def)

lemma world_frames_sent:
  assumes "world_frames_ok w" "r < length (subs w)" "frame_ok m"
  shows "world_frames_ok (sent r m w)"
  unfolding sent_def using assms by (intro world_frames_upd frames_ok_send) (simp_all add: world_frames_ok_def)

lemma world_frames_relink:
  assumes "world_frames_ok w" "frames_ok s"
  shows "world_frames_ok (relink r s p t w)"
  using world_frames_upd [OF assms, of r] by (simp add: relink_def world_frames_ok_def)

lemma world_frames_members:
  assumes "world_frames_ok w" "r < length (subs w)"
  shows "world_frames_ok (joined n p r w)" "world_frames_ok (left_topic n p r w)"
proof -
  have "frames_ok (subs w ! r)" using assms by (simp add: world_frames_nth)
  then show "world_frames_ok (joined n p r w)" "world_frames_ok (left_topic n p r w)"
    unfolding joined_def left_topic_def by (simp_all add: world_frames_relink assms(1))
qed

lemma world_frames_published:
  assumes "world_frames_ok w" "topicName (topics w ! p) \<noteq> []"
  shows "world_frames_ok (published p m w)"
  using assms by (simp add: world_frames_nth published_def nth_upd_at frames_ok_send)

lemma world_frames_deleted:
  assumes "world_frames_ok w" "n \<noteq> []"
  shows "world_frames_ok (deleted n p w)"
  using assms by (simp add: world_frames_nth deleted_def frame nth_upd_at after_deletion_def frames_ok_send)

lemma world_frames_replayed:
  assumes "world_frames_ok w" "r < length (subs w)" "n \<noteq> []"
  shows "world_frames_ok (replayed r n p ms w)"
  using assms
proof (induction ms arbitrary: w)
  case (Cons m ms)
  let ?w1 = "w\<lparr>cells := (cells w)[p := m]\<rparr>"
  have "world_frames_ok (sent r (replay_message n p (clock w)) ?w1)"
    using Cons.prems by (intro world_frames_sent) (simp_all add: world_frames_ok_def)
  from Cons.IH [OF this] Cons.prems show ?case by (simp add: replayed_def frame)
qed (simp add: replayed_def)

section \<open>Every request\<close>

text \<open>The result of serving subscriber \<open>r\<close>, if there is one, has well-formed frames.\<close>

definition framed :: "'r world option \<Rightarrow> bool" where
  "framed res \<longleftrightarrow> (\<forall>w'. res = Some w' \<longrightarrow> world_frames_ok w')"

lemma framed_send:
  assumes "world_ok w" "world_frames_ok w" "r < length (subs w)" "frame_ok m"
  shows "framed (send_to r m w)"
  using assms by (simp add: framed_def send_to_eq world_frames_sent)

lemma framed_error:
  assumes "world_ok w" "world_frames_ok w" "r < length (subs w)"
    "code \<in> {ErrorCodeInvalidMessage, ErrorCodeTopicNotFound, ErrorCodeInternalError}"
  shows "framed (sendError r req code text w)"
  unfolding sendError_def using assms by (intro framed_send) simp_all

lemma framed_ack:
  assumes "world_ok w" "world_frames_ok w" "r < length (subs w)" "n \<noteq> []" "info \<in> {''subscribed'', ''unsubscribed'', ''published''}"
  shows "framed (sendAck r req n info w)"
  unfolding sendAck_def using assms by (intro framed_send) simp_all

lemma framed_replay:
  assumes "world_ok w" "world_frames_ok w" "r < length (subs w)" "n \<noteq> []"
  shows "framed (do { w \<leftarrow> replay_all r n ms w; sendAck r req n ''subscribed'' w })"
proof -
  let ?w1 = "w\<lparr>cells := cells w @ [zero_message]\<rparr>"
  let ?w2 = "replayed r n (length (cells w)) ms ?w1"
  have 1: "world_ok ?w1" "r < length (subs ?w1)" "length (cells w) < length (cells ?w1)"
    using world_ok_cell(2) [OF assms(1)] assms(3) by simp_all
  have "world_frames_ok ?w1" using assms(2) by (simp add: world_frames_ok_def)
  from world_frames_replayed [OF this 1(2) assms(4)] replay_loop_eq [OF 1, of n ms] assms(3,4)
  have "framed (sendAck r req n ''subscribed'' ?w2)" by (intro framed_ack) simp_all
  then show ?thesis using replay_loop_eq [OF 1, of n ms] by (simp add: replay_all_def alloc_def)
qed

lemma framed_subscribe:
  assumes w: "world_ok w" "world_frames_ok w" "r < length (subs w)"
  shows "framed (handleSubscribe E r cm w)"
proof -
  let ?n = "c_topic cm"
  have ack: "framed (do { w \<leftarrow> (if c_last_n cm > 0 then (case Broker_GetReplayMessages (redis E) ?n (c_last_n cm) w' of
        Inr ms \<Rightarrow> replay_all r ?n ms w' | Inl _ \<Rightarrow> Some w') else Some w'); sendAck r (c_request_id cm) ?n ''subscribed'' w })"
    if "world_ok w'" "world_frames_ok w'" "r < length (subs w')" "?n \<noteq> []" for w'
    using framed_replay [OF that] framed_ack [OF that] by (auto split: sum.split)
  have "framed (case Broker_SubscribeToTopic ?n r w of
      (Some err, w) \<Rightarrow> sendError r (c_request_id cm) ErrorCodeInternalError err w
    | (None, w) \<Rightarrow> do { w \<leftarrow> (if c_last_n cm > 0 then (case Broker_GetReplayMessages (redis E) ?n (c_last_n cm) w of
        Inr ms \<Rightarrow> replay_all r ?n ms w | Inl _ \<Rightarrow> Some w) else Some w); sendAck r (c_request_id cm) ?n ''subscribed'' w })"
    if "?n \<noteq> []" for err
  proof (cases "lookup w ?n")
    case None
    then show ?thesis using framed_error [OF w] by (simp add: Subscribe_eq [OF w(1,3)])
  next
    case (Some p)
    have j: "world_frames_ok (joined ?n p r w)" "r < length (subs (joined ?n p r w))"
      using world_frames_members(1) [OF w(2,3)] w(3) by (simp_all add: frame)
    show ?thesis
      using Some that framed_error [OF w] ack [OF w] ack [OF world_ok_joined [OF w(1,3) Some] j]
      by (simp add: Subscribe_eq [OF w(1,3)])
  qed
  then show ?thesis using framed_error [OF w] by (simp add: handleSubscribe_def Let_def)
qed

lemma framed_unsubscribe:
  assumes w: "world_ok w" "world_frames_ok w" "r < length (subs w)"
  shows "framed (handleUnsubscribe r cm w)"
proof (cases "lookup w (c_topic cm)")
  case None
  then show ?thesis using framed_error [OF w] by (simp add: handleUnsubscribe_def Let_def Unsubscribe_eq [OF w(1)])
next
  case (Some p)
  note p = world_ok_lookup [OF w(1) Some]
  show ?thesis
  proof (cases "gm_get (subscribers (topics w ! p)) (clientID (subs w ! r))")
    case None
    then show ?thesis using Some p(1) framed_error [OF w] framed_ack [OF w]
      by (simp add: handleUnsubscribe_def Let_def Unsubscribe_eq [OF w(1)])
  next
    case (Some q)
    then have "q < length (subs w)" using world_ok_topic(1) [OF w(1) p(2)] by (auto simp: topic_ok_def)
    then have "world_frames_ok (left_topic (c_topic cm) p q w)" "r < length (subs (left_topic (c_topic cm) p q w))"
      using world_frames_members(2) [OF w(2)] w(3) by (simp_all add: frame)
    from framed_ack [OF world_ok_left [OF w(1) \<open>lookup w (c_topic cm) = Some p\<close> Some] this p(1)]
    show ?thesis using Some \<open>lookup w (c_topic cm) = Some p\<close> p(1)
      by (simp add: handleUnsubscribe_def Let_def Unsubscribe_eq [OF w(1)])
  qed
qed

lemma framed_publish:
  assumes w: "world_ok w" "world_frames_ok w" "r < length (subs w)"
  shows "framed (handlePublish E r cm w)"
proof -
  let ?n = "c_topic cm"
  have *: "framed (do { (err, w) \<leftarrow> Broker_PublishMessage R ?n m w1;
      (case err of Some e \<Rightarrow> sendError r (c_request_id cm) ErrorCodeInternalError e w
       | None \<Rightarrow> sendAck r (c_request_id cm) ?n ''published'' w) })"
    if 1: "world_ok w1" "world_frames_ok w1" "r < length (subs w1)" for R m w1
  proof (cases "lookup w1 ?n")
    case None
    then show ?thesis using framed_error [OF 1] by (simp add: Publish_eq [OF 1(1)])
  next
    case (Some p)
    note p = world_ok_lookup [OF 1(1) Some]
    have st: "world_ok (w1\<lparr>storage := st\<rparr>)" "world_frames_ok (w1\<lparr>storage := st\<rparr>)" "r < length (subs (w1\<lparr>storage := st\<rparr>))" for st
      using 1 by (simp_all add: world_frames_ok_def)
    have pub: "world_ok (published p m (w1\<lparr>storage := st\<rparr>))" "world_frames_ok (published p m (w1\<lparr>storage := st\<rparr>))"
      "r < length (subs (published p m (w1\<lparr>storage := st\<rparr>)))" for st
      using world_ok_published [OF st(1), where p = p and m = m] world_frames_published [OF st(2), where p = p and m = m] p 1(3) by (simp_all add: frame)
    show ?thesis using Some p(1) framed_error [OF st] framed_ack [OF pub]
      by (simp add: Publish_eq [OF 1(1)] split: prod.split option.split)
  qed
  have "world_ok (w\<lparr>ulid_draws := k\<rparr>)" "world_frames_ok (w\<lparr>ulid_draws := k\<rparr>)" for k
    using w(1,2) by (simp_all add: frame world_frames_ok_def)
  then show ?thesis using * [OF w] * [of "w\<lparr>ulid_draws := k\<rparr>" for k] framed_error [OF w] w(3)
    by (simp add: handlePublish_def generateMessageID_def Let_def split: option.split)
qed

lemma framed_request:
  assumes "world_ok w" "world_frames_ok w" "r < length (subs w)"
  shows "framed (handleClientMessage E r cm w)"
  using framed_subscribe [OF assms] framed_unsubscribe [OF assms] framed_publish [OF assms] framed_send [OF assms]
    framed_error [OF assms] by (simp add: handleClientMessage_def handlePing_def)

lemma unsubscribe_frames:
  assumes "world_ok w" "world_frames_ok w" "(err, w') = Broker_UnsubscribeFromTopic n cid w"
  shows "world_ok w'" "world_frames_ok w'"
proof -
  have "world_ok w' \<and> world_frames_ok w'"
  proof (cases "lookup w n")
    case None
    then show ?thesis using assms by (simp add: Unsubscribe_eq)
  next
    case (Some p)
    show ?thesis
    proof (cases "gm_get (subscribers (topics w ! p)) cid")
      case (Some r)
      then have "r < length (subs w)"
        using world_ok_topic(1) [OF assms(1) world_ok_lookup(2) [OF assms(1) \<open>lookup w n = Some p\<close>]] by (auto simp: topic_ok_def)
      then show ?thesis
        using assms Some \<open>lookup w n = Some p\<close> world_ok_left [OF assms(1) \<open>lookup w n = Some p\<close> Some] world_frames_members(2)
        by (auto simp: Unsubscribe_eq)
    qed (use assms Some in \<open>simp add: Unsubscribe_eq\<close>)
  qed
  then show "world_ok w'" "world_frames_ok w'" by simp_all
qed

lemma unsubscribe_all_frames: "world_ok w \<Longrightarrow> world_frames_ok w \<Longrightarrow> world_frames_ok (unsubscribe_all r ns w)"
proof (induction ns arbitrary: w)
  case (Cons n ns)
  let ?u = "Broker_UnsubscribeFromTopic n (Subscriber_GetClientID (subs w ! r)) w"
  have "(fst ?u, snd ?u) = ?u" by simp
  from Cons.IH [OF unsubscribe_frames [OF Cons.prems this]] show ?case by simp
qed simp

lemma framed_cleanup:
  assumes "world_ok w" "world_frames_ok w"
  shows "framed (cleanupSubscriber r w)"
proof -
  let ?w = "unsubscribe_all r (Subscriber_GetSubscribedTopics (subs w ! r)) w"
  have u: "world_frames_ok ?w" by (rule unsubscribe_all_frames [OF assms])
  have "world_frames_ok (?w\<lparr>subs := (subs ?w)[r := s]\<rparr>)" if "Subscriber_Close (subs ?w ! r) = Some s" for s
  proof (cases "r < length (subs ?w)")
    case True
    then have "frames_ok (subs ?w ! r)" using u by (simp add: world_frames_nth)
    from frames_ok_close [OF this that] show ?thesis by (rule world_frames_upd [OF u])
  next
    case False
    then show ?thesis using u by (simp add: world_frames_ok_def list_update_beyond)
  qed
  then show ?thesis by (auto simp: framed_def cleanupSubscriber_def Let_def split: bind_splits)
qed

section \<open>Every reachable state\<close>

lemma frames_deadline:
  assumes "world_frames_ok w" "r < length (subs w)"
  shows "world_frames_ok (set_read_deadline r w)"
proof -
  have "frames_ok (subs w ! r)" using assms by (simp add: world_frames_nth)
  then show ?thesis unfolding set_read_deadline_def sub_update_def
    by (intro world_frames_upd [OF assms(1)] frames_ok_conn) simp_all
qed

lemma frames_step:
  assumes "config_ok E c" "world_frames_ok (cf_world c)" "enabled ev c" "server_step E ev c = Some c'"
  shows "world_frames_ok (cf_world c')"
proof (cases ev)
  case EvConnect
  let ?w = "snd (connect E (cf_world c))"
  have "world_frames_ok ?w" "fst (connect E (cf_world c)) < length (subs ?w)"
    using assms(2) by (simp_all add: connect_def generateClientID_def alloc_def Let_def world_frames_ok_def)
  from frames_deadline [OF this] show ?thesis using assms(4) EvConnect by (auto simp: Let_def split: prod.splits)
next
  case (EvRequest r cm)
  have r: "r < length (subs (cf_world c))" using assms(1,3) EvRequest config_okD(2) by auto
  note d = deadline_ok [OF config_okD(1) [OF assms(1)] r]
  have "framed (handleClientMessage E r cm (set_read_deadline r (cf_world c)))"
    using d r frames_deadline [OF assms(2) r] by (intro framed_request) simp_all
  then show ?thesis using assms(4) EvRequest by (auto simp: framed_def split: bind_splits)
next
  case (EvReadFails r)
  then show ?thesis using assms(4) framed_cleanup [OF config_okD(1) [OF assms(1)] assms(2), of r]
    by (auto simp: framed_def split: bind_splits)
next
  case (EvWriter r)
  let ?w = "cf_world c"
  have r: "r < length (subs ?w)" using assms(1,3) EvWriter config_okD(3) by auto
  have s: "frames_ok (subs ?w ! r)" "sub_ok (subs ?w ! r)"
    using assms(2) r world_ok_sub(1) [OF config_okD(1) [OF assms(1)] r] by (simp_all add: world_frames_nth)
  show ?thesis using assms(4) EvWriter frames_ok_turn [OF s] world_frames_upd [OF assms(2)]
    by (auto simp: Let_def split: bind_splits)
next
  case (EvRest cn h q)
  then obtain b W' where h: "endpoint_handler E cn h q new_writer (cf_world c) = Some (b, W', cf_world c')" "h \<noteq> WebSocket"
    using assms(3,4) by (auto split: bind_splits)
  from rest_subs [OF config_okD(1) [OF assms(1)] h(2,1)] show ?thesis
    using assms(2) world_frames_deleted [OF assms(2)] world_ok_lookup(1) [OF config_okD(1) [OF assms(1)]]
    by (auto simp: created_def frame intro: world_frames_subs)
qed (use assms(2,4) in \<open>auto intro: world_frames_subs\<close>)

text \<open>
  C17: the type of the protocol is never violated. In every reachable state each frame that
  waits in a queue, and each frame that has been written to a connection, is one of: an
  event with a topic and a message, an acknowledgement with a topic and one of three
  outcomes, an error with one of four codes, a pong, or the notice that a topic was deleted.
\<close>

theorem frames_well_formed:
  assumes "ulid_unique E" "reachable E c" "r < length (subs (cf_world c))"
  shows "(\<forall>m \<in> set (queue_of (subs (cf_world c) ! r)). frame_ok m) \<and>
    (\<forall>f. WriteJSON f \<in> set (WebsocketConnection (subs (cf_world c) ! r)) \<longrightarrow> frame_ok f)"
proof -
  have "world_frames_ok (cf_world c)" using assms(2)
  proof (induction rule: reachable.induct)
    case (start t st b)
    then show ?case using world_ok_new(3) [OF start] by (simp add: initial_def world_frames_ok_def broker.defs)
  next
    case (step c ev c')
    then show ?case using frames_step [OF reachable_ok [OF step(1) assms(1)]] by blast
  qed
  then show ?thesis using assms(3) by (simp add: world_frames_nth frames_ok_def)
qed

lemma request_reading: "server_step E (EvRequest r cm) c = Some c' \<Longrightarrow> cf_reading c' = cf_reading c"
  by (auto split: bind_splits)

theorem frames_well_formed_witness:
  "\<exists>c'. server_step example_env (EvRequest 0 example_request) connected_config = Some c' \<and>
     (\<forall>m \<in> set (queue_of (subs (cf_world c') ! 0)). frame_ok m)"
proof -
  have en: "enabled (EvRequest 0 example_request) connected_config" by (simp add: connected_reachable)
  have "event_ok example_env (EvRequest 0 example_request) connected_config"
    using reachable_ok [OF connected_reachable(1) example_unique] by (intro request_ok) (simp_all add: connected_reachable)
  then obtain c' where c': "server_step example_env (EvRequest 0 example_request) connected_config = Some c'" "config_ok example_env c'"
    by (auto simp: event_ok_def)
  have r: "reachable example_env c'" by (rule reachable.step [OF connected_reachable(1) en c'(1)])
  have "cf_reading c' = {0}" using request_reading [OF c'(1)] connected_reachable(2) by simp
  then have "0 < length (subs (cf_world c'))" using c'(2) by (auto simp: config_ok_def)
  from frames_well_formed [OF example_unique r this] c'(1) show ?thesis by blast
qed

end
