(* ===== verification/Subscriber_Conc.thy ===== *)
theory Subscriber_Conc
  imports Subscriber
begin

text \<open>
  One subscriber used by several goroutines at once, at the granularity of its lock. The
  code of \<^verbatim>\<open>internal/broker/subscriber.go\<close> is cut where another goroutine can get in between:
  \<open>SendMessage\<close> gives the lock back before it touches the channel, \<open>HandleSlowConsumer\<close> and
  \<open>Close\<close> hold it, the write loop takes none. Goroutine 0 is the write loop, every other
  number is a goroutine that may send or close, as often as it likes. A call of the
  connection has a beginning and an end, so that two goroutines can be in \<open>WriteJSON\<close>.
\<close>

section \<open>Goroutines\<close>

datatype pc =
    Ready
  | SendLock "nat server_message"    \<comment> \<open>\<open>SendMessage\<close>: at \<open>closedMutex.Lock\<close>\<close>
  | SendHeld "nat server_message"    \<comment> \<open>reading \<open>isClosedFlag\<close>\<close>
  | SendSelect "nat server_message"  \<comment> \<open>lock given back, at the \<open>select\<close>\<close>
  | SlowLock | SlowHeld | SlowWriting | SlowClosing
  | CloseLock | CloseHeld | CloseClosing
  | WRecv | WWriting "nat server_message" | WExit | WEnded

record conc =
  subscr :: subscriber
  holder :: "nat option"
  pcs :: "nat \<Rightarrow> pc"
  panicked :: bool
  accepted :: "nat server_message list"
  taken :: "nat server_message list"

definition goto :: "nat \<Rightarrow> pc \<Rightarrow> conc \<Rightarrow> conc" where
  [go_defs]: "goto i l c = c\<lparr>pcs := (pcs c)(i := l)\<rparr>"

definition upd_sub :: "(subscriber \<Rightarrow> subscriber) \<Rightarrow> conc \<Rightarrow> conc" where
  [go_defs]: "upd_sub f c = c\<lparr>subscr := f (subscr c)\<rparr>"

definition lock :: "nat \<Rightarrow> pc \<Rightarrow> conc \<Rightarrow> conc option" where
  [go_defs]: "lock i l c = (if holder c = None then Some (goto i l (c\<lparr>holder := Some i\<rparr>)) else None)"

definition unlock :: "nat \<Rightarrow> pc \<Rightarrow> conc \<Rightarrow> conc" where
  [go_defs]: "unlock i l c = goto i l (c\<lparr>holder := None\<rparr>)"

text \<open>After \<open>Close\<close> the write loop returns, running its deferred close of the connection.\<close>

definition after_close :: "nat \<Rightarrow> pc" where
  "after_close i = (if i = 0 then WExit else Ready)"

text \<open>Closing the channel and setting the flag, with the lock held; closing twice panics.\<close>

definition close_queue :: "nat \<Rightarrow> pc \<Rightarrow> conc \<Rightarrow> conc" where
  "close_queue i l c =
     (case chan_close (messageQueue (subscr c)) of
        None \<Rightarrow> c\<lparr>panicked := True\<rparr>
      | Some q \<Rightarrow> unlock i l (upd_sub (\<lambda>s. s\<lparr>messageQueue := q, isClosedFlag := True\<rparr>) c))"

text \<open>The next action of goroutine \<open>i\<close>; \<open>None\<close> if it waits or has nothing to do.\<close>

definition thread_step :: "ws_write \<Rightarrow> time \<Rightarrow> message list \<Rightarrow> nat \<Rightarrow> conc \<Rightarrow> conc option" where
  "thread_step W t cs i c = (let s = subscr c in
     case pcs c i of
       Ready \<Rightarrow> None
     | SendLock m \<Rightarrow> lock i (SendHeld m) c
     | SendHeld m \<Rightarrow> Some (unlock i (if isClosedFlag s then Ready else SendSelect m) c)
     | SendSelect m \<Rightarrow> Some (case chan_try_send (messageQueue s) m of
           Sent q \<Rightarrow> goto i Ready (upd_sub (\<lambda>s. s\<lparr>messageQueue := q\<rparr>) (c\<lparr>accepted := accepted c @ [m]\<rparr>))
         | Default \<Rightarrow> goto i SlowLock c
         | SendPanic \<Rightarrow> c\<lparr>panicked := True\<rparr>)
     | SlowLock \<Rightarrow> lock i SlowHeld c
     | SlowHeld \<Rightarrow> Some (if isClosedFlag s then unlock i Ready c
         else goto i SlowWriting (upd_sub (conn_do [SetWriteDeadline (t + 1 * second)]) c))
     | SlowWriting \<Rightarrow> Some (goto i SlowClosing (upd_sub (conn_do [WriteJSON (slow_consumer_message t), CloseConn]) c))
     | SlowClosing \<Rightarrow> Some (close_queue i Ready c)
     | CloseLock \<Rightarrow> lock i CloseHeld c
     | CloseHeld \<Rightarrow> Some (if isClosedFlag s then unlock i (after_close i) c
         else goto i CloseClosing (upd_sub (conn_do [CloseConn]) c))
     | CloseClosing \<Rightarrow> Some (close_queue i (after_close i) c)
     | WRecv \<Rightarrow> (case chan_recv (messageQueue s) of
           Blocked \<Rightarrow> None
         | Drained \<Rightarrow> Some (goto i WExit c)
         | Received m q \<Rightarrow> Some (goto i (WWriting m)
             (upd_sub (\<lambda>s. conn_do [SetWriteDeadline (t + 10 * second)] (s\<lparr>messageQueue := q\<rparr>)) (c\<lparr>taken := taken c @ [m]\<rparr>))))
     | WWriting m \<Rightarrow>
         (let err = W (clientID s) (WebsocketConnection s) (deref cs m)
          in Some (goto i (if err = None then WRecv else CloseLock) (upd_sub (conn_do [WriteJSON (deref cs m)]) c)))
     | WExit \<Rightarrow> Some (goto i WEnded (upd_sub (conn_do [CloseConn]) c))
     | WEnded \<Rightarrow> None)"

definition conc_init :: "string \<Rightarrow> nat \<Rightarrow> conc" where
  "conc_init cid n = \<lparr>subscr = NewSubscriber cid [] n, holder = None, pcs = (\<lambda>_. Ready)(0 := WRecv),
     panicked = False, accepted = [], taken = []\<rparr>"

text \<open>Runs: an idle goroutine calls a method, or some goroutine takes its next action.\<close>

inductive runs :: "string \<Rightarrow> nat \<Rightarrow> conc \<Rightarrow> bool" for cid n where
  init: "runs cid n (conc_init cid n)"
| call_send: "runs cid n c \<Longrightarrow> i \<noteq> 0 \<Longrightarrow> pcs c i = Ready \<Longrightarrow> runs cid n (goto i (SendLock m) c)"
| call_close: "runs cid n c \<Longrightarrow> i \<noteq> 0 \<Longrightarrow> pcs c i = Ready \<Longrightarrow> runs cid n (goto i CloseLock c)"
| action: "runs cid n c \<Longrightarrow> \<not> panicked c \<Longrightarrow> thread_step W t cs i c = Some c' \<Longrightarrow> runs cid n c'"

section \<open>The invariant\<close>

fun critical :: "pc \<Rightarrow> bool" where
  "critical (SendHeld m) = True"
| "critical SlowHeld = True" | "critical SlowWriting = True" | "critical SlowClosing = True"
| "critical CloseHeld = True" | "critical CloseClosing = True"
| "critical _ = False"

fun closing_pc :: "pc \<Rightarrow> bool" where
  "closing_pc SlowWriting = True" | "closing_pc SlowClosing = True" | "closing_pc CloseClosing = True"
| "closing_pc _ = False"

fun writer_pc :: "pc \<Rightarrow> bool" where
  "writer_pc WRecv = True" | "writer_pc (WWriting m) = True" | "writer_pc WExit = True" | "writer_pc WEnded = True"
| "writer_pc _ = False"

text \<open>The lock has one holder, the write loop is goroutine 0.\<close>

definition lock_ok :: "conc \<Rightarrow> bool" where
  "lock_ok c \<longleftrightarrow> (\<forall>i. critical (pcs c i) \<longleftrightarrow> holder c = Some i) \<and> (\<forall>i. writer_pc (pcs c i) \<longrightarrow> i = 0)"

text \<open>The flag tells the truth about the channel, and who is about to close it finds it open.\<close>

definition flag_ok :: "conc \<Rightarrow> bool" where
  "flag_ok c \<longleftrightarrow> isClosedFlag (subscr c) = chan_closed (messageQueue (subscr c)) \<and>
     (\<forall>i. closing_pc (pcs c i) \<longrightarrow> \<not> isClosedFlag (subscr c))"

definition queue_ok :: "nat \<Rightarrow> conc \<Rightarrow> bool" where
  "queue_ok n c \<longleftrightarrow> chan_cap (messageQueue (subscr c)) = n \<and> length (queue_of (subscr c)) \<le> n \<and>
     accepted c = taken c @ queue_of (subscr c)"

text \<open>The only panic is that of a send to a channel closed since the flag was read.\<close>

definition panic_ok :: "conc \<Rightarrow> bool" where
  "panic_ok c \<longleftrightarrow> (panicked c \<longrightarrow> isClosedFlag (subscr c) \<and> (\<exists>i m. pcs c i = SendSelect m))"

lemma closing_critical: "closing_pc l \<Longrightarrow> critical l"
  by (cases l) simp_all

lemma goto_pcs [simp]: "pcs (goto i l c) j = (if j = i then l else pcs c j)"
  by (simp add: goto_def)

lemma goto_rest [simp]:
  "subscr (goto i l c) = subscr c" "holder (goto i l c) = holder c" "panicked (goto i l c) = panicked c"
  "accepted (goto i l c) = accepted c" "taken (goto i l c) = taken c"
  by (simp_all add: goto_def)

lemma upd_sub_rest [simp]:
  "subscr (upd_sub f c) = f (subscr c)" "holder (upd_sub f c) = holder c" "pcs (upd_sub f c) = pcs c"
  "panicked (upd_sub f c) = panicked c" "accepted (upd_sub f c) = accepted c" "taken (upd_sub f c) = taken c"
  by (simp_all add: upd_sub_def)

lemma after_close_pc [simp]: "\<not> critical (after_close i)" "\<not> closing_pc (after_close i)" "writer_pc (after_close i) = (i = 0)"
  "after_close i \<noteq> SendSelect m"
  by (simp_all add: after_close_def)

lemma lock_okD:
  assumes "lock_ok c"
  shows "critical (pcs c i) = (holder c = Some i)" "writer_pc (pcs c i) \<Longrightarrow> i = 0"
  using assms by (simp_all add: lock_ok_def)

lemma sent_facts: "chan_try_send q m = Sent q' \<Longrightarrow>
    q' = q\<lparr>chan_buf := chan_buf q @ [m]\<rparr> \<and> \<not> chan_closed q \<and> length (chan_buf q) < chan_cap q"
  by (simp add: chan_try_send_def split: if_splits)

lemmas step_simps = thread_step_def lock_def unlock_def close_queue_def Let_def
lemmas step_splits = if_splits select_send.splits range_recv.splits option.splits

lemma lock_ok_step:
  assumes "lock_ok c" "thread_step W t cs i c = Some c'"
  shows "lock_ok c'"
proof -
  note l = lock_okD(1) [OF assms(1)] and w = lock_okD(2) [OF assms(1)]
  have "critical (pcs c' j) = (holder c' = Some j)" for j
    using assms(2) l [of i] l [of j]
    by (cases "pcs c i") (auto simp: step_simps split: step_splits)
  moreover have "j = 0" if "writer_pc (pcs c' j)" for j
    using assms(2) that w [of i] w [of j]
    by (cases "pcs c i") (auto simp: step_simps split: step_splits)
  ultimately show ?thesis by (simp add: lock_ok_def)
qed

lemma flag_ok_step:
  assumes "lock_ok c" "flag_ok c" "thread_step W t cs i c = Some c'"
  shows "flag_ok c'"
proof -
  have f: "isClosedFlag (subscr c) = chan_closed (messageQueue (subscr c))"
    "closing_pc (pcs c j) \<Longrightarrow> \<not> isClosedFlag (subscr c)" for j
    using assms(2) by (auto simp: flag_ok_def)
  have alone: "\<not> closing_pc (pcs c j)" if "critical (pcs c i)" "j \<noteq> i" for j
    using that closing_critical [of "pcs c j"] lock_okD(1) [OF assms(1), of i] lock_okD(1) [OF assms(1), of j] by auto
  have "isClosedFlag (subscr c') = chan_closed (messageQueue (subscr c'))"
    using assms(3) f(1) by (cases "pcs c i")
      (auto simp: step_simps conn_do_def dest!: sent_facts ch.recv_ReceivedD ch.close_SomeD split: step_splits)
  moreover have "\<not> isClosedFlag (subscr c')" if "closing_pc (pcs c' j)" for j
    using assms(3) f(1) f(2) [of i] f(2) [of j] alone [of j] that by (cases "pcs c i")
      (auto simp: step_simps conn_do_def dest!: sent_facts ch.recv_ReceivedD ch.close_SomeD split: step_splits)
  ultimately show ?thesis by (simp add: flag_ok_def)
qed

lemma queue_ok_step:
  assumes "queue_ok n c" "thread_step W t cs i c = Some c'"
  shows "queue_ok n c'"
  using assms by (cases "pcs c i")
    (auto simp: step_simps queue_ok_def conn_do_def dest!: sent_facts ch.recv_ReceivedD ch.close_SomeD split: step_splits)

lemma panic_ok_step:
  assumes "flag_ok c" "\<not> panicked c" "thread_step W t cs i c = Some c'"
  shows "panic_ok c'"
proof -
  have f: "isClosedFlag (subscr c) = chan_closed (messageQueue (subscr c))"
    "closing_pc (pcs c i) \<Longrightarrow> \<not> isClosedFlag (subscr c)"
    using assms(1) by (auto simp: flag_ok_def)
  show ?thesis unfolding panic_ok_def
    using assms(2,3) f by (cases "pcs c i")
      (auto simp: step_simps ch.send_panic_iff ch.close_None_iff split: step_splits, blast)
qed

text \<open>Goroutine 0 is always the write loop, or in the \<open>Close\<close> that it calls.\<close>

fun of_writer :: "pc \<Rightarrow> bool" where
  "of_writer CloseLock = True" | "of_writer CloseHeld = True" | "of_writer CloseClosing = True"
| "of_writer l = writer_pc l"

lemma of_writer_step:
  assumes "of_writer (pcs c 0)" "thread_step W t cs i c = Some c'"
  shows "of_writer (pcs c' 0)"
proof (cases "i = 0")
  case True
  then show ?thesis
    using assms by (cases "pcs c 0") (auto simp: step_simps after_close_def split: step_splits)
next
  case False
  then have "pcs c' 0 = pcs c 0"
    using assms(2) by (cases "pcs c i") (auto simp: step_simps split: step_splits)
  then show ?thesis using assms(1) by simp
qed

lemma call_ok:
  assumes "lock_ok c" "flag_ok c" "queue_ok n c" "panic_ok c" "of_writer (pcs c 0)" "i \<noteq> 0" "pcs c i = Ready"
    "\<not> critical l" "\<not> writer_pc l"
  shows "lock_ok (goto i l c) \<and> flag_ok (goto i l c) \<and> queue_ok n (goto i l c) \<and> panic_ok (goto i l c) \<and>
    of_writer (pcs (goto i l c) 0)"
proof -
  have "holder c \<noteq> Some i" using lock_okD(1) [OF assms(1), of i] assms(7) by simp
  then have "lock_ok (goto i l c)" using assms(1,6,8,9) by (simp add: lock_ok_def)
  moreover have "flag_ok (goto i l c)" using assms(2,8) closing_critical [of l] by (auto simp: flag_ok_def)
  moreover have "queue_ok n (goto i l c)" using assms(3) by (simp add: queue_ok_def)
  moreover have "panic_ok (goto i l c)"
  proof -
    have "j \<noteq> i" if "pcs c j = SendSelect m" for j m using that assms(7) by auto
    then show ?thesis using assms(4) by (fastforce simp: panic_ok_def)
  qed
  ultimately show ?thesis using assms(5,6) by simp
qed

lemma conc_inv:
  "runs cid n c \<Longrightarrow> lock_ok c \<and> flag_ok c \<and> queue_ok n c \<and> panic_ok c \<and> of_writer (pcs c 0)"
proof (induction rule: runs.induct)
  case init
  show ?case
    by (simp add: lock_ok_def flag_ok_def queue_ok_def panic_ok_def conc_init_def NewSubscriber_def make_chan_def)
next
  case (call_send c i m)
  then show ?case using call_ok [of c n i "SendLock m"] by simp
next
  case (call_close c i)
  then show ?case using call_ok [of c n i CloseLock] by simp
next
  case (action c W t cs i c')
  then show ?case
    using lock_ok_step [of c W t cs i c'] flag_ok_step [of c W t cs i c'] queue_ok_step [of n c W t cs i c']
      panic_ok_step [of c W t cs i c'] of_writer_step [of c W t cs i c'] by simp
qed

text \<open>
  C13: goroutines that send to and close a subscriber in any interleaving exclude each other
  where they close: at most one of them is past the lock, the channel is never closed
  twice, and it is closed exactly when the flag says so. The queue never holds more than
  its capacity, and the messages accepted so far are those the write loop has taken,
  in order, followed by those that wait: nothing is lost, duplicated or reordered. The only
  panic left is that of a send to a channel closed between the check and the \<open>select\<close>.
\<close>

theorem concurrent_use:
  assumes "runs cid n c"
  shows "(\<forall>i j. critical (pcs c i) \<and> critical (pcs c j) \<longrightarrow> i = j) \<and>
    isClosedFlag (subscr c) = chan_closed (messageQueue (subscr c)) \<and>
    length (queue_of (subscr c)) \<le> n \<and> accepted c = taken c @ queue_of (subscr c) \<and>
    (panicked c \<longrightarrow> chan_closed (messageQueue (subscr c)) \<and> (\<exists>i m. pcs c i = SendSelect m))"
  using conc_inv [OF assms] by (auto simp: lock_ok_def flag_ok_def queue_ok_def panic_ok_def)

text \<open>Inside the lock, and at the channel, a goroutine never waits.\<close>

lemma critical_moves: "critical (pcs c i) \<Longrightarrow> \<exists>c'. thread_step W t cs i c = Some c'"
  by (cases "pcs c i") (auto simp: thread_step_def Let_def)

lemma free_moves:
  assumes "holder c = None" "\<not> critical (pcs c i)" "pcs c i \<notin> {Ready, WEnded}"
    "pcs c i = WRecv \<Longrightarrow> queue_of (subscr c) \<noteq> [] \<or> chan_closed (messageQueue (subscr c))"
  shows "\<exists>c'. thread_step W t cs i c = Some c'"
  using assms by (cases "pcs c i") (auto simp: step_simps chan_recv_cases split: list.split)

text \<open>
  C21: no deadlock. As long as there has been no panic, some goroutine can take its next
  action, unless there is nothing left to do: every caller is idle and the write loop has
  ended or waits for a message of an open, empty queue.
\<close>

theorem no_deadlock:
  assumes "runs cid n c" "\<not> panicked c"
  shows "(\<exists>i c'. thread_step W t cs i c = Some c') \<or>
    (holder c = None \<and> (\<forall>i. i \<noteq> 0 \<longrightarrow> pcs c i = Ready) \<and>
     (pcs c 0 = WEnded \<or> pcs c 0 = WRecv \<and> queue_of (subscr c) = [] \<and> \<not> chan_closed (messageQueue (subscr c))))"
proof (cases "holder c")
  case (Some j)
  then have "critical (pcs c j)" using conc_inv [OF assms(1)] by (simp add: lock_ok_def)
  then show ?thesis using critical_moves by blast
next
  case None
  note inv = conc_inv [OF assms(1)]
  have nc: "\<not> critical (pcs c i)" for i using None inv by (simp add: lock_ok_def)
  show ?thesis
  proof (cases "\<exists>i. pcs c i \<notin> {Ready, WEnded} \<and>
      (pcs c i = WRecv \<longrightarrow> queue_of (subscr c) \<noteq> [] \<or> chan_closed (messageQueue (subscr c)))")
    case True
    then show ?thesis using free_moves [OF None nc] by blast
  next
    case False
    have "pcs c i = Ready" if "i \<noteq> 0" for i
    proof -
      have "\<not> writer_pc (pcs c i)" using inv that by (auto simp: lock_ok_def)
      then show ?thesis using False by (metis insert_iff singletonD writer_pc.simps(1,4))
    qed
    moreover have "pcs c 0 \<noteq> Ready" using inv by auto
    ultimately show ?thesis using None False by blast
  qed
qed

section \<open>Schedules\<close>

text \<open>A schedule as a list, so that concrete runs can be evaluated.\<close>

datatype act = CallSend nat "nat server_message" | CallClose nat | Do nat

fun exec :: "ws_write \<Rightarrow> time \<Rightarrow> message list \<Rightarrow> act list \<Rightarrow> conc \<Rightarrow> conc option" where
  "exec W t cs [] c = Some c"
| "exec W t cs (CallSend i m # as) c =
     (if i \<noteq> 0 \<and> pcs c i = Ready then exec W t cs as (goto i (SendLock m) c) else None)"
| "exec W t cs (CallClose i # as) c =
     (if i \<noteq> 0 \<and> pcs c i = Ready then exec W t cs as (goto i CloseLock c) else None)"
| "exec W t cs (Do i # as) c =
     (if panicked c then None else do { c \<leftarrow> thread_step W t cs i c; exec W t cs as c })"

lemma exec_runs: "exec W t cs as c = Some c' \<Longrightarrow> runs cid n c \<Longrightarrow> runs cid n c'"
  by (induction W t cs as c rule: exec.induct)
    (auto simp: bind_eq_Some_conv split: if_splits intro: runs.intros)

text \<open>
  C36: a send can panic. A goroutine that has found the subscriber open can be overtaken by
  another that closes it before the first reaches its \<open>select\<close>: the send to the closed
  channel then takes the whole process down.
\<close>

theorem send_can_panic: "\<exists>c. runs cid n c \<and> panicked c \<and> \<not> panicked (conc_init cid n)"
proof -
  let ?as = "[CallSend 1 zero_server_message, Do 1, Do 1, CallClose 2, Do 2, Do 2, Do 2, Do 1]"
  have "\<exists>c. exec (\<lambda>c h f. None) 0 [] ?as (conc_init cid n) = Some c \<and> panicked c"
    by (simp add: conc_init_def step_simps goto_def upd_sub_def NewSubscriber_def make_chan_def chan_close_def
        conn_do_def after_close_def chan_try_send_def)
  with exec_runs [OF _ runs.init] show ?thesis by (fastforce simp: conc_init_def)
qed

text \<open>One more message, sent by goroutine 1 without interruption.\<close>

definition idle_sender :: "conc \<Rightarrow> bool" where
  "idle_sender c \<longleftrightarrow> holder c = None \<and> pcs c 1 = Ready \<and> \<not> isClosedFlag (subscr c) \<and>
     \<not> chan_closed (messageQueue (subscr c)) \<and> \<not> panicked c"

lemma send_one:
  assumes "runs cid n c" "idle_sender c" "length (queue_of (subscr c)) < chan_cap (messageQueue (subscr c))"
  shows "\<exists>c'. runs cid n c' \<and> idle_sender c' \<and> pcs c' 0 = pcs c 0 \<and>
    length (queue_of (subscr c')) = Suc (length (queue_of (subscr c))) \<and>
    chan_cap (messageQueue (subscr c')) = chan_cap (messageQueue (subscr c))"
proof -
  let ?as = "[CallSend 1 zero_server_message, Do 1, Do 1, Do 1]"
  have "\<exists>c'. exec (\<lambda>c h f. None) 0 [] ?as c = Some c' \<and> idle_sender c' \<and> pcs c' 0 = pcs c 0 \<and>
      length (queue_of (subscr c')) = Suc (length (queue_of (subscr c))) \<and>
      chan_cap (messageQueue (subscr c')) = chan_cap (messageQueue (subscr c))"
    using assms(2,3) by (simp add: idle_sender_def step_simps goto_def upd_sub_def chan_try_send_def)
  with exec_runs [OF _ assms(1)] show ?thesis by blast
qed

lemma send_many:
  assumes "runs cid n c" "idle_sender c" "length (queue_of (subscr c)) + k = chan_cap (messageQueue (subscr c))"
  shows "\<exists>c'. runs cid n c' \<and> idle_sender c' \<and> pcs c' 0 = pcs c 0 \<and>
    length (queue_of (subscr c')) = chan_cap (messageQueue (subscr c'))"
  using assms
proof (induction k arbitrary: c)
  case 0
  then show ?case by auto
next
  case (Suc k)
  obtain c1 where c1: "runs cid n c1" "idle_sender c1" "pcs c1 0 = pcs c 0"
    "length (queue_of (subscr c1)) = Suc (length (queue_of (subscr c)))"
    "chan_cap (messageQueue (subscr c1)) = chan_cap (messageQueue (subscr c))"
    using send_one [OF Suc.prems(1,2)] Suc.prems(3) by auto
  have "length (queue_of (subscr c1)) + k = chan_cap (messageQueue (subscr c1))" using c1(4,5) Suc.prems(3) by simp
  from Suc.IH [OF c1(1,2) this] show ?case using c1(3) by auto
qed

text \<open>
  C37: two goroutines can write to the connection at once, which gorilla's \<open>WriteJSON\<close> does
  not allow: while the write loop is writing a message that takes long, a send to the full
  queue writes the slow-consumer error from its own goroutine.
\<close>

theorem two_writers:
  assumes "0 < n"
  shows "\<exists>c m. runs cid n c \<and> pcs c 0 = WWriting m \<and> pcs c 1 = SlowWriting"
proof -
  have 0: "idle_sender (conc_init cid n)" "queue_of (subscr (conc_init cid n)) = []"
    "chan_cap (messageQueue (subscr (conc_init cid n))) = n" "pcs (conc_init cid n) 0 = WRecv"
    by (simp_all add: idle_sender_def conc_init_def NewSubscriber_def make_chan_def)
  obtain c1 where c1: "runs cid n c1" "idle_sender c1" "pcs c1 0 = WRecv" "length (queue_of (subscr c1)) = 1"
    "chan_cap (messageQueue (subscr c1)) = n"
    using send_one [OF runs.init 0(1)] 0(2-4) assms by auto
  obtain m where m: "chan_buf (messageQueue (subscr c1)) = [m]" using c1(4) by (auto simp: length_Suc_conv)
  have "\<exists>c2. thread_step (\<lambda>c h f. None) 0 [] 0 c1 = Some c2 \<and> idle_sender c2 \<and> pcs c2 0 = WWriting m \<and>
      queue_of (subscr c2) = [] \<and> chan_cap (messageQueue (subscr c2)) = n"
    using c1(2,3,5) by (simp add: thread_step_def Let_def chan_recv_cases m idle_sender_def conn_do_def)
  then obtain c2 where c2: "runs cid n c2" "idle_sender c2" "pcs c2 0 = WWriting m"
      "queue_of (subscr c2) = []" "chan_cap (messageQueue (subscr c2)) = n"
    using runs.action [OF c1(1)] c1(2) unfolding idle_sender_def by blast
  obtain c3 where c3: "runs cid n c3" "idle_sender c3" "pcs c3 0 = WWriting m"
      "length (queue_of (subscr c3)) = chan_cap (messageQueue (subscr c3))"
    using send_many [OF c2(1,2), of n] c2(3-5) by auto
  let ?as = "[CallSend 1 zero_server_message, Do 1, Do 1, Do 1, Do 1, Do 1]"
  have "\<exists>c4. exec (\<lambda>c h f. None) 0 [] ?as c3 = Some c4 \<and> pcs c4 0 = WWriting m \<and> pcs c4 1 = SlowWriting"
    using c3(2-4) by (simp add: idle_sender_def step_simps goto_def upd_sub_def chan_try_send_def conn_do_def)
  with exec_runs [OF _ c3(1)] show ?thesis by blast
qed

theorem two_writers_witness: "\<exists>c m. runs ''a'' 100 c \<and> pcs c 0 = WWriting m \<and> pcs c 1 = SlowWriting"
  by (rule two_writers) simp

section \<open>Without interleaving\<close>

text \<open>Goroutine \<open>i\<close> running alone until it is at one of the given points.\<close>

fun alone :: "ws_write \<Rightarrow> time \<Rightarrow> message list \<Rightarrow> nat \<Rightarrow> pc set \<Rightarrow> nat \<Rightarrow> conc \<Rightarrow> conc option" where
  "alone W t cs i L 0 c = None"
| "alone W t cs i L (Suc k) c = do {
     c \<leftarrow> thread_step W t cs i c;
     if panicked c then None else if pcs c i \<in> L then Some c else alone W t cs i L k c
   }"

definition at_rest :: "nat \<Rightarrow> pc \<Rightarrow> conc \<Rightarrow> bool" where
  "at_rest i l c \<longleftrightarrow> sub_ok (subscr c) \<and> holder c = None \<and> pcs c i = l \<and> \<not> panicked c"

lemma send_alone:
  assumes "at_rest i (SendLock m) c"
  shows "\<exists>c'. alone W t cs i {Ready} 8 c = Some c' \<and>
    Subscriber_SendMessage t m (subscr c) = Some (accepted c' \<noteq> accepted c, subscr c') \<and> holder c' = None"
proof -
  consider "isClosedFlag (subscr c)" | "\<not> isClosedFlag (subscr c)" "has_room (subscr c)"
    | "\<not> isClosedFlag (subscr c)" "\<not> has_room (subscr c)" by blast
  then show ?thesis
    using assms
    by cases (auto simp: at_rest_def numeral_eq_Suc step_simps goto_def upd_sub_def SendMessage_eq after_send_def
        chan_try_send_def has_room_def sub_ok_def conn_do_def chan_close_def)
qed

lemma close_alone:
  assumes "at_rest i CloseLock c" "i \<noteq> 0"
  shows "\<exists>c'. alone W t cs i {Ready} 8 c = Some c' \<and> Subscriber_Close (subscr c) = Some (subscr c') \<and> holder c' = None"
  using assms
  by (cases "isClosedFlag (subscr c)")
    (auto simp: at_rest_def numeral_eq_Suc step_simps goto_def upd_sub_def Close_eq sub_ok_def conn_do_def
      chan_close_def after_close_def)

lemma turn_alone:
  assumes "at_rest 0 WRecv c" "writeLoop_turn W t cs (subscr c) = Some (st, s')" "st \<noteq> Waiting"
  shows "\<exists>c'. alone W t cs 0 {WRecv, WEnded} 8 c = Some c' \<and> subscr c' = s' \<and> holder c' = None \<and>
    pcs c' 0 = (if st = Running then WRecv else WEnded)"
proof (cases "chan_buf (messageQueue (subscr c))")
  case Nil
  then show ?thesis using assms
    by (auto simp: at_rest_def numeral_eq_Suc step_simps goto_def upd_sub_def chan_recv_cases writeLoop_turn_def
        conn_do_def split: if_splits)
next
  case (Cons m ms)
  let ?e = "W (clientID (subscr c)) (WebsocketConnection (subscr c) @ [SetWriteDeadline (t + 10 * second)]) (deref cs m)"
  have ok: "sub_ok (turn_write t cs m ms (subscr c))" using turn_write_ok [OF _ Cons] assms(1) by (simp add: at_rest_def)
  show ?thesis
  proof (cases ?e)
    case None
    then show ?thesis using assms Cons
      by (auto simp: at_rest_def numeral_eq_Suc step_simps goto_def upd_sub_def chan_recv_cases turn_cons [OF Cons]
          turn_write_def written_def conn_do_def)
  next
    case (Some e)
    then show ?thesis using assms Cons Close_eq [OF ok]
      by (cases "isClosedFlag (subscr c)")
        (auto simp: at_rest_def numeral_eq_Suc step_simps goto_def upd_sub_def chan_recv_cases turn_cons [OF Cons]
          turn_write_def written_def conn_do_def after_close_def chan_close_def sub_ok_def)
  qed
qed

text \<open>
  C22: the two models of a subscriber agree where no other goroutine interferes: the actions
  of one \<open>SendMessage\<close>, of one \<open>Close\<close> or of one turn of the write loop, taken without
  interruption, end with the lock free, and do to the subscriber exactly what the method,
  taken as a whole, does.
\<close>

theorem alone_refines:
  assumes "sub_ok (subscr c)" "holder c = None" "\<not> panicked c"
  shows "(\<forall>m. pcs c i = SendLock m \<longrightarrow> (\<exists>c'. alone W t cs i {Ready} 8 c = Some c' \<and> holder c' = None \<and>
      Subscriber_SendMessage t m (subscr c) = Some (accepted c' \<noteq> accepted c, subscr c'))) \<and>
    (pcs c i = CloseLock \<and> i \<noteq> 0 \<longrightarrow> (\<exists>c'. alone W t cs i {Ready} 8 c = Some c' \<and> holder c' = None \<and>
      Subscriber_Close (subscr c) = Some (subscr c'))) \<and>
    (pcs c 0 = WRecv \<longrightarrow> (\<forall>st s'. writeLoop_turn W t cs (subscr c) = Some (st, s') \<and> st \<noteq> Waiting \<longrightarrow>
      (\<exists>c'. alone W t cs 0 {WRecv, WEnded} 8 c = Some c' \<and> holder c' = None \<and> subscr c' = s' \<and>
         pcs c' 0 = (if st = Running then WRecv else WEnded))))"
  using assms send_alone [of i _ c W t cs] close_alone [of i c W t cs] turn_alone [of c W t cs]
  by (auto simp: at_rest_def)

theorem alone_refines_witness:
  "\<exists>c'. alone (\<lambda>c h f. None) 0 [] 1 {Ready} 8 (goto 1 (SendLock zero_server_message) (conc_init ''a'' 100)) = Some c' \<and>
     Subscriber_SendMessage 0 zero_server_message (NewSubscriber ''a'' [] 100) = Some (accepted c' \<noteq> [], subscr c')"
proof -
  let ?c = "goto 1 (SendLock zero_server_message) (conc_init ''a'' 100)"
  have "sub_ok (subscr ?c)" "holder ?c = None" "\<not> panicked ?c" "pcs ?c 1 = SendLock zero_server_message"
    "subscr ?c = NewSubscriber ''a'' [] 100" "accepted ?c = []"
    by (simp_all add: conc_init_def)
  with alone_refines [of ?c 1 "\<lambda>c h f. None" 0 "[]"] show ?thesis by metis
qed

theorem concurrent_use_witness:
  "\<exists>c. runs ''a'' 1 c \<and> accepted c = [zero_server_message] \<and> accepted c = taken c @ queue_of (subscr c)"
proof -
  let ?as = "[CallSend 1 zero_server_message, Do 1, Do 1, Do 1, Do 0]"
  have "\<exists>c. exec (\<lambda>c h f. None) 0 [] ?as (conc_init ''a'' 1) = Some c \<and> accepted c = [zero_server_message]"
    by (simp add: conc_init_def step_simps goto_def upd_sub_def NewSubscriber_def make_chan_def chan_try_send_def
        conn_do_def chan_recv_def)
  then obtain c where c: "exec (\<lambda>c h f. None) 0 [] ?as (conc_init ''a'' 1) = Some c" "accepted c = [zero_server_message]"
    by blast
  from exec_runs [OF c(1) runs.init] have "runs ''a'' 1 c" .
  with concurrent_use [OF this] c(2) show ?thesis by blast
qed

theorem no_deadlock_witness:
  "\<exists>i. thread_step (\<lambda>c h f. None) 0 [] i (goto 1 CloseLock (conc_init ''a'' 1)) \<noteq> None"
proof -
  let ?c = "goto 1 CloseLock (conc_init ''a'' 1)"
  have "runs ''a'' 1 ?c" by (rule runs.call_close [OF runs.init]) (simp_all add: conc_init_def)
  moreover have "\<not> panicked ?c" by (simp add: conc_init_def)
  moreover have "pcs ?c 1 \<noteq> Ready" by simp
  ultimately show ?thesis
    using no_deadlock [of "''a''" 1 ?c "\<lambda>c h f. None" 0 "[]"] by (metis option.distinct(1) zero_neq_one)
qed

end
