(* ===== verification/Client_SDK.thy ===== *)
theory Client_SDK
  imports Model
begin

text \<open>
  \<^verbatim>\<open>sdk/go/client/client.go\<close>: the Go client. A connection made by the dialer is an index into
  the list of connections made so far; of each we keep what \<open>WriteJSON\<close> has sent and whether
  it has been closed. What the dialer and \<open>WriteJSON\<close> return are parameters. Event handlers
  are numbers; \<open>emit\<close> starts a goroutine per handler, and \<open>cl_calls\<close> lists the calls. A
  message is the \<open>map[string]interface{}\<close> the client builds, as JSON with its keys sorted.
  Methods are taken as a whole here; \<open>Client_Conc\<close> cuts them where they give up the lock. A
  panic is \<open>None\<close>. The structs \<open>MessageData\<close> and \<open>Message\<close>
  are not used by the client.
\<close>

record client_options =
  AutoReconnect :: bool
  ReconnectInterval :: time
  MaxReconnectAttempts :: int

text \<open>A \<open>readLoop\<close>: about to evaluate \<open>c.conn.ReadJSON\<close>, blocked in it, or returned.\<close>

datatype reader = AtTop | Reading nat | Returned

record wire =
  wr_sent :: "json list"
  wr_closed :: bool

record sdk_client =
  cl_url :: string
  cl_conn :: "nat option"
  cl_connected :: bool
  cl_attempts :: int
  cl_options :: client_options
  cl_handlers :: "(string, nat list) gomap"
  cl_subscriptions :: "(string, bool) gomap"
  cl_queue :: "json list"
  cl_closeChan :: "unit chan"
  cl_wires :: "wire list"
  cl_readers :: "reader list"
  cl_calls :: "(nat \<times> json) list"

type_synonym sdk_write = "nat \<Rightarrow> json list \<Rightarrow> json \<Rightarrow> go_error option"

definition DefaultOptions :: client_options where
  "DefaultOptions = \<lparr>AutoReconnect = True, ReconnectInterval = 3 * second, MaxReconnectAttempts = 5\<rparr>"

definition NewClient :: "string \<Rightarrow> client_options list \<Rightarrow> sdk_client" where
  "NewClient url options =
     \<lparr>cl_url = url, cl_conn = None, cl_connected = False, cl_attempts = 0,
      cl_options = (case options of [] \<Rightarrow> DefaultOptions | opts # _ \<Rightarrow> opts),
      cl_handlers = [], cl_subscriptions = [], cl_queue = [], cl_closeChan = make_chan 0,
      cl_wires = [], cl_readers = [], cl_calls = []\<rparr>"

section \<open>Events\<close>

definition Client_On :: "string \<Rightarrow> nat \<Rightarrow> sdk_client \<Rightarrow> sdk_client" where
  "Client_On event handler c =
     c\<lparr>cl_handlers := gm_put event ((case gm_get (cl_handlers c) event of None \<Rightarrow> [] | Some hs \<Rightarrow> hs) @ [handler]) (cl_handlers c)\<rparr>"

definition Client_Off :: "string \<Rightarrow> sdk_client \<Rightarrow> sdk_client" where
  "Client_Off event c = c\<lparr>cl_handlers := gm_del event (cl_handlers c)\<rparr>"

definition emit :: "string \<Rightarrow> json \<Rightarrow> sdk_client \<Rightarrow> sdk_client" where
  "emit event data c =
     (let handlers = (case gm_get (cl_handlers c) event of None \<Rightarrow> [] | Some hs \<Rightarrow> hs)
      in c\<lparr>cl_calls := cl_calls c @ map (\<lambda>h. (h, data)) handlers\<rparr>)"

section \<open>Sending\<close>

text \<open>Offline, a message waits in the queue; that is no error.\<close>

definition Client_send :: "sdk_write \<Rightarrow> json \<Rightarrow> sdk_client \<Rightarrow> go_error option \<times> sdk_client" where
  "Client_send W msg c =
     (case cl_conn c of
        Some k \<Rightarrow>
          if \<not> cl_connected c then (None, c\<lparr>cl_queue := cl_queue c @ [msg]\<rparr>)
          else (case W k (wr_sent (cl_wires c ! k)) msg of
                  Some err \<Rightarrow> (Some err, c)
                | None \<Rightarrow> (None, c\<lparr>cl_wires := (cl_wires c)[k := (cl_wires c ! k)\<lparr>wr_sent := wr_sent (cl_wires c ! k) @ [msg]\<rparr>]\<rparr>))
      | None \<Rightarrow> (None, c\<lparr>cl_queue := cl_queue c @ [msg]\<rparr>))"

text \<open>The errors of \<open>send\<close> are dropped.\<close>

fun send_each :: "sdk_write \<Rightarrow> json list \<Rightarrow> sdk_client \<Rightarrow> sdk_client" where
  "send_each W [] c = c"
| "send_each W (msg # msgs) c = send_each W msgs (snd (Client_send W msg c))"

definition processQueue :: "sdk_write \<Rightarrow> sdk_client \<Rightarrow> sdk_client" where
  "processQueue W c = send_each W (cl_queue c) (c\<lparr>cl_queue := []\<rparr>)"

section \<open>Connecting\<close>

text \<open>\<open>dial\<close> is the error of the dialer; without one there is a new connection.\<close>

definition Client_Connect :: "sdk_write \<Rightarrow> go_error option \<Rightarrow> sdk_client \<Rightarrow> go_error option \<times> sdk_client" where
  "Client_Connect W dial c =
     (case dial of
        Some err \<Rightarrow> (Some (''failed to connect: '' @ err), c)
      | None \<Rightarrow>
         (let (k, wires) = alloc \<lparr>wr_sent = [], wr_closed = False\<rparr> (cl_wires c);
              c = c\<lparr>cl_wires := wires, cl_conn := Some k, cl_connected := True, cl_attempts := 0\<rparr>;
              c = emit ''connected'' (JObj [(''url'', JStr (cl_url c))]) c;
              c = processQueue W c
          in (None, c\<lparr>cl_readers := cl_readers c @ [AtTop]\<rparr>)))"

definition Client_Disconnect :: "sdk_client \<Rightarrow> sdk_client option" where
  "Client_Disconnect c = do {
     let c = c\<lparr>cl_options := (cl_options c)\<lparr>AutoReconnect := False\<rparr>\<rparr>;
     let c = (case cl_conn c of
                Some k \<Rightarrow> c\<lparr>cl_wires := (cl_wires c)[k := (cl_wires c ! k)\<lparr>wr_closed := True\<rparr>], cl_conn := None\<rparr>
              | None \<Rightarrow> c);
     let c = c\<lparr>cl_connected := False, cl_subscriptions := []\<rparr>;
     ch \<leftarrow> chan_close (cl_closeChan c);
     Some (c\<lparr>cl_closeChan := ch\<rparr>)
   }"

section \<open>Requests\<close>

definition generateRequestID :: "string \<Rightarrow> time \<Rightarrow> string" where
  "generateRequestID prefix now = prefix @ ''-'' @ itoa now"

definition subscribe_json :: "string \<Rightarrow> string \<Rightarrow> int list \<Rightarrow> json" where
  "subscribe_json n requestID lastN = JObj ((case lastN of [] \<Rightarrow> [] | k # _ \<Rightarrow> [(''last_n'', JNum k)]) @
     [(''request_id'', JStr requestID), (''topic'', JStr n), (''type'', JStr ''subscribe'')])"

definition Client_Subscribe :: "sdk_write \<Rightarrow> time \<Rightarrow> string \<Rightarrow> int list \<Rightarrow> sdk_client \<Rightarrow> go_error option \<times> sdk_client" where
  "Client_Subscribe W now n lastN c =
     (case Client_send W (subscribe_json n (generateRequestID ''sub'' now) lastN) c of
        (Some err, c) \<Rightarrow> (Some err, c)
      | (None, c) \<Rightarrow> (None, emit ''subscribed'' (JObj [(''topic'', JStr n)])
                             (c\<lparr>cl_subscriptions := gm_put n True (cl_subscriptions c)\<rparr>)))"

definition unsubscribe_json :: "string \<Rightarrow> string \<Rightarrow> json" where
  "unsubscribe_json n requestID =
     JObj [(''request_id'', JStr requestID), (''topic'', JStr n), (''type'', JStr ''unsubscribe'')]"

definition Client_Unsubscribe :: "sdk_write \<Rightarrow> time \<Rightarrow> string \<Rightarrow> sdk_client \<Rightarrow> go_error option \<times> sdk_client" where
  "Client_Unsubscribe W now n c =
     (case Client_send W (unsubscribe_json n (generateRequestID ''unsub'' now)) c of
        (Some err, c) \<Rightarrow> (Some err, c)
      | (None, c) \<Rightarrow> (None, emit ''unsubscribed'' (JObj [(''topic'', JStr n)])
                             (c\<lparr>cl_subscriptions := gm_del n (cl_subscriptions c)\<rparr>)))"

definition publish_json :: "string \<Rightarrow> string \<Rightarrow> (string \<times> json) list \<Rightarrow> json" where
  "publish_json n requestID payload =
     JObj [(''message'', JObj [(''payload'', norm_any (JObj payload))]), (''request_id'', JStr requestID),
           (''topic'', JStr n), (''type'', JStr ''publish'')]"

definition Client_Publish :: "sdk_write \<Rightarrow> time \<Rightarrow> string \<Rightarrow> (string \<times> json) list \<Rightarrow> sdk_client \<Rightarrow> go_error option \<times> sdk_client" where
  "Client_Publish W now n payload c =
     (case Client_send W (publish_json n (generateRequestID ''pub'' now) payload) c of
        (Some err, c) \<Rightarrow> (Some err, c)
      | (None, c) \<Rightarrow> (None, emit ''published'' (JObj [(''payload'', norm_any (JObj payload)), (''topic'', JStr n)]) c))"

definition ping_json :: "string \<Rightarrow> json" where
  "ping_json requestID = JObj [(''request_id'', JStr requestID), (''type'', JStr ''ping'')]"

text \<open>\<open>Ping\<close> measures how long the send takes, \<open>elapsed\<close>.\<close>

definition Client_Ping :: "sdk_write \<Rightarrow> time \<Rightarrow> time \<Rightarrow> sdk_client \<Rightarrow> (go_error + time) \<times> sdk_client" where
  "Client_Ping W now elapsed c =
     (case Client_send W (ping_json (generateRequestID ''ping'' now)) c of
        (Some err, c) \<Rightarrow> (Inl err, c)
      | (None, c) \<Rightarrow> (Inr elapsed, c))"

definition Client_GetStatus :: "sdk_client \<Rightarrow> json" where
  "Client_GetStatus c = JObj [(''connected'', JBool (cl_connected c)), (''queuedMessages'', JNum (int (length (cl_queue c)))),
     (''reconnectAttempts'', JNum (cl_attempts c)), (''subscriptions'', JArr (map JStr (gm_keys (cl_subscriptions c)))),
     (''url'', JStr (cl_url c))]"

section \<open>Reading\<close>

definition nil_or :: "json option \<Rightarrow> json" where
  "nil_or v = (case v of None \<Rightarrow> JNull | Some j \<Rightarrow> j)"

definition handleMessage :: "(string \<times> json) list \<Rightarrow> sdk_client \<Rightarrow> sdk_client" where
  "handleMessage msg c =
     (case json_get msg ''type'' of
        Some (JStr msgType) \<Rightarrow>
          if msgType = ''message'' then emit ''message'' (JObj msg) c
          else if msgType = ''ack'' \<or> msgType = ''pong'' then emit ''ack'' (JObj msg) c
          else if msgType = ''error'' then
            emit ''error'' (JObj [(''error'', nil_or (json_get msg ''error'')),
              (''request_id'', nil_or (json_get msg ''request_id'')), (''type'', JStr ''server'')]) c
          else if msgType = ''info'' then emit ''info'' (JObj msg) c
          else c
      | _ \<Rightarrow> c)"

text \<open>The deferred function of \<open>readLoop\<close>; \<open>dial\<close> is for the connection it may try.\<close>

definition readLoop_exit :: "sdk_write \<Rightarrow> go_error option \<Rightarrow> sdk_client \<Rightarrow> sdk_client" where
  "readLoop_exit W dial c =
     (let c = c\<lparr>cl_connected := False\<rparr>;
          will = AutoReconnect (cl_options c) \<and> cl_attempts c < MaxReconnectAttempts (cl_options c);
          c = emit ''disconnected'' (JObj [(''reconnectAttempts'', JNum (cl_attempts c)), (''willReconnect'', JBool will)]) c
      in if will then snd (Client_Connect W dial (c\<lparr>cl_attempts := cl_attempts c + 1\<rparr>)) else c)"

text \<open>
  One turn of \<open>readLoop\<close> number \<open>i\<close>: it evaluates \<open>c.conn\<close>, a nil one being a nil pointer
  dereference, and blocks; then the read returns a document or an error.
\<close>

definition readLoop_enter :: "nat \<Rightarrow> sdk_client \<Rightarrow> sdk_client option" where
  "readLoop_enter i c =
     (case cl_conn c of None \<Rightarrow> None | Some k \<Rightarrow> Some (c\<lparr>cl_readers := (cl_readers c)[i := Reading k]\<rparr>))"

fun as_map :: "go_error + json \<Rightarrow> go_error + (string \<times> json) list" where
  "as_map (Inr (JObj kvs)) = Inr (canon_obj (map (\<lambda>(k, v). (k, norm_any v)) kvs))"
| "as_map (Inr JNull) = Inr []"
| "as_map (Inr _) = Inl ''json: cannot unmarshal into Go value of type map[string]interface {}''"
| "as_map (Inl e) = Inl e"

definition readLoop_return :: "sdk_write \<Rightarrow> (go_error \<Rightarrow> bool) \<Rightarrow> go_error option \<Rightarrow> nat \<Rightarrow> go_error + json \<Rightarrow> sdk_client \<Rightarrow> sdk_client" where
  "readLoop_return W unexpected dial i res c =
     (case as_map res of
        Inr msg \<Rightarrow> (handleMessage msg c)\<lparr>cl_readers := (cl_readers c)[i := AtTop]\<rparr>
      | Inl err \<Rightarrow>
         (let c = (if unexpected err then emit ''error'' (JObj [(''error'', JStr err), (''type'', JStr ''connection'')]) c else c);
              c = c\<lparr>cl_readers := (cl_readers c)[i := Returned]\<rparr>
          in readLoop_exit W dial c))"

section \<open>The requests are the server's\<close>

definition request :: "string \<Rightarrow> string \<Rightarrow> string \<Rightarrow> client_message" where
  "request t n req = zero_client_message\<lparr>c_type := t, c_topic := n, c_request_id := req\<rparr>"

lemma client_keys [simp]:
  "key_is ''last_n'' ''last_n''" "\<not> key_is ''last_n'' ''type''" "\<not> key_is ''last_n'' ''topic''" "\<not> key_is ''last_n'' ''client_id''"
  "key_is ''request_id'' ''request_id''" "\<not> key_is ''request_id'' ''type''" "\<not> key_is ''request_id'' ''topic''"
  "\<not> key_is ''request_id'' ''client_id''" "\<not> key_is ''request_id'' ''last_n''"
  "key_is ''topic'' ''topic''" "\<not> key_is ''topic'' ''type''" "key_is ''type'' ''type''"
  "key_is ''message'' ''message''" "\<not> key_is ''message'' ''type''" "\<not> key_is ''message'' ''topic''"
  "\<not> key_is ''message'' ''client_id''" "\<not> key_is ''message'' ''last_n''" "\<not> key_is ''message'' ''request_id''"
  by (simp_all add: key_is_def lower_def)

lemma publish_decodes:
  "unmarshal_client_message (publish_json n req payload) =
     Some ((request ''publish'' n req)\<lparr>c_message := Some (zero_message\<lparr>m_payload := norm_any (JObj payload)\<rparr>)\<rparr>)"
proof -
  have "norm_any (norm_any (JObj payload)) = norm_any (JObj payload)" by (rule norm_any_idem)
  then have "decode_struct message_field (JObj [(''payload'', norm_any (JObj payload))]) zero_message =
      Some (zero_message\<lparr>m_payload := norm_any (JObj payload)\<rparr>)"
    by (simp add: message_field_def decode_any_def del: norm_any.simps)
  then show ?thesis
    by (simp add: unmarshal_client_message_def publish_json_def client_field_def request_def zero_client_message_def
        decode_message_ptr_def del: norm_any.simps)
qed

text \<open>
  C23: the server understands the client. What the SDK sends for a subscription (with or
  without a replay), an unsubscription, a publication and a ping decodes, by the server's
  own decoding, to the request that was meant, with its topic, request id and payload; a
  publication has no message id, so the server draws one.
\<close>

theorem sdk_requests_understood:
  "unmarshal_client_message (subscribe_json n req []) = Some (request ''subscribe'' n req) \<and>
   (- (2 ^ 63) \<le> k \<and> k < 2 ^ 63 \<longrightarrow>
     unmarshal_client_message (subscribe_json n req [k]) = Some ((request ''subscribe'' n req)\<lparr>c_last_n := k\<rparr>)) \<and>
   unmarshal_client_message (unsubscribe_json n req) = Some (request ''unsubscribe'' n req) \<and>
   unmarshal_client_message (publish_json n req payload) =
     Some ((request ''publish'' n req)\<lparr>c_message := Some (zero_message\<lparr>m_payload := norm_any (JObj payload)\<rparr>)\<rparr>) \<and>
   unmarshal_client_message (ping_json req) = Some (request ''ping'' [] req)"
  by (simp add: publish_decodes del: norm_any.simps)
    (simp add: unmarshal_client_message_def subscribe_json_def unsubscribe_json_def ping_json_def
      client_field_def request_def zero_client_message_def)

theorem sdk_requests_understood_witness:
  "unmarshal_client_message (subscribe_json ''news'' ''sub-1'' [10]) = Some ((request ''subscribe'' ''news'' ''sub-1'')\<lparr>c_last_n := 10\<rparr>)"
  using sdk_requests_understood [of "''news''" "''sub-1''" 10 "[]"] by simp

section \<open>Messages wait, and are sent once\<close>

text \<open>Everything sent so far, connection by connection, and then what waits.\<close>

definition all_sent :: "sdk_client \<Rightarrow> json list" where
  "all_sent c = concat (map wr_sent (cl_wires c)) @ cl_queue c"

text \<open>The connection in use is the newest; a connected client has one and nothing waits.\<close>

definition sdk_ok :: "sdk_client \<Rightarrow> bool" where
  "sdk_ok c \<longleftrightarrow> (\<forall>k. cl_conn c = Some k \<longrightarrow> Suc k = length (cl_wires c)) \<and>
     (cl_connected c \<longrightarrow> cl_conn c \<noteq> None \<and> cl_queue c = []) \<and>
     (\<forall>r \<in> set (cl_readers c). \<forall>k. r = Reading k \<longrightarrow> k < length (cl_wires c))"

lemma emit_frame [simp]:
  "cl_conn (emit e d c) = cl_conn c" "cl_connected (emit e d c) = cl_connected c" "cl_queue (emit e d c) = cl_queue c"
  "cl_wires (emit e d c) = cl_wires c" "cl_readers (emit e d c) = cl_readers c" "cl_options (emit e d c) = cl_options c"
  "cl_attempts (emit e d c) = cl_attempts c" "cl_subscriptions (emit e d c) = cl_subscriptions c"
  "cl_closeChan (emit e d c) = cl_closeChan c" "cl_url (emit e d c) = cl_url c"
  by (simp_all add: emit_def Let_def)

lemma handleMessage_frame [simp]:
  "cl_conn (handleMessage m c) = cl_conn c" "cl_connected (handleMessage m c) = cl_connected c"
  "cl_queue (handleMessage m c) = cl_queue c" "cl_wires (handleMessage m c) = cl_wires c"
  "cl_readers (handleMessage m c) = cl_readers c"
  by (simp_all add: handleMessage_def split: option.split json.split)

text \<open>A send without a failing write adds the message at the end.\<close>

lemma send_ok:
  assumes "\<And>k s m. W k s m = None" "sdk_ok c"
  shows "fst (Client_send W msg c) = None \<and> sdk_ok (snd (Client_send W msg c)) \<and>
    all_sent (snd (Client_send W msg c)) = all_sent c @ [msg] \<and>
    cl_subscriptions (snd (Client_send W msg c)) = cl_subscriptions c"
proof (cases "cl_conn c")
  case None
  then show ?thesis using assms by (auto simp: Client_send_def sdk_ok_def all_sent_def)
next
  case (Some k)
  show ?thesis
  proof (cases "cl_connected c")
    case False
    then show ?thesis using assms Some by (auto simp: Client_send_def sdk_ok_def all_sent_def)
  next
    case True
    have k: "Suc k = length (cl_wires c)" "cl_queue c = []" using assms(2) Some True by (auto simp: sdk_ok_def)
    then obtain ws w where ws: "cl_wires c = ws @ [w]" by (cases "cl_wires c" rule: rev_cases) auto
    then show ?thesis using assms Some True k by (auto simp: Client_send_def sdk_ok_def all_sent_def)
  qed
qed

lemma send_each_online:
  assumes "\<And>k s m. W k s m = None" "cl_conn c = Some k" "cl_connected c" "k < length (cl_wires c)"
  shows "send_each W ms c = c\<lparr>cl_wires := (cl_wires c)[k := (cl_wires c ! k)\<lparr>wr_sent := wr_sent (cl_wires c ! k) @ ms\<rparr>]\<rparr>"
  using assms(2-4)
proof (induction ms arbitrary: c)
  case Nil
  have "(cl_wires c)[k := (cl_wires c ! k)\<lparr>wr_sent := wr_sent (cl_wires c ! k)\<rparr>] = cl_wires c" by simp
  then show ?case by simp
next
  case (Cons m ms)
  then show ?case using assms(1) by (simp add: Client_send_def)
qed

text \<open>What connecting does when no write fails.\<close>

lemma connect_effect:
  assumes "\<And>k s m. W k s m = None"
  shows "Client_Connect W None c = (None, (emit ''connected'' (JObj [(''url'', JStr (cl_url c))]) c)\<lparr>
      cl_wires := cl_wires c @ [\<lparr>wr_sent = cl_queue c, wr_closed = False\<rparr>], cl_conn := Some (length (cl_wires c)),
      cl_connected := True, cl_attempts := 0, cl_queue := [], cl_readers := cl_readers c @ [AtTop]\<rparr>)"
  by (simp add: Client_Connect_def alloc_def Let_def processQueue_def send_each_online [where W = W, OF assms] emit_def)

lemma connect_keeps:
  assumes "\<And>k s m. W k s m = None" "sdk_ok c"
  shows "sdk_ok (snd (Client_Connect W d c)) \<and> all_sent (snd (Client_Connect W d c)) = all_sent c"
proof (cases d)
  case None
  show ?thesis unfolding None connect_effect [where W = W, OF assms(1)] using assms(2)
    by (auto simp: sdk_ok_def all_sent_def)
next
  case (Some e)
  then show ?thesis using assms(2) by (simp add: Client_Connect_def)
qed

section \<open>Runs of the client\<close>

datatype sdk_event = SdkConnect "go_error option" | SdkDisconnect | SdkSubscribe time string "int list"
  | SdkUnsubscribe time string | SdkPublish time string "(string \<times> json) list" | SdkPing time time
  | SdkEnter nat | SdkReturn "go_error option" nat "go_error + json"

fun sdk_step :: "sdk_write \<Rightarrow> (go_error \<Rightarrow> bool) \<Rightarrow> sdk_event \<Rightarrow> sdk_client \<Rightarrow> sdk_client option" where
  "sdk_step W u (SdkConnect d) c = Some (snd (Client_Connect W d c))"
| "sdk_step W u SdkDisconnect c = Client_Disconnect c"
| "sdk_step W u (SdkSubscribe t n ks) c = Some (snd (Client_Subscribe W t n ks c))"
| "sdk_step W u (SdkUnsubscribe t n) c = Some (snd (Client_Unsubscribe W t n c))"
| "sdk_step W u (SdkPublish t n p) c = Some (snd (Client_Publish W t n p c))"
| "sdk_step W u (SdkPing t d) c = Some (snd (Client_Ping W t d c))"
| "sdk_step W u (SdkEnter i) c = (if i < length (cl_readers c) \<and> cl_readers c ! i = AtTop then readLoop_enter i c else Some c)"
| "sdk_step W u (SdkReturn d i res) c =
     Some (if i < length (cl_readers c) \<and> (\<exists>k \<in> {..<length (cl_wires c)}. cl_readers c ! i = Reading k)
           then readLoop_return W u d i res c else c)"

text \<open>The messages that an event gives to \<open>send\<close>.\<close>

fun issued :: "sdk_event \<Rightarrow> json list" where
  "issued (SdkSubscribe t n ks) = [subscribe_json n (generateRequestID ''sub'' t) ks]"
| "issued (SdkUnsubscribe t n) = [unsubscribe_json n (generateRequestID ''unsub'' t)]"
| "issued (SdkPublish t n p) = [publish_json n (generateRequestID ''pub'' t) p]"
| "issued (SdkPing t d) = [ping_json (generateRequestID ''ping'' t)]"
| "issued _ = []"

fun sdk_run :: "sdk_write \<Rightarrow> (go_error \<Rightarrow> bool) \<Rightarrow> sdk_event list \<Rightarrow> sdk_client \<Rightarrow> sdk_client option" where
  "sdk_run W u [] c = Some c"
| "sdk_run W u (e # es) c = do { c \<leftarrow> sdk_step W u e c; sdk_run W u es c }"

definition step_fine :: "json list \<Rightarrow> sdk_client \<Rightarrow> sdk_client \<Rightarrow> bool" where
  "step_fine ms c c' \<longleftrightarrow> sdk_ok c' \<and> all_sent c' = all_sent c @ ms"

lemma fine_same:
  "sdk_ok c \<Longrightarrow> cl_conn c' = cl_conn c \<Longrightarrow> cl_connected c' = cl_connected c \<Longrightarrow> cl_queue c' = cl_queue c \<Longrightarrow>
   cl_wires c' = cl_wires c \<Longrightarrow> cl_readers c' = cl_readers c \<Longrightarrow> step_fine [] c c'"
  by (simp add: step_fine_def sdk_ok_def all_sent_def)

lemma fine_trans: "step_fine ms c c1 \<Longrightarrow> step_fine ms' c1 c2 \<Longrightarrow> step_fine (ms @ ms') c c2"
  by (simp add: step_fine_def)

lemma fine_reader:
  "sdk_ok c \<Longrightarrow> (\<And>k. r = Reading k \<Longrightarrow> k < length (cl_wires c)) \<Longrightarrow> step_fine [] c (c\<lparr>cl_readers := (cl_readers c)[i := r]\<rparr>)"
  by (auto simp: step_fine_def sdk_ok_def all_sent_def dest!: set_update_subset_insert [THEN subsetD])

lemma fine_send:
  assumes "\<And>k s m. W k s m = None" "sdk_ok c"
  shows "step_fine [msg] c (snd (Client_send W msg c))" "fst (Client_send W msg c) = None"
  using send_ok [where W = W, OF assms] by (simp_all add: step_fine_def)

lemma fine_exit:
  assumes "\<And>k s m. W k s m = None" "sdk_ok c"
  shows "step_fine [] c (readLoop_exit W d c)"
proof -
  have f: "step_fine [] c (emit e x (c\<lparr>cl_connected := False\<rparr>))" for e :: string and x
    using assms(2) by (auto simp: step_fine_def sdk_ok_def all_sent_def)
  have a: "step_fine [] c ((emit e x (c\<lparr>cl_connected := False\<rparr>))\<lparr>cl_attempts := k\<rparr>)" for e :: string and x k
    using f [of e x] by (simp add: step_fine_def sdk_ok_def all_sent_def)
  have "step_fine [] c (snd (Client_Connect W d ((emit e x (c\<lparr>cl_connected := False\<rparr>))\<lparr>cl_attempts := k\<rparr>)))" for e :: string and x k
    using connect_keeps [where W = W, OF assms(1), of "(emit e x (c\<lparr>cl_connected := False\<rparr>))\<lparr>cl_attempts := k\<rparr>" d] a [of k e x]
    by (simp add: step_fine_def)
  with f show ?thesis by (simp add: readLoop_exit_def Let_def)
qed

lemma fine_return:
  assumes "\<And>k s m. W k s m = None" "sdk_ok c"
  shows "step_fine [] c (readLoop_return W u d i res c)"
proof (cases "as_map res")
  case (Inr msg)
  have "step_fine [] (handleMessage msg c) ((handleMessage msg c)\<lparr>cl_readers := (cl_readers (handleMessage msg c))[i := AtTop]\<rparr>)"
    using assms(2) by (intro fine_reader) (simp_all add: sdk_ok_def)
  moreover have "step_fine [] c (handleMessage msg c)" using assms(2) by (intro fine_same) simp_all
  ultimately show ?thesis using fine_trans [of "[]" c _ "[]"] Inr by (simp add: readLoop_return_def)
next
  case (Inl e)
  let ?c1 = "if u e then emit ''error'' (JObj [(''error'', JStr e), (''type'', JStr ''connection'')]) c else c"
  let ?c2 = "?c1\<lparr>cl_readers := (cl_readers ?c1)[i := Returned]\<rparr>"
  have 1: "step_fine [] c ?c1" using assms(2) by (intro fine_same) simp_all
  then have 2: "step_fine [] ?c1 ?c2" by (intro fine_reader) (simp_all only: step_fine_def reader.distinct)
  then have "step_fine [] ?c2 (readLoop_exit W d ?c2)" by (intro fine_exit [where W = W, OF assms(1)]) (simp add: step_fine_def)
  with 1 2 have "step_fine [] c (readLoop_exit W d ?c2)" by (simp add: step_fine_def)
  then show ?thesis using Inl by (simp add: readLoop_return_def Let_def)
qed

lemma fine_disconnect:
  assumes "sdk_ok c" "Client_Disconnect c = Some c'"
  shows "step_fine [] c c'"
proof (cases "cl_conn c")
  case None
  then show ?thesis using assms by (auto simp: Client_Disconnect_def step_fine_def sdk_ok_def all_sent_def bind_eq_Some_conv)
next
  case (Some k)
  then obtain ws w where ws: "cl_wires c = ws @ [w]" "k = length ws"
    using assms(1) by (cases "cl_wires c" rule: rev_cases) (auto simp: sdk_ok_def)
  then show ?thesis using assms Some
    by (auto simp: Client_Disconnect_def step_fine_def sdk_ok_def all_sent_def bind_eq_Some_conv)
qed

lemma step_issues:
  assumes "\<And>k s m. W k s m = None" "sdk_ok c" "sdk_step W u ev c = Some c'"
  shows "step_fine (issued ev) c c'"
proof -
  note send = fine_send [where W = W, OF assms(1,2)]
  have then_same: "step_fine [m] c x"
    if "cl_conn x = cl_conn c1" "cl_connected x = cl_connected c1" "cl_queue x = cl_queue c1" "cl_wires x = cl_wires c1"
      "cl_readers x = cl_readers c1" "step_fine [m] c c1" for m x c1
    using that by (simp add: step_fine_def sdk_ok_def all_sent_def)
  show ?thesis
  proof (cases ev)
    case (SdkConnect d)
    then show ?thesis using connect_keeps [where W = W, OF assms(1,2), of d] assms(3) by (simp add: step_fine_def)
  next
    case SdkDisconnect
    then show ?thesis using fine_disconnect [OF assms(2)] assms(3) by simp
  next
    case (SdkSubscribe t n ks)
    let ?m = "subscribe_json n (generateRequestID ''sub'' t) ks"
    obtain c1 where c1: "Client_send W ?m c = (None, c1)" using send(2) [of ?m] by (cases "Client_send W ?m c") simp
    then have "step_fine [?m] c c1" using send(1) [of ?m] by simp
    then show ?thesis using assms(3) SdkSubscribe c1 by (auto simp: Client_Subscribe_def intro: then_same [of _ c1])
  next
    case (SdkUnsubscribe t n)
    let ?m = "unsubscribe_json n (generateRequestID ''unsub'' t)"
    obtain c1 where c1: "Client_send W ?m c = (None, c1)" using send(2) [of ?m] by (cases "Client_send W ?m c") simp
    then have "step_fine [?m] c c1" using send(1) [of ?m] by simp
    then show ?thesis using assms(3) SdkUnsubscribe c1 by (auto simp: Client_Unsubscribe_def intro: then_same [of _ c1])
  next
    case (SdkPublish t n p)
    let ?m = "publish_json n (generateRequestID ''pub'' t) p"
    obtain c1 where c1: "Client_send W ?m c = (None, c1)" using send(2) [of ?m] by (cases "Client_send W ?m c") simp
    then have "step_fine [?m] c c1" using send(1) [of ?m] by simp
    then show ?thesis using assms(3) SdkPublish c1 by (auto simp: Client_Publish_def intro: then_same [of _ c1])
  next
    case (SdkPing t d)
    let ?m = "ping_json (generateRequestID ''ping'' t)"
    obtain c1 where c1: "Client_send W ?m c = (None, c1)" using send(2) [of ?m] by (cases "Client_send W ?m c") simp
    then have "step_fine [?m] c c1" using send(1) [of ?m] by simp
    then show ?thesis using assms(3) SdkPing c1 by (auto simp: Client_Ping_def intro: then_same [of _ c1])
  next
    case (SdkEnter i)
    show ?thesis
    proof (cases "i < length (cl_readers c) \<and> cl_readers c ! i = AtTop")
      case True
      then obtain k where k: "cl_conn c = Some k" "c' = c\<lparr>cl_readers := (cl_readers c)[i := Reading k]\<rparr>"
        using assms(3) SdkEnter by (auto simp: readLoop_enter_def split: option.splits)
      then have "k < length (cl_wires c)" using assms(2) by (auto simp: sdk_ok_def)
      then show ?thesis unfolding k(2) SdkEnter issued.simps using assms(2) by (intro fine_reader) simp_all
    next
      case False
      then show ?thesis using assms(2,3) SdkEnter by (auto simp: step_fine_def)
    qed
  next
    case (SdkReturn d i res)
    then show ?thesis using fine_return [where W = W, OF assms(1,2), of u d i res] assms(2,3)
      by (auto simp: step_fine_def split: if_splits)
  qed
qed

text \<open>
  Used by one goroutine at a time, and while no write fails, the client loses, repeats and
  reorders nothing. Over every run of whole calls, disconnects, reconnects and reads that
  does not panic, the messages on the connections, one connection after the other, followed
  by those that wait in the queue, grow by exactly the messages given to \<open>send\<close>, in the order
  of the calls; and a client that is connected has nothing waiting. \<open>Client_Conc\<close> shows what
  remains of this when calls overlap.
\<close>

theorem sequential_fifo:
  assumes "\<And>k s m. W k s m = None" "sdk_ok c" "sdk_run W u es c = Some c'"
  shows "all_sent c' = all_sent c @ concat (map issued es) \<and> (cl_connected c' \<longrightarrow> cl_queue c' = [] \<and> cl_conn c' \<noteq> None)"
proof -
  have "step_fine (concat (map issued es)) c c'"
    using assms(2,3)
  proof (induction es arbitrary: c)
    case Nil
    then show ?case by (simp add: step_fine_def)
  next
    case (Cons e es)
    obtain c1 where c1: "sdk_step W u e c = Some c1" "sdk_run W u es c1 = Some c'"
      using Cons.prems(2) by (auto simp: bind_eq_Some_conv)
    have 1: "step_fine (issued e) c c1" by (rule step_issues [where W = W, OF assms(1) Cons.prems(1) c1(1)])
    then have "sdk_ok c1" by (simp add: step_fine_def)
    from fine_trans [OF 1 Cons.IH [OF this c1(2)]] show ?case by simp
  qed
  then show ?thesis by (simp add: step_fine_def sdk_ok_def)
qed

lemma new_client_ok: "sdk_ok (NewClient url opts)"
  by (simp add: sdk_ok_def NewClient_def)

section \<open>Where the client falls short\<close>

definition quiet :: "sdk_client \<Rightarrow> bool" where
  "quiet c \<longleftrightarrow> (\<forall>r \<in> set (cl_readers c). r = Returned)"

text \<open>
  C38: the client tries to reconnect at most once. When a read fails and the one attempt to
  dial again fails too, no goroutine of the client is left: it stays disconnected, with one
  attempt counted, whatever \<open>MaxReconnectAttempts\<close> allows.
\<close>

theorem reconnect_gives_up:
  assumes "as_map res = Inl err" "i < length (cl_readers c)" "quiet (c\<lparr>cl_readers := (cl_readers c)[i := Returned]\<rparr>)"
  shows "quiet (readLoop_return W u (Some e) i res c) \<and> \<not> cl_connected (readLoop_return W u (Some e) i res c) \<and>
    cl_wires (readLoop_return W u (Some e) i res c) = cl_wires c \<and>
    cl_queue (readLoop_return W u (Some e) i res c) = cl_queue c \<and>
    cl_attempts (readLoop_return W u (Some e) i res c) \<le> cl_attempts c + 1"
  using assms by (simp add: readLoop_return_def Let_def readLoop_exit_def Client_Connect_def quiet_def)

text \<open>
  C39: a reconnect forgets the subscriptions on the server. After a lost connection and a
  successful dial, the client is connected, still lists its topics, and has sent nothing
  on the new connection, while the server has removed the old client from every topic: no
  message of these topics will come.
\<close>

theorem reconnect_forgets:
  assumes "\<And>k s m. W k s m = None" "sdk_ok c" "cl_connected c" "as_map res = Inl err"
    "AutoReconnect (cl_options c)" "cl_attempts c < MaxReconnectAttempts (cl_options c)"
  shows "let c' = readLoop_return W u None i res c in
    cl_connected c' \<and> cl_subscriptions c' = cl_subscriptions c \<and> cl_conn c' = Some (length (cl_wires c)) \<and>
    cl_wires c' = cl_wires c @ [\<lparr>wr_sent = [], wr_closed = False\<rparr>]"
  using assms(2-6)
  by (simp add: readLoop_return_def Let_def readLoop_exit_def connect_effect [where W = W, OF assms(1)] sdk_ok_def)

text \<open>
  C40: disconnecting twice panics, since the second call closes a closed channel; and so
  does a \<open>readLoop\<close> that comes back from a message after \<open>Disconnect\<close>, since it reads from
  a nil connection.
\<close>

theorem disconnect_twice:
  assumes "Client_Disconnect c = Some c'"
  shows "Client_Disconnect c' = None \<and> readLoop_enter i c' = None \<and>
    \<not> cl_connected c' \<and> cl_subscriptions c' = [] \<and> \<not> AutoReconnect (cl_options c')"
  using assms by (cases "cl_conn c")
    (auto simp: Client_Disconnect_def Let_def readLoop_enter_def bind_eq_Some_conv chan_close_def split: if_splits)

definition online_client :: sdk_client where
  "online_client = snd (Client_Subscribe (\<lambda>k s m. None) 1 ''news'' [] (snd (Client_Connect (\<lambda>k s m. None) None (NewClient ''ws'' []))))"

lemma online_ok: "sdk_ok online_client" "cl_connected online_client" "length (cl_readers online_client) = 1"
  "AutoReconnect (cl_options online_client)" "cl_attempts online_client < MaxReconnectAttempts (cl_options online_client)"
  "gm_keys (cl_subscriptions online_client) = [''news'']" "length (cl_wires online_client) = 1"
  by (simp_all add: online_client_def connect_effect Client_Subscribe_def Client_send_def NewClient_def sdk_ok_def
      DefaultOptions_def emit_def gm_get_def gm_put_def gm_keys_def)

theorem reconnect_gives_up_witness:
  "\<not> cl_connected (readLoop_return (\<lambda>k s m. None) (\<lambda>e. True) (Some ''refused'') 0 (Inl ''EOF'') online_client)"
proof -
  obtain r where "cl_readers online_client = [r]" using online_ok(3) by (auto simp: length_Suc_conv)
  then have "quiet (online_client\<lparr>cl_readers := (cl_readers online_client)[0 := Returned]\<rparr>)" by (simp add: quiet_def)
  moreover have "0 < length (cl_readers online_client)" using online_ok(3) by simp
  moreover have "as_map (Inl ''EOF'') = Inl ''EOF''" by simp
  ultimately show ?thesis using reconnect_gives_up by blast
qed

theorem reconnect_forgets_witness:
  "gm_keys (cl_subscriptions (readLoop_return (\<lambda>k s m. None) (\<lambda>e. True) None 0 (Inl ''EOF'') online_client)) = [''news''] \<and>
   wr_sent (cl_wires (readLoop_return (\<lambda>k s m. None) (\<lambda>e. True) None 0 (Inl ''EOF'') online_client) ! 1) = []"
  using reconnect_forgets [of "\<lambda>k s m. None" online_client "Inl ''EOF''" "''EOF''" "\<lambda>e. True" 0] online_ok
  by (simp add: Let_def nth_append)

theorem disconnect_twice_witness:
  "\<exists>c'. Client_Disconnect (NewClient ''ws'' []) = Some c' \<and> Client_Disconnect c' = None"
proof -
  have "Client_Disconnect (NewClient ''ws'' []) \<noteq> None" by (simp add: Client_Disconnect_def NewClient_def chan_close_def make_chan_def)
  then show ?thesis using disconnect_twice by blast
qed

end
