(* ===== verification/Client_Conc.thy ===== *)
theory Client_Conc
  imports Client_SDK "HOL-Library.Multiset"
begin

text \<open>
  The Go client used by several goroutines at once. \<open>Client_SDK\<close> takes each method of
  \<^verbatim>\<open>sdk/go/client/client.go\<close> as a whole; here a method is cut where it gives \<open>c.mu\<close> back:
  \<open>Connect\<close> sets \<open>connected\<close> in one critical section, takes the queue in another, and sends
  each message it took in one of its own; a subscription is recorded after its request has
  been sent. A critical section is one action, and so is what lies between two of them. A
  goroutine that is \<open>Outside\<close> runs code of the application, or has ended. The dialer, the
  reads and the writes answer as they like.
\<close>

section \<open>Goroutines\<close>

datatype sdk_call = CallConnect | CallDisconnect | CallOn string nat | CallOff string
  | CallSubscribe time string "int list" | CallUnsubscribe time string
  | CallPublish time string "(string \<times> json) list" | CallPing time

text \<open>How a method goes on when its \<open>send\<close> has succeeded.\<close>

datatype sdk_then = ThenList string | ThenUnlist string | ThenEmit string json | ThenReturn

datatype sdk_pc =
    Outside
  | AtOn string nat | AtOff string | AtDisconnect
  | AtSend json sdk_then        \<comment> \<open>at the lock of \<open>send\<close>\<close>
  | AtList string | AtUnlist string | AtEmit string json
  | Dialing
  | Dialed nat                  \<comment> \<open>connection made, at the lock of \<open>Connect\<close>\<close>
  | Announce                    \<comment> \<open>connected, lock given back\<close>
  | TakeQueue                   \<comment> \<open>at the lock of \<open>processQueue\<close>\<close>
  | Drain "json list"           \<comment> \<open>sending what was taken\<close>
  | LoopTop | InRead nat        \<comment> \<open>\<open>readLoop\<close>\<close>
  | ExitLock | ExitEmit | ExitCheck  \<comment> \<open>its deferred function\<close>

text \<open>
  The client, its goroutines, and four records of the history, which no action reads: what was
  written, on which connection; what \<open>send\<close> was called with, in order; what a failed write
  lost; and whether a \<open>send\<close> or another \<open>Connect\<close> has got in between a \<open>Connect\<close> and the end of its
  queue.
\<close>

record sdk_conc =
  cc_client :: sdk_client
  cc_pcs :: "sdk_pc list"
  gh_log :: "(nat \<times> json) list"
  gh_issued :: "json list"
  gh_failed :: "json list"
  gh_overlap :: bool

datatype sdk_outcome = SdkIdle | SdkPanic | SdkGoes sdk_conc

fun enter_pc :: "sdk_call \<Rightarrow> sdk_pc" where
  "enter_pc CallConnect = Dialing"
| "enter_pc CallDisconnect = AtDisconnect"
| "enter_pc (CallOn e h) = AtOn e h"
| "enter_pc (CallOff e) = AtOff e"
| "enter_pc (CallSubscribe t n ks) = AtSend (subscribe_json n (generateRequestID ''sub'' t) ks) (ThenList n)"
| "enter_pc (CallUnsubscribe t n) = AtSend (unsubscribe_json n (generateRequestID ''unsub'' t)) (ThenUnlist n)"
| "enter_pc (CallPublish t n p) = AtSend (publish_json n (generateRequestID ''pub'' t) p)
     (ThenEmit ''published'' (JObj [(''payload'', norm_any (JObj p)), (''topic'', JStr n)]))"
| "enter_pc (CallPing t) = AtSend (ping_json (generateRequestID ''ping'' t)) ThenReturn"

fun then_pc :: "sdk_then \<Rightarrow> sdk_pc" where
  "then_pc (ThenList n) = AtList n"
| "then_pc (ThenUnlist n) = AtUnlist n"
| "then_pc (ThenEmit e d) = AtEmit e d"
| "then_pc ThenReturn = Outside"

text \<open>Between the moment the client counts as connected and the end of \<open>processQueue\<close>.\<close>

fun in_window :: "sdk_pc \<Rightarrow> bool" where
  "in_window Announce = True" | "in_window TakeQueue = True" | "in_window (Drain (m # ms)) = True"
| "in_window _ = False"

definition others_in_window :: "nat \<Rightarrow> sdk_pc list \<Rightarrow> bool" where
  "others_in_window i ps \<longleftrightarrow> (\<exists>j < length ps. j \<noteq> i \<and> in_window (ps ! j))"

definition cgoto :: "nat \<Rightarrow> sdk_pc \<Rightarrow> sdk_client \<Rightarrow> sdk_conc \<Rightarrow> sdk_conc" where
  "cgoto i l cl c = c\<lparr>cc_client := cl, cc_pcs := (cc_pcs c)[i := l]\<rparr>"

text \<open>\<open>send\<close>, with its effect on the history.\<close>

definition logged_send :: "sdk_write \<Rightarrow> json \<Rightarrow> sdk_conc \<Rightarrow> go_error option \<times> sdk_conc" where
  "logged_send W m c = (let cl = cc_client c in
     case Client_send W m cl of
       (Some err, cl') \<Rightarrow> (Some err, c\<lparr>cc_client := cl', gh_failed := gh_failed c @ [m]\<rparr>)
     | (None, cl') \<Rightarrow> (None, c\<lparr>cc_client := cl', gh_log := gh_log c @
          (case cl_conn cl of Some k \<Rightarrow> if cl_connected cl then [(k, m)] else [] | None \<Rightarrow> [])\<rparr>))"

text \<open>The next action of goroutine \<open>i\<close>; \<open>dial\<close> and \<open>res\<close> are what a dial or a read returns if it is one.\<close>

definition sdk_action ::
  "sdk_write \<Rightarrow> (go_error \<Rightarrow> bool) \<Rightarrow> go_error option \<Rightarrow> go_error + json \<Rightarrow> nat \<Rightarrow> sdk_conc \<Rightarrow> sdk_outcome" where
  "sdk_action W unexpected dial res i c = (let cl = cc_client c in
     case cc_pcs c ! i of
       Outside \<Rightarrow> SdkIdle
     | AtOn e h \<Rightarrow> SdkGoes (cgoto i Outside (Client_On e h cl) c)
     | AtOff e \<Rightarrow> SdkGoes (cgoto i Outside (Client_Off e cl) c)
     | AtDisconnect \<Rightarrow> (case Client_Disconnect cl of
           None \<Rightarrow> SdkPanic
         | Some cl \<Rightarrow> SdkGoes (cgoto i Outside cl c))
     | AtSend m k \<Rightarrow>
         (case logged_send W m (c\<lparr>gh_issued := gh_issued c @ [m],
                 gh_overlap := gh_overlap c \<or> others_in_window i (cc_pcs c)\<rparr>) of
            (err, c) \<Rightarrow> SdkGoes (cgoto i (if err = None then then_pc k else Outside) (cc_client c) c))
     | AtList n \<Rightarrow> SdkGoes (cgoto i (AtEmit ''subscribed'' (JObj [(''topic'', JStr n)]))
           (cl\<lparr>cl_subscriptions := gm_put n True (cl_subscriptions cl)\<rparr>) c)
     | AtUnlist n \<Rightarrow> SdkGoes (cgoto i (AtEmit ''unsubscribed'' (JObj [(''topic'', JStr n)]))
           (cl\<lparr>cl_subscriptions := gm_del n (cl_subscriptions cl)\<rparr>) c)
     | AtEmit e d \<Rightarrow> SdkGoes (cgoto i Outside (emit e d cl) c)
     | Dialing \<Rightarrow> (case dial of
           Some err \<Rightarrow> SdkGoes (cgoto i Outside cl c)
         | None \<Rightarrow> (case alloc \<lparr>wr_sent = [], wr_closed = False\<rparr> (cl_wires cl) of
             (k, wires) \<Rightarrow> SdkGoes (cgoto i (Dialed k) (cl\<lparr>cl_wires := wires\<rparr>) c)))
     | Dialed k \<Rightarrow> SdkGoes (cgoto i Announce (cl\<lparr>cl_conn := Some k, cl_connected := True, cl_attempts := 0\<rparr>)
           (c\<lparr>gh_overlap := gh_overlap c \<or> others_in_window i (cc_pcs c)\<rparr>))
     | Announce \<Rightarrow> SdkGoes (cgoto i TakeQueue (emit ''connected'' (JObj [(''url'', JStr (cl_url cl))]) cl) c)
     | TakeQueue \<Rightarrow> SdkGoes (cgoto i (Drain (cl_queue cl)) (cl\<lparr>cl_queue := []\<rparr>) c)
     | Drain ms \<Rightarrow> (case ms of
           [] \<Rightarrow> SdkGoes (c\<lparr>cc_pcs := (cc_pcs c)[i := Outside] @ [LoopTop]\<rparr>)
         | m # ms \<Rightarrow> (case logged_send W m c of (_, c) \<Rightarrow> SdkGoes (cgoto i (Drain ms) (cc_client c) c)))
     | LoopTop \<Rightarrow> (case cl_conn cl of
           None \<Rightarrow> SdkPanic
         | Some k \<Rightarrow> SdkGoes (cgoto i (InRead k) cl c))
     | InRead k \<Rightarrow> (case as_map res of
           Inr msg \<Rightarrow> SdkGoes (cgoto i LoopTop (handleMessage msg cl) c)
         | Inl err \<Rightarrow> SdkGoes (cgoto i ExitLock
             (if unexpected err then emit ''error'' (JObj [(''error'', JStr err), (''type'', JStr ''connection'')]) cl else cl) c))
     | ExitLock \<Rightarrow> SdkGoes (cgoto i ExitEmit (cl\<lparr>cl_connected := False\<rparr>) c)
     | ExitEmit \<Rightarrow> SdkGoes (cgoto i ExitCheck (emit ''disconnected'' (JObj [(''reconnectAttempts'', JNum (cl_attempts cl)),
           (''willReconnect'', JBool (AutoReconnect (cl_options cl) \<and> cl_attempts cl < MaxReconnectAttempts (cl_options cl)))]) cl) c)
     | ExitCheck \<Rightarrow>
         if AutoReconnect (cl_options cl) \<and> cl_attempts cl < MaxReconnectAttempts (cl_options cl)
         then SdkGoes (cgoto i Dialing (cl\<lparr>cl_attempts := cl_attempts cl + 1\<rparr>) c)
         else SdkGoes (cgoto i Outside cl c))"

text \<open>Runs of a new client with \<open>K\<close> goroutines of the application.\<close>

definition sdk_start :: "string \<Rightarrow> client_options list \<Rightarrow> nat \<Rightarrow> sdk_conc" where
  "sdk_start url opts K = \<lparr>cc_client = NewClient url opts, cc_pcs = replicate K Outside,
     gh_log = [], gh_issued = [], gh_failed = [], gh_overlap = False\<rparr>"

inductive sdk_runs :: "sdk_write \<Rightarrow> (go_error \<Rightarrow> bool) \<Rightarrow> sdk_conc \<Rightarrow> sdk_conc \<Rightarrow> bool" for W u c0 where
  here: "sdk_runs W u c0 c0"
| call: "sdk_runs W u c0 c \<Longrightarrow> i < length (cc_pcs c) \<Longrightarrow> cc_pcs c ! i = Outside \<Longrightarrow>
    sdk_runs W u c0 (c\<lparr>cc_pcs := (cc_pcs c)[i := enter_pc x]\<rparr>)"
| act: "sdk_runs W u c0 c \<Longrightarrow> i < length (cc_pcs c) \<Longrightarrow> sdk_action W u dial res i c = SdkGoes c' \<Longrightarrow> sdk_runs W u c0 c'"

section \<open>What the goroutines have in hand\<close>

fun drain_of :: "sdk_pc \<Rightarrow> json list" where
  "drain_of (Drain ms) = ms"
| "drain_of _ = []"

definition in_hand :: "sdk_pc list \<Rightarrow> json list" where
  "in_hand ps = concat (map drain_of ps)"

lemma in_window_drain: "drain_of l \<noteq> [] \<Longrightarrow> in_window l"
  by (cases l rule: drain_of.cases) (auto simp: neq_Nil_conv)

lemma in_hand_update:
  assumes "i < length ps"
  shows "mset (in_hand (ps[i := l])) + mset (drain_of (ps ! i)) = mset (in_hand ps) + mset (drain_of l)"
  using assms
  by (subst (2) id_take_nth_drop [OF assms]) (simp add: in_hand_def upd_conv_take_nth_drop)

lemma in_hand_same:
  assumes "drain_of l = drain_of (ps ! i)"
  shows "in_hand (ps[i := l]) = in_hand ps"
proof -
  have "map drain_of (ps[i := l]) = map drain_of ps"
  proof (cases "i < length ps")
    case True
    then show ?thesis using assms by (simp add: map_update list_update_same_conv)
  qed (simp add: list_update_beyond)
  then show ?thesis by (simp add: in_hand_def)
qed

lemma in_hand_append [simp]: "in_hand (ps @ ps') = in_hand ps @ in_hand ps'"
  by (simp add: in_hand_def)

lemma in_hand_simps [simp]: "in_hand [] = []" "in_hand (l # ps) = drain_of l @ in_hand ps"
  by (simp_all add: in_hand_def)

lemma in_hand_none: "(\<And>j. j < length ps \<Longrightarrow> drain_of (ps ! j) = []) \<Longrightarrow> in_hand ps = []"
  by (auto simp: in_hand_def in_set_conv_nth)

lemma in_hand_only:
  assumes "i < length ps" "\<And>j. j < length ps \<Longrightarrow> j \<noteq> i \<Longrightarrow> drain_of (ps ! j) = []"
  shows "in_hand ps = drain_of (ps ! i)"
proof -
  have "in_hand (take i ps) = []" "in_hand (drop (Suc i) ps) = []"
    using assms by (intro in_hand_none; simp)+
  then show ?thesis
    by (subst id_take_nth_drop [OF assms(1)]) simp
qed

section \<open>The invariant\<close>

text \<open>What a connection has sent is what the history says of it; who is connected has a connection.\<close>

definition wires_ok :: "sdk_conc \<Rightarrow> bool" where
  "wires_ok c \<longleftrightarrow> (let cl = cc_client c in
     (\<forall>k < length (cl_wires cl). wr_sent (cl_wires cl ! k) = map snd (filter (\<lambda>x. fst x = k) (gh_log c))) \<and>
     (\<forall>x \<in> set (gh_log c). fst x < length (cl_wires cl)) \<and>
     (\<forall>k. cl_conn cl = Some k \<longrightarrow> k < length (cl_wires cl)) \<and>
     (\<forall>i < length (cc_pcs c). \<forall>k. cc_pcs c ! i = Dialed k \<longrightarrow> k < length (cl_wires cl)) \<and>
     (cl_connected cl \<longrightarrow> cl_conn cl \<noteq> None))"

definition nothing_lost :: "sdk_conc \<Rightarrow> bool" where
  "nothing_lost c \<longleftrightarrow> mset (map snd (gh_log c)) + mset (cl_queue (cc_client c)) + mset (gh_failed c) +
     mset (in_hand (cc_pcs c)) = mset (gh_issued c)"

definition queue_handled :: "sdk_conc \<Rightarrow> bool" where
  "queue_handled c \<longleftrightarrow> (cl_connected (cc_client c) \<and> cl_queue (cc_client c) \<noteq> [] \<longrightarrow>
     (\<exists>i < length (cc_pcs c). cc_pcs c ! i \<in> {Announce, TakeQueue}))"

text \<open>Without an overlap there is one window at most, and what was issued is in order.\<close>

definition in_order :: "sdk_conc \<Rightarrow> bool" where
  "in_order c \<longleftrightarrow> (\<not> gh_overlap c \<longrightarrow>
     (\<forall>i < length (cc_pcs c). in_window (cc_pcs c ! i) \<longrightarrow> \<not> others_in_window i (cc_pcs c)) \<and>
     (gh_failed c = [] \<longrightarrow> map snd (gh_log c) @ cl_queue (cc_client c) @ in_hand (cc_pcs c) = gh_issued c))"

definition sdk_inv :: "sdk_conc \<Rightarrow> bool" where
  "sdk_inv c \<longleftrightarrow> wires_ok c \<and> nothing_lost c \<and> queue_handled c \<and> in_order c"

lemma no_window:
  assumes "\<not> others_in_window i ps" "\<not> in_window (ps ! i)"
  shows "j < length ps \<Longrightarrow> \<not> in_window (ps ! j)" "in_hand ps = []"
proof -
  show w: "\<not> in_window (ps ! j)" if "j < length ps" for j
    using assms that by (cases "j = i") (auto simp: others_in_window_def)
  show "in_hand ps = []" using w in_window_drain by (intro in_hand_none) blast
qed

lemma others_update [simp]: "others_in_window i (ps[i := l]) = others_in_window i ps"
  by (auto simp: others_in_window_def)

lemma cgoto_simps [simp]:
  "cc_client (cgoto i l cl c) = cl" "cc_pcs (cgoto i l cl c) = (cc_pcs c)[i := l]" "gh_log (cgoto i l cl c) = gh_log c"
  "gh_issued (cgoto i l cl c) = gh_issued c" "gh_failed (cgoto i l cl c) = gh_failed c" "gh_overlap (cgoto i l cl c) = gh_overlap c"
  by (simp_all add: cgoto_def)

text \<open>One goroutine goes on; the order is kept if the windows and the messages allow it.\<close>

lemma in_orderI:
  assumes "in_order c" "i < length (cc_pcs c)" "cc_pcs c' = (cc_pcs c)[i := l]"
    and "\<not> gh_overlap c' \<Longrightarrow> \<not> gh_overlap c" "gh_failed c' = [] \<Longrightarrow> gh_failed c = []"
    and "\<not> gh_overlap c' \<Longrightarrow> in_window l \<Longrightarrow> in_window (cc_pcs c ! i) \<or> \<not> others_in_window i (cc_pcs c)"
    and "\<not> gh_overlap c' \<Longrightarrow> gh_failed c' = [] \<Longrightarrow>
      map snd (gh_log c) @ cl_queue (cc_client c) @ in_hand (cc_pcs c) = gh_issued c \<Longrightarrow>
      map snd (gh_log c') @ cl_queue (cc_client c') @ in_hand (cc_pcs c') = gh_issued c'"
  shows "in_order c'"
  unfolding in_order_def
proof (intro impI conjI allI)
  assume o': "\<not> gh_overlap c'"
  then have w: "\<And>j. j < length (cc_pcs c) \<Longrightarrow> in_window (cc_pcs c ! j) \<Longrightarrow> \<not> others_in_window j (cc_pcs c)"
    using assms(1,4) by (simp add: in_order_def)
  have one: "\<not> others_in_window i (cc_pcs c)" if "in_window l" using assms(2,6) w o' that by blast
  { fix j assume j: "j < length (cc_pcs c')" "in_window (cc_pcs c' ! j)"
    show "\<not> others_in_window j (cc_pcs c')"
    proof (cases "j = i")
      case True
      then show ?thesis using assms(2,3) one j by simp
    next
      case False
      then have "\<not> in_window l"
        using assms(2,3) one j by (auto simp: others_in_window_def)
      then show ?thesis using w [of j] False assms(2,3) j by (auto simp: others_in_window_def nth_list_update)
    qed
  }
  assume "gh_failed c' = []"
  then show "map snd (gh_log c') @ cl_queue (cc_client c') @ in_hand (cc_pcs c') = gh_issued c'"
    using o' assms(1,4,5,7) by (simp add: in_order_def)
qed

section \<open>Every action keeps it\<close>

lemma sdk_invD:
  assumes "sdk_inv c"
  shows "wires_ok c" "nothing_lost c" "queue_handled c" "in_order c"
  using assms by (simp_all add: sdk_inv_def)

text \<open>An action outside the window that leaves queue, connections and history alone.\<close>

lemma plain_ok:
  assumes "sdk_inv c" "i < length (cc_pcs c)" "\<not> in_window (cc_pcs c ! i)" "\<not> in_window l" "\<And>k. l \<noteq> Dialed k"
    and "cl_queue cl = cl_queue (cc_client c)" "map wr_sent (cl_wires cl) = map wr_sent (cl_wires (cc_client c))"
    and "cl_conn cl = cl_conn (cc_client c) \<or> cl_conn cl = None \<and> \<not> cl_connected cl"
      "cl_connected cl \<longrightarrow> cl_connected (cc_client c)"
  shows "sdk_inv (cgoto i l cl c)"
proof -
  note inv = sdk_invD [OF assms(1)]
  have len: "length (cl_wires cl) = length (cl_wires (cc_client c))" using assms(7) by (rule map_eq_imp_length_eq)
  have sent: "wr_sent (cl_wires cl ! k) = wr_sent (cl_wires (cc_client c) ! k)" if "k < length (cl_wires cl)" for k
    using assms(7) that len by (metis nth_map)
  have drain: "drain_of (cc_pcs c ! i) = []" "drain_of l = []" using assms(3,4) in_window_drain by blast+
  have hand: "mset (in_hand ((cc_pcs c)[i := l])) = mset (in_hand (cc_pcs c))"
    using in_hand_update [OF assms(2), of l] drain by simp
  have "wires_ok (cgoto i l cl c)"
    using inv(1) assms(2,5,8,9) len sent by (auto simp: wires_ok_def Let_def nth_list_update)
  moreover have "nothing_lost (cgoto i l cl c)" using inv(2) assms(6) hand by (simp add: nothing_lost_def)
  moreover have "queue_handled (cgoto i l cl c)"
    unfolding queue_handled_def
  proof
    assume "cl_connected (cc_client (cgoto i l cl c)) \<and> cl_queue (cc_client (cgoto i l cl c)) \<noteq> []"
    then obtain j where j: "j < length (cc_pcs c)" "cc_pcs c ! j \<in> {Announce, TakeQueue}"
      using inv(3) assms(6,9) by (auto simp: queue_handled_def)
    then have "j \<noteq> i" using assms(3) by auto
    then show "\<exists>j < length (cc_pcs (cgoto i l cl c)). cc_pcs (cgoto i l cl c) ! j \<in> {Announce, TakeQueue}"
      using j by (auto intro!: exI [of _ j])
  qed
  moreover have "in_order (cgoto i l cl c)"
  proof (rule in_orderI [OF inv(4) assms(2)])
    have "in_hand ((cc_pcs c)[i := l]) = in_hand (cc_pcs c)" using drain by (intro in_hand_same) simp
    then show "map snd (gh_log (cgoto i l cl c)) @ cl_queue (cc_client (cgoto i l cl c)) @ in_hand (cc_pcs (cgoto i l cl c)) =
        gh_issued (cgoto i l cl c)" if "map snd (gh_log c) @ cl_queue (cc_client c) @ in_hand (cc_pcs c) = gh_issued c"
      using that assms(6) by simp
  qed (use assms(4) in auto)
  ultimately show ?thesis by (simp add: sdk_inv_def)
qed

text \<open>What a \<open>send\<close> does: the write fails, or it succeeds, or the message is queued.\<close>

lemma logged_send_cases:
  assumes "wires_ok c"
  obtains (failed) e where "logged_send W m c = (Some e, c\<lparr>gh_failed := gh_failed c @ [m]\<rparr>)"
  | (written) k where "cl_conn (cc_client c) = Some k" "cl_connected (cc_client c)" "k < length (cl_wires (cc_client c))"
      "logged_send W m c = (None, c\<lparr>cc_client := (cc_client c)\<lparr>cl_wires := (cl_wires (cc_client c))
         [k := (cl_wires (cc_client c) ! k)\<lparr>wr_sent := wr_sent (cl_wires (cc_client c) ! k) @ [m]\<rparr>]\<rparr>, gh_log := gh_log c @ [(k, m)]\<rparr>)"
  | (queued) "\<not> cl_connected (cc_client c)"
      "logged_send W m c = (None, c\<lparr>cc_client := (cc_client c)\<lparr>cl_queue := cl_queue (cc_client c) @ [m]\<rparr>\<rparr>)"
proof (cases "cl_connected (cc_client c)")
  case True
  then obtain k where k: "cl_conn (cc_client c) = Some k" "k < length (cl_wires (cc_client c))"
    using assms by (auto simp: wires_ok_def Let_def)
  show thesis
  proof (cases "W k (wr_sent (cl_wires (cc_client c) ! k)) m")
    case None
    then show thesis using written [OF k(1) True k(2)] True k by (simp add: logged_send_def Client_send_def Let_def)
  next
    case (Some e)
    then show thesis using failed [of e] True k by (simp add: logged_send_def Client_send_def Let_def)
  qed
next
  case False
  then show thesis using queued by (simp add: logged_send_def Client_send_def Let_def split: option.split)
qed

lemma logged_send_effect:
  assumes "wires_ok c" "logged_send W m c = (err, c')"
  shows "wires_ok c'" "cc_pcs c' = cc_pcs c" "gh_issued c' = gh_issued c" "gh_overlap c' = gh_overlap c"
    "cl_connected (cc_client c') = cl_connected (cc_client c)" "cl_connected (cc_client c) \<Longrightarrow> cl_queue (cc_client c') = cl_queue (cc_client c)"
    "mset (map snd (gh_log c')) + mset (cl_queue (cc_client c')) + mset (gh_failed c') =
      mset (map snd (gh_log c)) + mset (cl_queue (cc_client c)) + mset (gh_failed c) + {#m#}"
    "gh_failed c' = [] \<Longrightarrow> gh_failed c = [] \<and> (if cl_connected (cc_client c)
      then map snd (gh_log c') = map snd (gh_log c) @ [m] else gh_log c' = gh_log c \<and> cl_queue (cc_client c') = cl_queue (cc_client c) @ [m])"
proof -
  have w: "wires_ok (c\<lparr>cc_client := (cc_client c)\<lparr>cl_wires := (cl_wires (cc_client c))
      [k := (cl_wires (cc_client c) ! k)\<lparr>wr_sent := wr_sent (cl_wires (cc_client c) ! k) @ [m]\<rparr>]\<rparr>, gh_log := gh_log c @ [(k, m)]\<rparr>)"
    if "k < length (cl_wires (cc_client c))" for k
    using assms(1) that by (auto simp: wires_ok_def Let_def nth_list_update)
  have f: "wires_ok (c\<lparr>gh_failed := ms\<rparr>)" "wires_ok (c\<lparr>cc_client := (cc_client c)\<lparr>cl_queue := q\<rparr>\<rparr>)" for ms q
    using assms(1) by (simp_all add: wires_ok_def Let_def)
  show "wires_ok c'" "cc_pcs c' = cc_pcs c" "gh_issued c' = gh_issued c" "gh_overlap c' = gh_overlap c"
    "cl_connected (cc_client c') = cl_connected (cc_client c)" "cl_connected (cc_client c) \<Longrightarrow> cl_queue (cc_client c') = cl_queue (cc_client c)"
    "mset (map snd (gh_log c')) + mset (cl_queue (cc_client c')) + mset (gh_failed c') =
      mset (map snd (gh_log c)) + mset (cl_queue (cc_client c)) + mset (gh_failed c) + {#m#}"
    "gh_failed c' = [] \<Longrightarrow> gh_failed c = [] \<and> (if cl_connected (cc_client c)
      then map snd (gh_log c') = map snd (gh_log c) @ [m] else gh_log c' = gh_log c \<and> cl_queue (cc_client c') = cl_queue (cc_client c) @ [m])"
    using assms(2) w f by (cases rule: logged_send_cases [OF assms(1), of W m]; auto)+
qed

text \<open>Offline nothing is sent, and a connected client has an empty queue but for a window.\<close>

lemma queue_empty:
  assumes "queue_handled c" "cl_connected (cc_client c)"
    "\<And>j. j < length (cc_pcs c) \<Longrightarrow> cc_pcs c ! j \<noteq> Announce \<and> cc_pcs c ! j \<noteq> TakeQueue"
  shows "cl_queue (cc_client c) = []"
  using assms by (auto simp: queue_handled_def)

lemma handled_update:
  assumes "queue_handled c" "cl_connected (cc_client c') \<Longrightarrow> cl_connected (cc_client c) \<and> cl_queue (cc_client c') = cl_queue (cc_client c)"
    "cc_pcs c' = (cc_pcs c)[i := l]" "i < length (cc_pcs c)" "cc_pcs c ! i \<in> {Announce, TakeQueue} \<Longrightarrow> l \<in> {Announce, TakeQueue}"
  shows "queue_handled c'"
  unfolding queue_handled_def
proof
  assume a: "cl_connected (cc_client c') \<and> cl_queue (cc_client c') \<noteq> []"
  then obtain j where "j < length (cc_pcs c)" "cc_pcs c ! j \<in> {Announce, TakeQueue}"
    using assms(1,2) by (auto simp: queue_handled_def)
  then show "\<exists>j < length (cc_pcs c'). cc_pcs c' ! j \<in> {Announce, TakeQueue}"
    using assms(3-5) by (intro exI [of _ j]) (cases "j = i"; simp)
qed

lemma send_action_ok:
  assumes "sdk_inv c" "i < length (cc_pcs c)" "cc_pcs c ! i = AtSend m k"
    "logged_send W m (c\<lparr>gh_issued := gh_issued c @ [m], gh_overlap := gh_overlap c \<or> others_in_window i (cc_pcs c)\<rparr>) = (err, c1)"
    "l = then_pc k \<or> l = Outside"
  shows "sdk_inv (cgoto i l (cc_client c1) c1)"
proof -
  let ?c = "c\<lparr>gh_issued := gh_issued c @ [m], gh_overlap := gh_overlap c \<or> others_in_window i (cc_pcs c)\<rparr>"
  note inv = sdk_invD [OF assms(1)]
  have "wires_ok ?c" using inv(1) by (simp add: wires_ok_def Let_def)
  note e = logged_send_effect [OF this assms(4), simplified]
  have l: "\<not> in_window l" "\<And>k. l \<noteq> Dialed k" "drain_of l = []" using assms(5) by (cases k; auto)+
  have hand: "mset (in_hand ((cc_pcs c)[i := l])) = mset (in_hand (cc_pcs c))"
    using in_hand_update [OF assms(2), of l] l(3) assms(3) by simp
  have "wires_ok (cgoto i l (cc_client c1) c1)"
    using e(1,2) l(2) assms(2) by (auto simp: wires_ok_def Let_def nth_list_update)
  moreover have "nothing_lost (cgoto i l (cc_client c1) c1)"
    using inv(2) e(2,3,7) hand by (simp add: nothing_lost_def)
  moreover have "queue_handled (cgoto i l (cc_client c1) c1)"
    by (rule handled_update [OF inv(3) _ _ assms(2), of _ l]) (use e(2,5,6) assms(3) in auto)
  moreover have "in_order (cgoto i l (cc_client c1) c1)"
  proof (rule in_orderI [OF inv(4) assms(2)])
    assume a: "\<not> gh_overlap (cgoto i l (cc_client c1) c1)" "gh_failed (cgoto i l (cc_client c1) c1) = []"
      and old: "map snd (gh_log c) @ cl_queue (cc_client c) @ in_hand (cc_pcs c) = gh_issued c"
    have n: "\<not> in_window (cc_pcs c ! j)" if "j < length (cc_pcs c)" for j
      using no_window(1) [of i "cc_pcs c"] a(1) e(4) assms(3) that by simp
    have none: "in_hand (cc_pcs c) = []" using n in_window_drain by (intro in_hand_none) blast
    have "in_hand ((cc_pcs c)[i := l]) = in_hand (cc_pcs c)" using l(3) assms(3) by (intro in_hand_same) simp
    note none this
    moreover have "cl_queue (cc_client c) = []" if "cl_connected (cc_client c)"
    proof (rule queue_empty [OF inv(3) that])
      show "cc_pcs c ! j \<noteq> Announce \<and> cc_pcs c ! j \<noteq> TakeQueue" if "j < length (cc_pcs c)" for j
        using n [OF that] by auto
    qed
    ultimately show "map snd (gh_log (cgoto i l (cc_client c1) c1)) @ cl_queue (cc_client (cgoto i l (cc_client c1) c1)) @
        in_hand (cc_pcs (cgoto i l (cc_client c1) c1)) = gh_issued (cgoto i l (cc_client c1) c1)"
      using old a(2) e(2,3,6,8) by (cases "cl_connected (cc_client c)") auto
  qed (use e l in auto)
  ultimately show ?thesis by (simp add: sdk_inv_def)
qed

lemma drain_action_ok:
  assumes "sdk_inv c" "i < length (cc_pcs c)" "cc_pcs c ! i = Drain (m # ms)" "logged_send W m c = (err, c1)"
  shows "sdk_inv (cgoto i (Drain ms) (cc_client c1) c1)"
proof -
  let ?c' = "cgoto i (Drain ms) (cc_client c1) c1"
  note inv = sdk_invD [OF assms(1)]
  note e = logged_send_effect [OF inv(1) assms(4)]
  have hand: "mset (in_hand (cc_pcs c)) = add_mset m (mset (in_hand ((cc_pcs c)[i := Drain ms])))"
    using in_hand_update [OF assms(2), of "Drain ms"] assms(3) by simp
  have "wires_ok ?c'" using e(1,2) assms(2) by (auto simp: wires_ok_def Let_def nth_list_update)
  moreover have "nothing_lost ?c'" using inv(2) e(2,3,7) hand by (simp add: nothing_lost_def)
  moreover have "queue_handled ?c'"
    by (rule handled_update [OF inv(3) _ _ assms(2), of _ "Drain ms"]) (use e(2,5,6) assms(3) in auto)
  moreover have "in_order ?c'"
  proof (rule in_orderI [OF inv(4) assms(2)])
    assume a: "\<not> gh_overlap ?c'" "gh_failed ?c' = []"
      and old: "map snd (gh_log c) @ cl_queue (cc_client c) @ in_hand (cc_pcs c) = gh_issued c"
    have o: "\<not> others_in_window i (cc_pcs c)"
      using inv(4) a(1) e(4) assms(2,3) by (simp add: in_order_def)
    then have none: "drain_of (cc_pcs c ! j) = []" "cc_pcs c ! j \<noteq> Announce" "cc_pcs c ! j \<noteq> TakeQueue"
      if "j < length (cc_pcs c)" "j \<noteq> i" for j
      using that in_window_drain by (fastforce simp: others_in_window_def)+
    have "in_hand (cc_pcs c) = m # ms" using in_hand_only [OF assms(2)] none(1) assms(3) by simp
    moreover have "in_hand ((cc_pcs c)[i := Drain ms]) = ms"
      using in_hand_only [of i "(cc_pcs c)[i := Drain ms]"] none(1) assms(2) by simp
    moreover have "cl_queue (cc_client c) = []" if "cl_connected (cc_client c)"
    proof (rule queue_empty [OF inv(3) that])
      show "cc_pcs c ! j \<noteq> Announce \<and> cc_pcs c ! j \<noteq> TakeQueue" if "j < length (cc_pcs c)" for j
        using none(2,3) [OF that] assms(3) by (cases "j = i") simp_all
    qed
    ultimately show "map snd (gh_log ?c') @ cl_queue (cc_client ?c') @ in_hand (cc_pcs ?c') = gh_issued ?c'"
      using old a(2) e(2,3,6,8) by (cases "cl_connected (cc_client c)") auto
  qed (use e assms(3) in auto)
  ultimately show ?thesis by (simp add: sdk_inv_def)
qed

text \<open>The actions of \<open>Connect\<close>.\<close>

lemma dial_action_ok:
  assumes "sdk_inv c" "i < length (cc_pcs c)" "cc_pcs c ! i = Dialing"
  shows "sdk_inv (cgoto i (Dialed (length (cl_wires (cc_client c))))
    ((cc_client c)\<lparr>cl_wires := cl_wires (cc_client c) @ [\<lparr>wr_sent = [], wr_closed = False\<rparr>]\<rparr>) c)"
    (is "sdk_inv ?c'")
proof -
  note inv = sdk_invD [OF assms(1)]
  have hand: "in_hand (cc_pcs ?c') = in_hand (cc_pcs c)"
    using assms(3) by (simp add: in_hand_same)
  have "filter (\<lambda>x. fst x = length (cl_wires (cc_client c))) (gh_log c) = []"
    using inv(1) by (auto simp: wires_ok_def Let_def filter_empty_conv)
  then have "wires_ok ?c'"
    using inv(1) assms(2) by (auto simp: wires_ok_def Let_def nth_append nth_list_update less_Suc_eq)
  moreover have "nothing_lost ?c'" using inv(2) hand by (simp add: nothing_lost_def)
  moreover have "queue_handled ?c'"
    by (rule handled_update [OF inv(3) _ _ assms(2), of _ "Dialed (length (cl_wires (cc_client c)))"]) (use assms(3) in auto)
  moreover have "in_order ?c'"
    by (rule in_orderI [OF inv(4) assms(2)]) (use hand in auto)
  ultimately show ?thesis by (simp add: sdk_inv_def)
qed

text \<open>The window opens: from now on the client is connected.\<close>

lemma open_action_ok:
  assumes "sdk_inv c" "i < length (cc_pcs c)" "cc_pcs c ! i = Dialed k"
  shows "sdk_inv (cgoto i Announce ((cc_client c)\<lparr>cl_conn := Some k, cl_connected := True, cl_attempts := n\<rparr>)
    (c\<lparr>gh_overlap := gh_overlap c \<or> others_in_window i (cc_pcs c)\<rparr>))"
    (is "sdk_inv ?c'")
proof -
  note inv = sdk_invD [OF assms(1)]
  have hand: "in_hand (cc_pcs ?c') = in_hand (cc_pcs c)" using assms(3) by (simp add: in_hand_same)
  have "wires_ok ?c'" using inv(1) assms(2,3) by (auto simp: wires_ok_def Let_def nth_list_update)
  moreover have "nothing_lost ?c'" using inv(2) hand by (simp add: nothing_lost_def)
  moreover have "queue_handled ?c'" using assms(2) by (auto simp: queue_handled_def intro!: exI [of _ i])
  moreover have "in_order ?c'" by (rule in_orderI [OF inv(4) assms(2)]) (use hand in auto)
  ultimately show ?thesis by (simp add: sdk_inv_def)
qed

text \<open>The client changes in nothing the invariant speaks of, and the place stays in the window.\<close>

lemma announce_action_ok:
  assumes "sdk_inv c" "i < length (cc_pcs c)" "cc_pcs c ! i = Announce"
  shows "sdk_inv (cgoto i TakeQueue (emit e d (cc_client c)) c)"
    (is "sdk_inv ?c'")
proof -
  note inv = sdk_invD [OF assms(1)]
  have hand: "in_hand (cc_pcs ?c') = in_hand (cc_pcs c)" using assms(3) by (simp add: in_hand_same)
  have "wires_ok ?c'" using inv(1) assms(2) by (auto simp: wires_ok_def Let_def nth_list_update)
  moreover have "nothing_lost ?c'" using inv(2) hand by (simp add: nothing_lost_def)
  moreover have "queue_handled ?c'"
    by (rule handled_update [OF inv(3) _ _ assms(2), of _ TakeQueue]) auto
  moreover have "in_order ?c'" by (rule in_orderI [OF inv(4) assms(2)]) (use hand assms(3) in auto)
  ultimately show ?thesis by (simp add: sdk_inv_def)
qed

lemma take_action_ok:
  assumes "sdk_inv c" "i < length (cc_pcs c)" "cc_pcs c ! i = TakeQueue"
  shows "sdk_inv (cgoto i (Drain (cl_queue (cc_client c))) ((cc_client c)\<lparr>cl_queue := []\<rparr>) c)"
    (is "sdk_inv ?c'")
proof -
  note inv = sdk_invD [OF assms(1)]
  let ?q = "cl_queue (cc_client c)"
  have hand: "mset (in_hand (cc_pcs ?c')) = mset (in_hand (cc_pcs c)) + mset ?q"
    using in_hand_update [OF assms(2), of "Drain ?q"] assms(3) by simp
  have "wires_ok ?c'" using inv(1) assms(2) by (auto simp: wires_ok_def Let_def nth_list_update)
  moreover have "nothing_lost ?c'" using inv(2) hand by (simp add: nothing_lost_def ac_simps)
  moreover have "queue_handled ?c'" by (simp add: queue_handled_def)
  moreover have "in_order ?c'"
  proof (rule in_orderI [OF inv(4) assms(2)])
    assume "\<not> gh_overlap ?c'"
      and old: "map snd (gh_log c) @ cl_queue (cc_client c) @ in_hand (cc_pcs c) = gh_issued c"
    then have o: "\<not> others_in_window i (cc_pcs c)" using inv(4) assms(2,3) by (simp add: in_order_def)
    then have none: "drain_of (cc_pcs c ! j) = []" if "j < length (cc_pcs c)" "j \<noteq> i" for j
      using that in_window_drain by (fastforce simp: others_in_window_def)
    have "in_hand (cc_pcs c) = []" using in_hand_only [OF assms(2)] none assms(3) by simp
    moreover have "in_hand (cc_pcs ?c') = ?q"
      using in_hand_only [of i "cc_pcs ?c'"] none assms(2) by simp
    ultimately show "map snd (gh_log ?c') @ cl_queue (cc_client ?c') @ in_hand (cc_pcs ?c') = gh_issued ?c'"
      using old by simp
  qed (use assms(3) in auto)
  ultimately show ?thesis by (simp add: sdk_inv_def)
qed

text \<open>The end of \<open>Connect\<close> starts a read loop.\<close>

lemma others_append [simp]: "\<not> in_window l \<Longrightarrow> others_in_window i (ps @ [l]) = others_in_window i ps"
  by (auto simp: others_in_window_def nth_append less_Suc_eq)

lemma started_ok:
  assumes "sdk_inv c"
  shows "sdk_inv (c\<lparr>cc_pcs := cc_pcs c @ [LoopTop]\<rparr>)"
proof -
  note inv = sdk_invD [OF assms]
  have "wires_ok (c\<lparr>cc_pcs := cc_pcs c @ [LoopTop]\<rparr>)"
    using inv(1) by (auto simp: wires_ok_def Let_def nth_append less_Suc_eq)
  moreover have "queue_handled (c\<lparr>cc_pcs := cc_pcs c @ [LoopTop]\<rparr>)"
    using inv(3) by (auto simp: queue_handled_def nth_append less_Suc_eq)
  moreover have "in_order (c\<lparr>cc_pcs := cc_pcs c @ [LoopTop]\<rparr>)"
    using inv(4) by (auto simp: in_order_def nth_append less_Suc_eq)
  ultimately show ?thesis using inv(2) by (simp add: sdk_inv_def nothing_lost_def)
qed

lemma finish_action_ok:
  assumes "sdk_inv c" "i < length (cc_pcs c)" "cc_pcs c ! i = Drain []"
  shows "sdk_inv (c\<lparr>cc_pcs := (cc_pcs c)[i := Outside] @ [LoopTop]\<rparr>)"
  using started_ok [OF plain_ok [OF assms(1,2), of Outside "cc_client c"]] assms(3) by (simp add: cgoto_def)

lemma disconnect_frame:
  assumes "Client_Disconnect cl = Some cl'"
  shows "cl_queue cl' = cl_queue cl" "map wr_sent (cl_wires cl') = map wr_sent (cl_wires cl)" "cl_conn cl' = None" "\<not> cl_connected cl'"
proof -
  have "map wr_sent ((cl_wires cl)[k := (cl_wires cl ! k)\<lparr>wr_closed := True\<rparr>]) = map wr_sent (cl_wires cl)" for k
    by (cases "k < length (cl_wires cl)") (simp_all add: map_update list_update_same_conv list_update_beyond)
  then show "cl_queue cl' = cl_queue cl" "map wr_sent (cl_wires cl') = map wr_sent (cl_wires cl)" "cl_conn cl' = None" "\<not> cl_connected cl'"
    using assms by (auto simp: Client_Disconnect_def Let_def bind_eq_Some_conv split: option.splits)
qed

lemma sdk_action_ok:
  assumes "sdk_inv c" "i < length (cc_pcs c)" "sdk_action W u dial res i c = SdkGoes c'"
  shows "sdk_inv c'"
proof -
  note act = assms(3) [unfolded sdk_action_def Let_def]
  have plain: "sdk_inv (cgoto i l cl c)" if "\<not> in_window (cc_pcs c ! i)" "\<not> in_window l" "\<And>k. l \<noteq> Dialed k"
    "cl_queue cl = cl_queue (cc_client c)" "cl_wires cl = cl_wires (cc_client c)" "cl_conn cl = cl_conn (cc_client c)"
    "cl_connected cl = cl_connected (cc_client c) \<or> \<not> cl_connected cl" for l cl
    using that by (intro plain_ok [OF assms(1,2)]) auto
  show ?thesis
  proof (cases "cc_pcs c ! i")
    case (AtSend m k)
    obtain err c1 where c1: "logged_send W m (c\<lparr>gh_issued := gh_issued c @ [m],
        gh_overlap := gh_overlap c \<or> others_in_window i (cc_pcs c)\<rparr>) = (err, c1)" by fastforce
    then show ?thesis using act AtSend by (auto intro!: send_action_ok [OF assms(1,2) AtSend c1])
  next
    case (Drain ms)
    show ?thesis
    proof (cases ms)
      case Nil
      then show ?thesis using act Drain finish_action_ok [OF assms(1,2)] by auto
    next
      case (Cons m ms')
      obtain err c1 where c1: "logged_send W m c = (err, c1)" by fastforce
      then show ?thesis using act Drain Cons drain_action_ok [OF assms(1,2) _ c1] by auto
    qed
  next
    case AtDisconnect
    then obtain cl where cl: "Client_Disconnect (cc_client c) = Some cl" "c' = cgoto i Outside cl c"
      using act by (auto split: option.splits)
    show ?thesis unfolding cl(2) using disconnect_frame [OF cl(1)] AtDisconnect
      by (intro plain_ok [OF assms(1,2)]) simp_all
  next
    case Dialing
    then show ?thesis using act dial_action_ok [OF assms(1,2)]
      by (auto simp: alloc_def intro!: plain split: option.splits)
  next
    case (Dialed k)
    then show ?thesis using act open_action_ok [OF assms(1,2) Dialed, of 0] by auto
  next
    case Announce
    then show ?thesis using act announce_action_ok [OF assms(1,2)] by auto
  next
    case TakeQueue
    then show ?thesis using act take_action_ok [OF assms(1,2)] by auto
  qed (use act in \<open>auto simp: Client_On_def Client_Off_def intro!: plain split: option.splits sum.splits if_splits\<close>)
qed

lemma enter_ok:
  assumes "sdk_inv c" "i < length (cc_pcs c)" "cc_pcs c ! i = Outside"
  shows "sdk_inv (c\<lparr>cc_pcs := (cc_pcs c)[i := enter_pc x]\<rparr>)"
proof -
  have "\<not> in_window (enter_pc x) \<and> (\<forall>k. enter_pc x \<noteq> Dialed k)" by (cases x) simp_all
  then show ?thesis using plain_ok [OF assms(1,2), of "enter_pc x" "cc_client c"] assms(3) by (simp add: cgoto_def)
qed

lemma sdk_runs_ok: "sdk_runs W u c0 c \<Longrightarrow> sdk_inv c0 \<Longrightarrow> sdk_inv c"
  by (induction rule: sdk_runs.induct) (auto intro: enter_ok sdk_action_ok)

lemma sdk_start_ok: "sdk_inv (sdk_start url opts K)"
proof -
  have "in_hand (replicate K Outside) = []" by (rule in_hand_none) simp
  then show ?thesis
    by (simp add: sdk_inv_def wires_ok_def Let_def nothing_lost_def queue_handled_def in_order_def sdk_start_def NewClient_def)
qed

text \<open>
  C24: what the client keeps when its methods, its read loops and its reconnects interleave in
  any way. Every message given to \<open>send\<close> is exactly once on a connection, in the queue, in the
  hand of a \<open>Connect\<close> that is emptying the queue, or lost to a write that failed; each connection
  has carried what was written to it, in that order. A message waits in the queue of a
  connected client only while some \<open>Connect\<close> has not reached \<open>processQueue\<close>. And as long as no
  \<open>send\<close> and no other \<open>Connect\<close> gets in between the moment a \<open>Connect\<close> counts as connected and the
  end of its queue, and no write fails, the messages are in the order of the calls: those
  written, then the queue, then those in hand.
\<close>

theorem sdk_sends_once:
  assumes "sdk_runs W u (sdk_start url opts K) c"
  shows "mset (map snd (gh_log c)) + mset (cl_queue (cc_client c)) + mset (gh_failed c) + mset (in_hand (cc_pcs c)) =
      mset (gh_issued c) \<and>
    (\<forall>k < length (cl_wires (cc_client c)). wr_sent (cl_wires (cc_client c) ! k) = map snd (filter (\<lambda>x. fst x = k) (gh_log c))) \<and>
    (cl_connected (cc_client c) \<and> cl_queue (cc_client c) \<noteq> [] \<longrightarrow>
      (\<exists>i < length (cc_pcs c). cc_pcs c ! i = Announce \<or> cc_pcs c ! i = TakeQueue)) \<and>
    (\<not> gh_overlap c \<and> gh_failed c = [] \<longrightarrow>
      map snd (gh_log c) @ cl_queue (cc_client c) @ in_hand (cc_pcs c) = gh_issued c)"
proof -
  note inv = sdk_invD [OF sdk_runs_ok [OF assms sdk_start_ok]]
  then show ?thesis
    by (intro conjI) (simp_all add: wires_ok_def Let_def nothing_lost_def queue_handled_def in_order_def)
qed

section \<open>Schedules\<close>

datatype sdk_move = Calls nat sdk_call | Acts nat "go_error option" "go_error + json"

fun sdk_exec :: "sdk_write \<Rightarrow> (go_error \<Rightarrow> bool) \<Rightarrow> sdk_move list \<Rightarrow> sdk_conc \<Rightarrow> sdk_conc option" where
  "sdk_exec W u [] c = Some c"
| "sdk_exec W u (Calls i x # ms) c =
     (if i < length (cc_pcs c) \<and> cc_pcs c ! i = Outside
      then sdk_exec W u ms (c\<lparr>cc_pcs := (cc_pcs c)[i := enter_pc x]\<rparr>) else None)"
| "sdk_exec W u (Acts i dial res # ms) c =
     (if i < length (cc_pcs c) then case sdk_action W u dial res i c of SdkGoes c \<Rightarrow> sdk_exec W u ms c | _ \<Rightarrow> None else None)"

lemma sdk_exec_runs: "sdk_exec W u ms c = Some c' \<Longrightarrow> sdk_runs W u c0 c \<Longrightarrow> sdk_runs W u c0 c'"
  by (induction W u ms c rule: sdk_exec.induct)
    (auto split: if_splits sdk_outcome.splits intro: sdk_runs.intros)

lemma sdk_execI:
  assumes "\<exists>c. sdk_exec W u ms c0 = Some c \<and> P c"
  shows "\<exists>c. sdk_runs W u c0 c \<and> P c"
  using assms sdk_exec_runs [OF _ sdk_runs.here] by blast

text \<open>A message published offline, sent by \<open>Connect\<close>; nothing gets in between.\<close>

abbreviation acts :: "nat \<Rightarrow> sdk_move" where
  "acts i \<equiv> Acts i None (Inr JNull)"

lemmas sdk_eval = sdk_action_def Let_def cgoto_def logged_send_def Client_send_def sdk_start_def NewClient_def alloc_def
  emit_def others_in_window_def numeral_2_eq_2 less_Suc_eq

theorem sdk_sends_once_witness:
  "\<exists>c. sdk_runs (\<lambda>k s m. None) (\<lambda>e. True) (sdk_start ''ws'' [] 1) c \<and> map snd (gh_log c) @ cl_queue (cc_client c) @ in_hand (cc_pcs c) =
     [ping_json (generateRequestID ''ping'' 1)]"
proof -
  let ?ms = "[Calls 0 (CallPing 1), acts 0, Calls 0 CallConnect, acts 0, acts 0, acts 0, acts 0]"
  have "\<exists>c. sdk_exec (\<lambda>k s m. None) (\<lambda>e. True) ?ms (sdk_start ''ws'' [] 1) = Some c \<and>
      \<not> gh_overlap c \<and> gh_failed c = [] \<and> gh_issued c = [ping_json (generateRequestID ''ping'' 1)]"
    by (simp add: sdk_eval)
  from sdk_execI [OF this] obtain c where c: "sdk_runs (\<lambda>k s m. None) (\<lambda>e. True) (sdk_start ''ws'' [] 1) c"
      "\<not> gh_overlap c" "gh_failed c = []" "gh_issued c = [ping_json (generateRequestID ''ping'' 1)]" by blast
  with sdk_sends_once [OF c(1)] show ?thesis by auto
qed

text \<open>
  C11: the condition on the order is needed. A message published while the client is offline
  waits; the client connects, and after it counts as connected, but before \<open>processQueue\<close> has
  taken the queue, another goroutine publishes: that message is sent at once, and the
  earlier one after it, although every write succeeds.
\<close>

theorem sdk_overtakes:
  "\<exists>c. sdk_runs (\<lambda>k s m. None) u (sdk_start url opts 2) c \<and>
    gh_issued c = [publish_json n (generateRequestID ''pub'' t) p, publish_json n' (generateRequestID ''pub'' t') p'] \<and>
    map wr_sent (cl_wires (cc_client c)) =
      [[publish_json n' (generateRequestID ''pub'' t') p', publish_json n (generateRequestID ''pub'' t) p]]"
proof -
  let ?ms = "[Calls 0 (CallPublish t n p), acts 0, acts 0, Calls 0 CallConnect, acts 0, acts 0,
    Calls 1 (CallPublish t' n' p'), acts 1, acts 0, acts 0, acts 0]"
  show ?thesis by (rule sdk_execI [where ms = ?ms]) (simp add: sdk_eval)
qed

section \<open>Without interleaving\<close>

definition sdk_solo :: "sdk_write \<Rightarrow> (go_error \<Rightarrow> bool) \<Rightarrow> go_error option \<Rightarrow> go_error + json \<Rightarrow> nat \<Rightarrow> sdk_conc \<Rightarrow> sdk_conc \<Rightarrow> bool" where
  "sdk_solo W u dial res i = (\<lambda>c c'. sdk_action W u dial res i c = SdkGoes c')\<^sup>*\<^sup>*"

lemma sdk_solo_refl [simp]: "sdk_solo W u dial res i c c"
  by (simp add: sdk_solo_def)

lemma sdk_solo_step: "sdk_action W u dial res i c = SdkGoes c1 \<Longrightarrow> sdk_solo W u dial res i c1 c2 \<Longrightarrow> sdk_solo W u dial res i c c2"
  unfolding sdk_solo_def by (rule converse_rtranclp_into_rtranclp)

lemma logged_send_client:
  "logged_send W m c = (err, c1) \<Longrightarrow> cc_client c1 = snd (Client_send W m (cc_client c)) \<and> err = fst (Client_send W m (cc_client c)) \<and>
    cc_pcs c1 = cc_pcs c"
  by (auto simp: logged_send_def Let_def split: prod.splits option.splits)

text \<open>The other methods, each of them uninterrupted.\<close>

fun whole_call :: "sdk_write \<Rightarrow> sdk_call \<Rightarrow> sdk_client \<Rightarrow> sdk_client option" where
  "whole_call W CallConnect cl = None"
| "whole_call W CallDisconnect cl = Client_Disconnect cl"
| "whole_call W (CallOn e h) cl = Some (Client_On e h cl)"
| "whole_call W (CallOff e) cl = Some (Client_Off e cl)"
| "whole_call W (CallSubscribe t n ks) cl = Some (snd (Client_Subscribe W t n ks cl))"
| "whole_call W (CallUnsubscribe t n) cl = Some (snd (Client_Unsubscribe W t n cl))"
| "whole_call W (CallPublish t n p) cl = Some (snd (Client_Publish W t n p cl))"
| "whole_call W (CallPing t) cl = Some (snd (Client_Ping W t 0 cl))"

lemma send_then_alone:
  assumes "i < length (cc_pcs c)" "cc_pcs c ! i = AtSend m k" "Client_send W m (cc_client c) = (err, cl)"
    and "cl' = (if err \<noteq> None then cl else case k of
      ThenList n \<Rightarrow> emit ''subscribed'' (JObj [(''topic'', JStr n)]) (cl\<lparr>cl_subscriptions := gm_put n True (cl_subscriptions cl)\<rparr>)
    | ThenUnlist n \<Rightarrow> emit ''unsubscribed'' (JObj [(''topic'', JStr n)]) (cl\<lparr>cl_subscriptions := gm_del n (cl_subscriptions cl)\<rparr>)
    | ThenEmit e d \<Rightarrow> emit e d cl | ThenReturn \<Rightarrow> cl)"
  shows "\<exists>c'. sdk_solo W u dial res i c c' \<and> cc_client c' = cl' \<and> cc_pcs c' = (cc_pcs c)[i := Outside]"
proof -
  let ?c = "c\<lparr>gh_issued := gh_issued c @ [m], gh_overlap := gh_overlap c \<or> others_in_window i (cc_pcs c)\<rparr>"
  obtain e c1 where l: "logged_send W m ?c = (e, c1)" by fastforce
  then have c1: "cc_client c1 = cl" "e = err" "cc_pcs c1 = cc_pcs c"
    using logged_send_client [OF l] assms(3) by simp_all
  let ?c2 = "cgoto i (if err = None then then_pc k else Outside) cl c1"
  have go: "sdk_action W u dial res i c = SdkGoes ?c2" using assms(2) l c1 by (simp add: sdk_action_def Let_def)
  show ?thesis
  proof (cases "err = None")
    case False
    then show ?thesis using sdk_solo_step [OF go sdk_solo_refl] assms(4) c1 by (intro exI [of _ ?c2]) auto
  next
    case ok: True
    have emits: "\<exists>c'. sdk_solo W u dial res i c3 c' \<and> cc_client c' = emit e d (cc_client c3) \<and> cc_pcs c' = (cc_pcs c3)[i := Outside]"
      if "i < length (cc_pcs c3)" "cc_pcs c3 ! i = AtEmit e d" for c3 e d
      using that sdk_solo_step [OF _ sdk_solo_refl] by (intro exI [of _ "cgoto i Outside (emit e d (cc_client c3)) c3"])
        (simp add: sdk_action_def)
    have "\<exists>c'. sdk_solo W u dial res i ?c2 c' \<and> cc_client c' = cl' \<and> cc_pcs c' = (cc_pcs c)[i := Outside]"
    proof (cases k)
      case (ThenList n)
      let ?c3 = "cgoto i (AtEmit ''subscribed'' (JObj [(''topic'', JStr n)])) (cl\<lparr>cl_subscriptions := gm_put n True (cl_subscriptions cl)\<rparr>) ?c2"
      have "sdk_action W u dial res i ?c2 = SdkGoes ?c3" using ok ThenList assms(1) c1 by (simp add: sdk_action_def)
      from sdk_solo_step [OF this] emits [of ?c3] show ?thesis using ok ThenList assms(1,4) c1 by fastforce
    next
      case (ThenUnlist n)
      let ?c3 = "cgoto i (AtEmit ''unsubscribed'' (JObj [(''topic'', JStr n)])) (cl\<lparr>cl_subscriptions := gm_del n (cl_subscriptions cl)\<rparr>) ?c2"
      have "sdk_action W u dial res i ?c2 = SdkGoes ?c3" using ok ThenUnlist assms(1) c1 by (simp add: sdk_action_def)
      from sdk_solo_step [OF this] emits [of ?c3] show ?thesis using ok ThenUnlist assms(1,4) c1 by fastforce
    next
      case (ThenEmit e d)
      then show ?thesis using emits [of ?c2] ok assms(1,4) c1 by simp
    next
      case ThenReturn
      then show ?thesis using ok assms(4) c1 by (intro exI [of _ ?c2]) simp
    qed
    with sdk_solo_step [OF go] show ?thesis by blast
  qed
qed

theorem call_alone_sdk:
  assumes "i < length (cc_pcs c)" "cc_pcs c ! i = enter_pc x" "whole_call W x (cc_client c) = Some cl'"
  shows "\<exists>c'. sdk_solo W u dial res i c c' \<and> cc_client c' = cl' \<and> cc_pcs c' = (cc_pcs c)[i := Outside]"
proof -
  have one: ?thesis if "sdk_action W u dial res i c = SdkGoes (cgoto i Outside cl' c)"
    using sdk_solo_step [OF that sdk_solo_refl] by (intro exI [of _ "cgoto i Outside cl' c"]) simp
  have sends: ?thesis if "cc_pcs c ! i = AtSend m k"
    "cl' = (case Client_send W m (cc_client c) of (err, cl) \<Rightarrow> if err \<noteq> None then cl else case k of
      ThenList n \<Rightarrow> emit ''subscribed'' (JObj [(''topic'', JStr n)]) (cl\<lparr>cl_subscriptions := gm_put n True (cl_subscriptions cl)\<rparr>)
    | ThenUnlist n \<Rightarrow> emit ''unsubscribed'' (JObj [(''topic'', JStr n)]) (cl\<lparr>cl_subscriptions := gm_del n (cl_subscriptions cl)\<rparr>)
    | ThenEmit e d \<Rightarrow> emit e d cl | ThenReturn \<Rightarrow> cl)" for m k
    using send_then_alone [OF assms(1) that(1)] that(2) by (cases "Client_send W m (cc_client c)") auto
  show ?thesis
  proof (cases x)
    case (CallSubscribe t n ks)
    then show ?thesis using assms(2,3) by (intro sends) (auto simp: Client_Subscribe_def split: prod.splits option.splits)
  next
    case (CallUnsubscribe t n)
    then show ?thesis using assms(2,3) by (intro sends) (auto simp: Client_Unsubscribe_def split: prod.splits option.splits)
  next
    case (CallPublish t n p)
    then show ?thesis using assms(2,3) by (intro sends) (auto simp: Client_Publish_def split: prod.splits option.splits)
  next
    case (CallPing t)
    then show ?thesis using assms(2,3) by (intro sends) (auto simp: Client_Ping_def split: prod.splits option.splits)
  qed (use assms(2,3) one in \<open>simp_all add: sdk_action_def\<close>)
qed

lemma drain_alone:
  assumes "i < length (cc_pcs c)" "cc_pcs c ! i = Drain ms"
  shows "\<exists>c'. sdk_solo W u dial res i c c' \<and> cc_client c' = send_each W ms (cc_client c) \<and> cc_pcs c' = (cc_pcs c)[i := Drain []]"
  using assms
proof (induction ms arbitrary: c)
  case Nil
  then show ?case by (metis list_update_id sdk_solo_refl send_each.simps(1))
next
  case (Cons m ms)
  obtain err c1 where c1: "logged_send W m c = (err, c1)" by fastforce
  note e = logged_send_client [OF c1]
  let ?c = "cgoto i (Drain ms) (cc_client c1) c1"
  have go: "sdk_action W u dial res i c = SdkGoes ?c" using Cons.prems c1 by (simp add: sdk_action_def)
  obtain c' where "sdk_solo W u dial res i ?c c'" "cc_client c' = send_each W ms (cc_client ?c)"
      "cc_pcs c' = (cc_pcs ?c)[i := Drain []]"
    using Cons.IH [of ?c] Cons.prems(1) e by auto
  then show ?case using sdk_solo_step [OF go] e by auto
qed

text \<open>A \<open>Connect\<close> that nothing interrupts is the \<open>Client_Connect\<close> of \<open>Client_SDK\<close>; its read loop is a goroutine of its own.\<close>

theorem connect_alone:
  assumes "i < length (cc_pcs c)" "cc_pcs c ! i = Dialing"
  shows "\<exists>c'. sdk_solo W u dial res i c c' \<and>
    cc_client c' = (snd (Client_Connect W dial (cc_client c)))\<lparr>cl_readers := cl_readers (cc_client c)\<rparr> \<and>
    cc_pcs c' = (cc_pcs c)[i := Outside] @ (if dial = None then [LoopTop] else [])"
proof (cases dial)
  case (Some err)
  let ?c = "cgoto i Outside (cc_client c) c"
  have "sdk_action W u dial res i c = SdkGoes ?c" using assms(2) Some by (simp add: sdk_action_def)
  from sdk_solo_step [OF this sdk_solo_refl] show ?thesis
    using Some by (intro exI [of _ ?c]) (simp add: Client_Connect_def)
next
  case None
  let ?cl = "cc_client c" and ?n = "length (cl_wires (cc_client c))"
  let ?cl1 = "?cl\<lparr>cl_wires := cl_wires ?cl @ [\<lparr>wr_sent = [], wr_closed = False\<rparr>]\<rparr>"
  let ?cl2 = "?cl1\<lparr>cl_conn := Some ?n, cl_connected := True, cl_attempts := 0\<rparr>"
  let ?cl3 = "emit ''connected'' (JObj [(''url'', JStr (cl_url ?cl2))]) ?cl2"
  let ?c1 = "cgoto i (Dialed ?n) ?cl1 c"
  let ?c2 = "cgoto i Announce ?cl2 (?c1\<lparr>gh_overlap := gh_overlap ?c1 \<or> others_in_window i (cc_pcs ?c1)\<rparr>)"
  let ?c3 = "cgoto i TakeQueue ?cl3 ?c2"
  let ?c4 = "cgoto i (Drain (cl_queue ?cl3)) (?cl3\<lparr>cl_queue := []\<rparr>) ?c3"
  have steps: "sdk_action W u dial res i c = SdkGoes ?c1" "sdk_action W u dial res i ?c1 = SdkGoes ?c2"
    "sdk_action W u dial res i ?c2 = SdkGoes ?c3" "sdk_action W u dial res i ?c3 = SdkGoes ?c4"
    using assms None by (simp_all add: sdk_action_def alloc_def Let_def)
  have "i < length (cc_pcs ?c4)" "cc_pcs ?c4 ! i = Drain (cl_queue ?cl3)" using assms(1) by simp_all
  from drain_alone [OF this, of W u dial res] obtain c5 where c5: "sdk_solo W u dial res i ?c4 c5"
    "cc_client c5 = send_each W (cl_queue ?cl3) (cc_client ?c4)" "cc_pcs c5 = (cc_pcs ?c4)[i := Drain []]" by blast
  let ?c6 = "c5\<lparr>cc_pcs := (cc_pcs c5)[i := Outside] @ [LoopTop]\<rparr>"
  have "sdk_action W u dial res i c5 = SdkGoes ?c6" using assms(1) c5(3) by (simp add: sdk_action_def)
  then have "sdk_solo W u dial res i c5 ?c6" by (rule sdk_solo_step) simp
  with c5(1) have "sdk_solo W u dial res i ?c4 ?c6" by (simp add: sdk_solo_def)
  then have "sdk_solo W u dial res i c ?c6"
    by (intro sdk_solo_step [OF steps(1)] sdk_solo_step [OF steps(2)] sdk_solo_step [OF steps(3)] sdk_solo_step [OF steps(4)])
  moreover have "cc_client ?c6 = (snd (Client_Connect W dial ?cl))\<lparr>cl_readers := cl_readers ?cl\<rparr>"
  proof -
    have "cl_readers (send_each W ms cl) = cl_readers cl" for ms cl
      by (induction W ms cl rule: send_each.induct) (auto simp: Client_send_def split: option.split)
    then have r: "cl_readers (processQueue W ?cl3) = cl_readers ?cl" by (simp add: processQueue_def)
    have "snd (Client_Connect W dial ?cl) = (processQueue W ?cl3)\<lparr>cl_readers := cl_readers (processQueue W ?cl3) @ [AtTop]\<rparr>"
      using None by (simp add: Client_Connect_def alloc_def Let_def)
    then show ?thesis using r c5(2) by (simp add: processQueue_def)
  qed
  moreover have "cc_pcs ?c6 = (cc_pcs c)[i := Outside] @ [LoopTop]" using c5(3) by simp
  ultimately show ?thesis using None by auto
qed

end
