(* ===== verification/Spec2Isabelle.thy ===== *)
theory Spec2Isabelle
  imports Ws_Replay Server_Process Broker_Race Frames Subscriber_Conc Client_Conc
begin

text \<open>
  A verification development for the publish/subscribe server in this repository: a Go
  process (\<^verbatim>\<open>cmd/server\<close>, \<^verbatim>\<open>internal\<close>) that fans messages of topics out to WebSocket clients
  and keeps the last messages of each topic in Redis, and its Go client (\<^verbatim>\<open>sdk/go/client\<close>).

  \<^bold>\<open>The program.\<close> A client connects to \<^verbatim>\<open>/ws\<close>; \<^verbatim>\<open>internal/ws/handler.go\<close> makes a
  \<open>Subscriber\<close> for it, starts its write loop and runs its read loop. A request
  (subscribe, unsubscribe, publish, ping) calls the broker and is answered through the
  subscriber's queue. \<^verbatim>\<open>internal/broker\<close> holds the topics: the \<open>Broker\<close> sends a topic name to
  one of 32 \<open>Shard\<close>s by its FNV-1a hash, a shard maps names to \<open>Topic\<close>s, a topic maps client
  ids to subscribers. A publication is stored by \<^verbatim>\<open>internal/storage/redis.go\<close>, then put into
  the bounded queue of every subscriber; a full queue gets its client disconnected. The
  REST handlers of \<^verbatim>\<open>internal/api\<close> create, delete and list topics and report statistics;
  \<^verbatim>\<open>cmd/server/main.go\<close> starts it all behind gorilla's mux with two middlewares.

  \<^bold>\<open>Theories and sources.\<close>
  \<^item> \<open>Go_Prelude\<close>, \<open>Go_Time\<close>, \<open>Go_Json\<close>: what the code uses of Go: errors, maps (locale
    \<open>go_map\<close>), channels (locale \<open>bounded_fifo\<close>), stores of objects that pointers index (locale
    \<open>store_body\<close> for the loops over them), time and durations as text, encoding/json.
  \<^item> \<open>Model\<close>: \<^verbatim>\<open>internal/model\<close>, the structs and their JSON by the struct tags.
  \<^item> \<open>Subscriber\<close>, \<open>Topic\<close>, \<open>Shard\<close>, \<open>Broker\<close>: the files of the same names in \<^verbatim>\<open>internal/broker\<close>,
    a record and one definition per method, the store of objects passed along; the locale
    \<open>shard_router\<close> is what the broker needs of its hash.
  \<^item> \<open>Storage\<close>: \<^verbatim>\<open>internal/storage/redis.go\<close>; the Redis commands are the record \<open>redis_api\<close>, and
    \<open>redis_list_laws\<close> states what Redis documents of its lists. An in-memory Redis satisfies it.
  \<^item> \<open>Broker_Inv\<close>, \<open>Simulation\<close>, \<open>Broker_Spec\<close>: the invariant \<open>world_ok\<close>, forward simulation (locale
    \<open>simulation\<close>), and the refinement of a flat map from names to client ids and counts.
  \<^item> \<open>Broker_Conc\<close>, \<open>Broker_Alone\<close>, \<open>Broker_Race\<close>: the calls of the broker again, at the granularity
    of their locks, for any number of goroutines; what holds under every interleaving, that
    a call alone is the sequential call, the two races, and the send that is overtaken.
  \<^item> \<open>Subscriber_Conc\<close>: the methods of one subscriber at the granularity of its lock.
  \<^item> \<open>Ws_Handler\<close>, \<open>Ws_Correct\<close>, \<open>Ws_Replay\<close>: \<^verbatim>\<open>internal/ws/handler.go\<close>, the reply to each request, the
    cleanup, and the replay.
  \<^item> \<open>Api\<close>, \<open>Http_Server\<close>, \<open>Server_Process\<close>: \<^verbatim>\<open>internal/api\<close> and \<^verbatim>\<open>cmd/server/main.go\<close>; mux is a
    parameter with the hypotheses \<open>mux_laws\<close>.
  \<^item> \<open>Server_Machine\<close>, \<open>Frames\<close>: the server as a state machine over all events, one whole turn
    of a goroutine at a time, its invariants, and the type of the frames it sends.
  \<^item> \<open>Client_SDK\<close>, \<open>Client_Conc\<close>: \<^verbatim>\<open>sdk/go/client/client.go\<close>, each method as a whole, and the methods
    at the granularity of \<open>c.mu\<close>, with records of what was issued, written and lost.
  \<^item> This theory: a publication from one client to the handlers of another.

  \<^bold>\<open>Conventions.\<close> A Go panic, and \<open>log.Fatal\<close>, is \<open>None\<close>; an error is its text, on the left of a
  sum or in an option. A pointer is an index into a list. The counters of messages are 64
  bit words and wrap; lengths are naturals; the arithmetic on the client's \<open>last_n\<close> wraps.
  Go's iteration order over maps is the order of an association list, and
  \<open>Broker_Spec.publish_any_order\<close> shows that fan-out does not depend on it. A range variable is one
  cell per loop, as \<^verbatim>\<open>go.mod\<close> says go 1.21. The write loop recurses on the length of its
  queue, so no fuel is needed there; other loops follow the data. \<open>exec\<close> in \<open>Subscriber_Conc\<close> runs a
  schedule given as a list, and a method alone needs at most eight actions.

  \<^bold>\<open>What is proved.\<close> For each operation its outcome on every branch; that \<open>world_ok\<close> is kept and
  nothing panics, for the broker alone, per request, and in every state of the server that
  turns lead to which do not overlap; refinement of the flat specification; the limits; what
  replay returns; round trips of messages and of the requests of the SDK; that the write
  loop ends and writes everything. When calls overlap: mutual exclusion, order, absence of
  deadlock, the one place where a goroutine can panic, how far the limit of topics can be
  exceeded, and what the client of the SDK neither loses nor repeats. And where the code
  falls short, theorems that show it: a send can meet a closed channel, two goroutines can
  write to one connection, replayed events share one message, a long replay disconnects the
  client it is for, the limit of topics can be exceeded, a subscription can be lost to a
  deletion, a deleted topic's messages come back, a CORS preflight is refused, and the SDK
  lets a message overtake queued ones, gives up after one failed attempt to reconnect, does
  not subscribe again, and panics when disconnected twice.

  \<^bold>\<open>Granularity.\<close> \<open>Server_Machine\<close> takes one turn of a goroutine as atomic, so what is proved
  there is about turns that do not overlap; in particular the exact limits and the
  consistency of \<open>serial_limits\<close> do not survive the races of \<open>Broker_Race\<close>. \<open>Broker_Conc\<close>,
  \<open>Subscriber_Conc\<close> and \<open>Client_Conc\<close> look inside: there a step is what happens between two lock
  operations. A critical section is one step where the lock is not held across another
  lock or a loop of sends; \<open>Subscriber_Conc\<close> also cuts the writes of the slow-consumer policy
  out of its critical section, which is one step of \<open>Broker_Conc\<close>, as are the Redis commands of
  one \<open>SaveMessage\<close>. \<open>c.reconnectAttempts\<close>, \<open>c.options\<close> and \<open>c.conn\<close>, which \<open>readLoop\<close> reads without the
  lock, are read in one step each. Clock readings within one method agree.

  \<^bold>\<open>Not modelled.\<close> The JavaScript client and the web page (another language), build and container
  files; reading HTTP from the network, TLS, the WebSocket framing, what gorilla does on a
  connection beyond the result of each call; the ULID generator, a parameter assumed not to
  repeat where that matters, and whose source of entropy, crypto/rand, is taken not to fail
  (\<open>ulid.MustNew\<close> would panic); log lines, except those of the start and the end of the
  process; the text of JSON (documents are trees, numbers integers of any size, where Go has a
  float64 in a payload, and strings are kept as they are, where Go replaces invalid UTF-8); the rounding of
  \<open>time.Duration.Seconds\<close> through a float64 before it is truncated; the structs \<open>MessageData\<close> and
  \<open>Message\<close> of the SDK, which nothing uses.
\<close>

section \<open>From client to client\<close>

text \<open>The request a publication of the SDK is decoded to, and the message the server makes of it.\<close>

definition sdk_publication :: "string \<Rightarrow> string \<Rightarrow> (string \<times> json) list \<Rightarrow> client_message" where
  "sdk_publication n req payload =
     (request ''publish'' n req)\<lparr>c_message := Some (zero_message\<lparr>m_payload := norm_any (JObj payload)\<rparr>)\<rparr>"

definition stored_message :: "'r env \<Rightarrow> (string \<times> json) list \<Rightarrow> 'r world \<Rightarrow> message" where
  "stored_message E payload w =
     \<lparr>m_id = ulid E (ulid_draws w) (clock w), m_payload = norm_any (JObj payload), m_ts = clock w\<rparr>"

lemma publish_run:
  assumes "world_ok w" "a < length (subs w)" "lookup w n = Some p"
    "RedisStorage_SaveMessage (redis E) n (stored_message E payload w) (storage w) = (None, st)"
  shows "\<exists>w1. handleClientMessage E a (sdk_publication n req payload) w =
      Some (sent a (ack_message req n ''published'' (clock w)) w1) \<and>
    w1 = published p (stored_message E payload w) (w\<lparr>ulid_draws := Suc (ulid_draws w), storage := st\<rparr>) \<and> world_ok w1"
proof -
  let ?w0 = "w\<lparr>ulid_draws := Suc (ulid_draws w)\<rparr>"
  let ?m = "stored_message E payload w"
  let ?w1 = "published p ?m (w\<lparr>ulid_draws := Suc (ulid_draws w), storage := st\<rparr>)"
  have w0: "world_ok ?w0" "lookup ?w0 n = Some p" using assms(1,3) by (simp_all add: frame)
  have pub: "Broker_PublishMessage (redis E) n ?m ?w0 = Some (None, ?w1)"
    using Publish_eq [OF w0(1), of "redis E" n ?m] w0(2) assms(4) by simp
  have w1: "world_ok ?w1" "a < length (subs ?w1)" "clock ?w1 = clock w"
    using world_ok_published [of "w\<lparr>ulid_draws := Suc (ulid_draws w), storage := st\<rparr>" p ?m] w0(1)
      world_ok_lookup(2) [OF assms(1,3)] assms(2) by (simp_all add: frame)
  have "handleClientMessage E a (sdk_publication n req payload) w = sendAck a req n ''published'' ?w1"
    using world_ok_lookup(1) [OF assms(1,3)] pub
    by (simp add: handleClientMessage_def sdk_publication_def request_def zero_client_message_def handlePublish_def
        Let_def generateMessageID_def zero_message_def stored_message_def)
  then show ?thesis using w1 send_to_eq [OF w1(1,2)] by (simp add: sendAck_def)
qed

text \<open>The subscriber \<open>b\<close> after the publication has been served, and what its write loop does.\<close>

lemma published_to:
  assumes "world_ok w" "a < length (subs w)" "lookup w n = Some p" "b \<in> members (topics w ! p)" "b \<noteq> a"
    and "\<not> isClosedFlag (subs w ! b)" "length (queue_of (subs w ! b)) < chan_cap (messageQueue (subs w ! b))"
    and w1: "w1 = published p m (w\<lparr>ulid_draws := Suc (ulid_draws w), storage := st\<rparr>)"
  shows "subs (sent a ack w1) ! b = (subs w ! b)\<lparr>messageQueue := (messageQueue (subs w ! b))\<lparr>chan_buf :=
      queue_of (subs w ! b) @ [publication (topics w ! p) w]\<rparr>\<rparr>" "cells (sent a ack w1) = cells w @ [m]"
proof -
  have b: "b < length (subs w)"
    using members_lt [OF world_ok_topic(1) [OF assms(1) world_ok_lookup(2) [OF assms(1,3)]] assms(4)] .
  then have "subs (sent a ack w1) ! b = subs w1 ! b" using assms(5) by (simp add: sent_nth w1 published_def)
  moreover have "subs w1 ! b = after_send (clock w) (publication (topics w ! p) w) (subs w ! b)"
    using b assms(4) by (simp add: w1 published_def nth_upd_at publication_def)
  ultimately show "subs (sent a ack w1) ! b = (subs w ! b)\<lparr>messageQueue := (messageQueue (subs w ! b))\<lparr>chan_buf :=
      queue_of (subs w ! b) @ [publication (topics w ! p) w]\<rparr>\<rparr>"
    using assms(6,7) by (simp add: after_send_def has_room_def)
  show "cells (sent a ack w1) = cells w @ [m]" by (simp add: w1 published_def frame)
qed

text \<open>The frame of a publication, its JSON, and what the SDK makes of it.\<close>

definition event_frame :: "string \<Rightarrow> message \<Rightarrow> time \<Rightarrow> message server_message" where
  "event_frame n m t = zero_server_message\<lparr>s_type := ''message'', s_topic := n, s_message := Some m, s_ts := t\<rparr>"

lemma deref_publication:
  "topicName T = n \<Longrightarrow> deref (cells w @ [m]) (publication T w) = event_frame n m (clock w)"
  by (simp add: deref_def publication_def zero_server_message_def event_frame_def)

definition event_json :: "string \<Rightarrow> string \<Rightarrow> json \<Rightarrow> json \<Rightarrow> json" where
  "event_json n i payload ts = JObj [(''type'', JStr ''message''), (''topic'', JStr n),
     (''message'', JObj [(''id'', JStr i), (''payload'', payload), (''ts'', ts)]), (''ts'', ts)]"

lemma marshal_event:
  assumes "n \<noteq> []" "marshal_time (m_ts m) = Inr ts"
  shows "marshal_server_message (event_frame n m (m_ts m)) = Inr (event_json n (m_id m) (norm_any (m_payload m)) ts)"
  using assms by (simp add: marshal_server_message_def event_frame_def zero_server_message_def marshal_message_def
      omit_empty_def event_json_def)

lemma as_map_event:
  assumes "ts = JStr x" "norm_any payload = payload"
  shows "as_map (Inr (event_json n i payload ts)) = Inr [(''message'', JObj [(''id'', JStr i), (''payload'', payload), (''ts'', ts)]),
     (''topic'', JStr n), (''ts'', ts), (''type'', JStr ''message'')]"
  using assms by (simp add: event_json_def canon_obj_def dedup_keys_def gm_put_def gm_get_def)

lemma handle_event:
  "as_map res = Inr ((''message'', v) # (''topic'', v1) # (''ts'', v2) # [(''type'', JStr ''message'')]) \<Longrightarrow>
   cl_calls (readLoop_return W u d i res c) = cl_calls c @
     map (\<lambda>h. (h, JObj ((''message'', v) # (''topic'', v1) # (''ts'', v2) # [(''type'', JStr ''message'')])))
       (case gm_get (cl_handlers c) ''message'' of None \<Rightarrow> [] | Some hs \<Rightarrow> hs)"
  by (simp add: readLoop_return_def handleMessage_def json_get_def emit_def Let_def)

text \<open>
  C2: end to end, when Redis takes the message and the connection of the reader takes its
  frames. A client publishes with the Go SDK; the server decodes the request, stores the
  message (its storage is afterwards what the save left) and queues it; the write loop of
  every other open subscriber of the topic with room in its queue writes it after what was
  queued before; the frame's JSON, read by the SDK of that subscriber, starts each of its
  handlers of "message" with an object that has the topic, the id the server drew, and the
  payload as it was published.
\<close>

theorem publish_end_to_end:
  fixes w :: "'r world"
  assumes "world_ok w" "a < length (subs w)" "lookup w n = Some p" "b \<in> members (topics w ! p)" "b \<noteq> a"
    and "\<not> isClosedFlag (subs w ! b)" "length (queue_of (subs w ! b)) < chan_cap (messageQueue (subs w ! b))"
    and "RedisStorage_SaveMessage (redis E) n (stored_message E payload w) (storage w) = (None, st)"
    and "\<And>h f. ws_writes E (clientID (subs w ! b)) h f = None" and "marshal_time (clock w) = Inr ts"
  shows "\<exists>cm w' s before frame j.
    unmarshal_client_message (publish_json n req payload) = Some cm \<and>
    handleClientMessage E a cm w = Some w' \<and> storage w' = st \<and>
    writeLoop (ws_writes E) t (cells w') (subs w' ! b) = Some (Waiting, s) \<and>
    WebsocketConnection s = WebsocketConnection (subs w ! b) @ before @ [SetWriteDeadline (t + 10 * second), WriteJSON frame] \<and>
    before = concat (map (written t (cells w')) (queue_of (subs w ! b))) \<and>
    marshal_server_message frame = Inr j \<and>
    (\<forall>u d i c. cl_calls (readLoop_return W u d i (Inr j) c) = cl_calls c @
       map (\<lambda>h. (h, JObj [(''message'', JObj [(''id'', JStr (ulid E (ulid_draws w) (clock w))),
                                                (''payload'', norm_any (JObj payload)), (''ts'', ts)]),
                          (''topic'', JStr n), (''ts'', ts), (''type'', JStr ''message'')]))
         (case gm_get (cl_handlers c) ''message'' of None \<Rightarrow> [] | Some hs \<Rightarrow> hs))"
proof -
  let ?m = "stored_message E payload w"
  let ?frame = "event_frame n ?m (clock w)"
  let ?j = "event_json n (m_id ?m) (norm_any (m_payload ?m)) ts"
  have name: "topicName (topics w ! p) = n" "n \<noteq> []" using world_ok_lookup [OF assms(1,3)] by simp_all
  have dec: "unmarshal_client_message (publish_json n req payload) = Some (sdk_publication n req payload)"
    unfolding sdk_publication_def by (rule publish_decodes)
  obtain w1 where w1: "handleClientMessage E a (sdk_publication n req payload) w =
      Some (sent a (ack_message req n ''published'' (clock w)) w1)"
    "w1 = published p ?m (w\<lparr>ulid_draws := Suc (ulid_draws w), storage := st\<rparr>)"
    using publish_run [OF assms(1-3,8)] by blast
  let ?w' = "sent a (ack_message req n ''published'' (clock w)) w1"
  note b = published_to [OF assms(1-7) w1(2), of "ack_message req n ''published'' (clock w)"]
  have open_b: "\<not> chan_closed (messageQueue (subs w ! b))"
    using world_ok_sub(1) [OF assms(1) members_lt [OF world_ok_topic(1) [OF assms(1) world_ok_lookup(2) [OF assms(1,3)]] assms(4)]]
      assms(6) by (simp add: sub_ok_def)
  let ?s = "(subs w ! b)\<lparr>messageQueue := (messageQueue (subs w ! b))\<lparr>chan_buf := []\<rparr>,
      WebsocketConnection := WebsocketConnection (subs w ! b) @
        concat (map (written t (cells w @ [?m])) (queue_of (subs w ! b))) @ [SetWriteDeadline (t + 10 * second), WriteJSON ?frame]\<rparr>"
  have run: "writeLoop (ws_writes E) t (cells ?w') (subs ?w' ! b) = Some (Waiting, ?s)"
    unfolding b using open_b name(1)
    by (simp add: writeLoop_all assms(9) written_def [of _ _ "publication (topics w ! p) w"] deref_publication)
  have stored: "storage ?w' = st" using w1(2) by (simp add: frame published_def)
  have json: "marshal_server_message ?frame = Inr ?j"
    using marshal_event [of n ?m ts] name(2) assms(10) by (simp add: stored_message_def)
  obtain x where ts: "ts = JStr x" using assms(10) by (auto simp: marshal_time_def split: if_splits)
  have norm: "norm_any (norm_any (m_payload ?m)) = norm_any (m_payload ?m)" by (rule norm_any_idem)
  note calls = handle_event [OF as_map_event [OF ts norm]]
  have pay: "norm_any (m_payload ?m) = norm_any (JObj payload)" "m_id ?m = ulid E (ulid_draws w) (clock w)"
    unfolding stored_message_def message.simps by (rule norm_any_idem) simp
  show ?thesis
    using dec w1(1) stored run json calls b(2)
    by (intro exI [of _ "sdk_publication n req payload"] exI [of _ ?w'] exI [of _ ?s]
        exI [of _ "concat (map (written t (cells w @ [?m])) (queue_of (subs w ! b)))"] exI [of _ ?frame] exI [of _ ?j] conjI)
      (simp_all add: pay del: norm_any.simps)
qed

text \<open>The example world with a second client, which publishes.\<close>

definition two_clients :: "(string \<Rightarrow> blob list) world" where
  "two_clients = example_world\<lparr>subs := subs example_world @ [NewSubscriber ''c2'' [] 100]\<rparr>"

lemma two_clients_ok:
  "world_ok two_clients" "lookup two_clients ''a'' = Some 0" "members (topics two_clients ! 0) = {0}"
  "length (subs two_clients) = 2" "clock two_clients = 0" "storage two_clients = mem_storage 100"
  "\<not> isClosedFlag (subs two_clients ! 0)" "queue_of (subs two_clients ! 0) = []"
  "chan_cap (messageQueue (subs two_clients ! 0)) = 100"
proof -
  show "world_ok two_clients"
    unfolding two_clients_def using example_world_ok(1,4)
    by (intro world_ok_connect) (simp_all add: frame, simp_all add: NewSubscriber_def make_chan_def)
  show "lookup two_clients ''a'' = Some 0" "members (topics two_clients ! 0) = {0}" "length (subs two_clients) = 2"
    "storage two_clients = mem_storage 100"
    using example_world_ok(2-5) by (simp_all add: two_clients_def frame)
  show "clock two_clients = 0"
    by (simp add: two_clients_def example_world_def frame example_subscribed_def created_def joined_def relink_def
        example_broker_def NewBroker_def)
  show "\<not> isClosedFlag (subs two_clients ! 0)" "queue_of (subs two_clients ! 0) = []"
    "chan_cap (messageQueue (subs two_clients ! 0)) = 100"
    using example_world_ok(4) by (simp_all add: two_clients_def frame) (simp_all add: NewSubscriber_def make_chan_def)
qed

theorem publish_end_to_end_witness:
  "\<exists>st cm w' s frame. RedisStorage_SaveMessage mem_redis ''a'' (stored_message example_env [(''k'', JNum 1)] two_clients)
       (mem_storage 100) = (None, st) \<and>
     unmarshal_client_message (publish_json ''a'' ''r1'' [(''k'', JNum 1)]) = Some cm \<and>
     handleClientMessage example_env 1 cm two_clients = Some w' \<and> storage w' = st \<and>
     writeLoop (ws_writes example_env) 5 (cells w') (subs w' ! 0) = Some (Waiting, s) \<and>
     WriteJSON frame \<in> set (WebsocketConnection s)"
proof -
  let ?m = "stored_message example_env [(''k'', JNum 1)] two_clients"
  have ts: "marshal_time (clock two_clients) = Inr (JStr (fmt_time 0))"
    by (simp add: two_clients_ok(5) marshal_time_def time_year_def civil_from_days_def year_day_def Let_def)
  then have "\<exists>j. marshal_message ?m = Inr j" by (simp add: marshal_message_def stored_message_def)
  then obtain st where save: "RedisStorage_SaveMessage (redis example_env) ''a'' ?m (storage two_clients) = (None, st)"
    by (auto simp: example_env_def mem_save)
  have w: "ws_writes example_env (clientID (subs two_clients ! 0)) h f = None" for h f by (simp add: example_env_def)
  have "1 < length (subs two_clients)" "0 \<in> members (topics two_clients ! 0)" "(0::nat) \<noteq> 1"
    "length (queue_of (subs two_clients ! 0)) < chan_cap (messageQueue (subs two_clients ! 0))"
    using two_clients_ok by simp_all
  from publish_end_to_end [where E = example_env and n = "''a''" and t = 5,
      OF two_clients_ok(1) this(1) two_clients_ok(2) this(2,3) two_clients_ok(7) this(4) save w ts, of "''r1''" undefined]
  obtain cm w' s before frame where
    "unmarshal_client_message (publish_json ''a'' ''r1'' [(''k'', JNum 1)]) = Some cm"
    "handleClientMessage example_env 1 cm two_clients = Some w'" "storage w' = st"
    "writeLoop (ws_writes example_env) 5 (cells w') (subs w' ! 0) = Some (Waiting, s)"
    "WebsocketConnection s = WebsocketConnection (subs two_clients ! 0) @ before @ [SetWriteDeadline (5 + 10 * second), WriteJSON frame]"
    by blast
  moreover have "RedisStorage_SaveMessage mem_redis ''a'' ?m (mem_storage 100) = (None, st)"
    using save two_clients_ok(6) by (simp add: example_env_def)
  ultimately show ?thesis by auto
qed

end
